(* ===== verification/Prelude.thy ===== *)
theory Prelude
  imports Main "HOL-Library.Word"
begin

text \<open>
  Shared ground of the development.

  \<^item> Machine integers.  A C \<open>uint\<close> whose wrap-around matters is a \<open>nat\<close> reduced by \<open>u32\<close>;
    signed values are \<open>int\<close>s reduced by \<open>s16\<close> and \<open>s32\<close>; bytes are \<open>8 word\<close>s and page table
    entries \<open>32 word\<close>s.  Little-endian reads and writes of 16 and 32 bit fields inside a byte
    array are \<open>get16\<close>, \<open>put16\<close>, \<open>get32\<close>, \<open>put32\<close>.
  \<^item> Kernel code.  A kernel function is a state transformer of type \<open>('s, 'a) kern\<close>: it returns
    (\<open>Ok\<close>), calls \<open>panic\<close> (\<open>Panic\<close> with the message) or gives up the processor in \<open>sleep\<close>
    (\<open>Sleeping\<close> with the state at the context switch).  \<open>kbind\<close>, \<open>kthen\<close>, \<open>kret\<close>, \<open>kget\<close>,
    \<open>kmod\<close> and \<open>kpanic\<close> are the only combinators.
  \<^item> \<open>wp m Q s\<close>: run from \<open>s\<close>, \<open>m\<close> returns (neither panics nor sleeps) and \<open>Q\<close> holds of the
    result and the final state.  \<open>preserves I m\<close>: \<open>I\<close> holds again whenever \<open>m\<close> returns or
    sleeps.  Both come with one rule per combinator, collected in \<open>wp_rules\<close> and \<open>pres_rules\<close>.
\<close>

named_theorems wp_rules \<open>weakest preconditions of the kernel operations\<close>
named_theorems pres_rules \<open>invariant preservation of the kernel operations\<close>
named_theorems code_defs \<open>definitions unfolded when a concrete run is evaluated\<close>

section \<open>Machine integers\<close>

type_synonym byte = "8 word"

definition u32 :: "nat \<Rightarrow> nat" where
  "u32 n = n mod 2 ^ 32"

definition s16 :: "int \<Rightarrow> int" where
  "s16 i = (i + 32768) mod 65536 - 32768"

definition s32 :: "int \<Rightarrow> int" where
  "s32 i = (i + 2147483648) mod 4294967296 - 2147483648"

lemma u32_id [simp]: "n < 4294967296 \<Longrightarrow> u32 n = n"
  by (simp add: u32_def)

lemma u32_less [simp]: "u32 n < 4294967296"
  by (simp add: u32_def)

lemma s16_id [simp]: "-32768 \<le> i \<Longrightarrow> i < 32768 \<Longrightarrow> s16 i = i"
  by (simp add: s16_def)

lemma s16_bounds: "-32768 \<le> s16 i \<and> s16 i < 32768"
  using pos_mod_bound [of 65536 "i + 32768"] pos_mod_sign [of 65536 "i + 32768"]
  by (simp add: s16_def)

lemma s32_id [simp]: "-2147483648 \<le> i \<Longrightarrow> i < 2147483648 \<Longrightarrow> s32 i = i"
  by (simp add: s32_def)

lemma s32_bounds: "-2147483648 \<le> s32 i \<and> s32 i < 2147483648"
  using pos_mod_bound [of 4294967296 "i + 2147483648"] pos_mod_sign [of 4294967296 "i + 2147483648"]
  by (simp add: s32_def)

section \<open>Byte arrays and little-endian fields\<close>

text \<open>A C byte array is a function from the index; the code's bounds are kept by its callers.\<close>

type_synonym bytes = "nat \<Rightarrow> byte"

definition get16 :: "bytes \<Rightarrow> nat \<Rightarrow> nat" where
  "get16 d i = unat (d i) + 256 * unat (d (i + 1))"

definition put16 :: "bytes \<Rightarrow> nat \<Rightarrow> nat \<Rightarrow> bytes" where
  "put16 d i v = d(i := word_of_nat v, i + 1 := word_of_nat (v div 256))"

definition get32 :: "bytes \<Rightarrow> nat \<Rightarrow> nat" where
  "get32 d i = unat (d i) + 256 * unat (d (i + 1)) + 65536 * unat (d (i + 2))
     + 16777216 * unat (d (i + 3))"

definition put32 :: "bytes \<Rightarrow> nat \<Rightarrow> nat \<Rightarrow> bytes" where
  "put32 d i v = d(i := word_of_nat v, i + 1 := word_of_nat (v div 256),
     i + 2 := word_of_nat (v div 65536), i + 3 := word_of_nat (v div 16777216))"

text \<open>A two's complement \<open>short\<close> stored in two bytes.\<close>

definition gets16 :: "bytes \<Rightarrow> nat \<Rightarrow> int" where
  "gets16 d i = s16 (int (get16 d i))"

definition puts16 :: "bytes \<Rightarrow> nat \<Rightarrow> int \<Rightarrow> bytes" where
  "puts16 d i v = put16 d i (nat (v mod 65536))"

lemma unat_byte_less [simp]: "unat (b :: byte) < 256"
  using unsigned_less [of b, where ?'a = nat] by simp

lemma unat_byte_of_nat [simp]: "unat (word_of_nat n :: byte) = n mod 256"
  by (simp add: unat_of_nat)

lemma get16_less: "get16 d i < 65536"
  using unat_byte_less [of "d i"] unat_byte_less [of "d (i + 1)"]
  unfolding get16_def by linarith

lemma get32_less: "get32 d i < 4294967296"
  using unat_byte_less [of "d i"] unat_byte_less [of "d (i + 1)"]
    unat_byte_less [of "d (i + 2)"] unat_byte_less [of "d (i + 3)"]
  unfolding get32_def by linarith

lemma get16_put16 [simp]: "v < 65536 \<Longrightarrow> get16 (put16 d i v) i = v"
  by (simp add: get16_def put16_def)

lemma le32_parts:
  "(v :: nat) mod 256 + 256 * (v div 256 mod 256) + 65536 * (v div 65536 mod 256)
     + 16777216 * (v div 16777216 mod 256) = v mod 4294967296"
proof -
  have "v mod (256 * 256) = 256 * (v div 256 mod 256) + v mod 256"
    by (rule mod_mult2_eq)
  moreover have "v mod (65536 * 256) = 65536 * (v div 65536 mod 256) + v mod 65536"
    by (rule mod_mult2_eq)
  moreover have "v mod (16777216 * 256) = 16777216 * (v div 16777216 mod 256) + v mod 16777216"
    by (rule mod_mult2_eq)
  ultimately show ?thesis by simp
qed

lemma get32_put32 [simp]: "v < 4294967296 \<Longrightarrow> get32 (put32 d i v) i = v"
  using le32_parts [of v] by (simp add: get32_def put32_def)

lemma get16_put16_other [simp]: "j + 1 < i \<or> i + 1 < j \<Longrightarrow> get16 (put16 d i v) j = get16 d j"
  by (auto simp: get16_def put16_def)

lemma get32_put32_other [simp]: "j + 3 < i \<or> i + 3 < j \<Longrightarrow> get32 (put32 d i v) j = get32 d j"
  by (auto simp: get32_def put32_def)

lemma get32_put16_other [simp]: "j + 3 < i \<or> i + 1 < j \<Longrightarrow> get32 (put16 d i v) j = get32 d j"
  by (auto simp: get32_def put16_def)

lemma get16_put32_other [simp]: "j + 1 < i \<or> i + 3 < j \<Longrightarrow> get16 (put32 d i v) j = get16 d j"
  by (auto simp: get16_def put32_def)

lemma put16_apply_other: "j < i \<or> i + 1 < j \<Longrightarrow> put16 d i v j = d j"
  by (auto simp: put16_def)

lemma put32_apply_other: "j < i \<or> i + 3 < j \<Longrightarrow> put32 d i v j = d j"
  by (auto simp: put32_def)

lemma s16_mod: "s16 (v mod 65536) = s16 v"
  by (simp add: s16_def mod_add_left_eq)

lemma gets16_puts16 [simp]: "-32768 \<le> v \<Longrightarrow> v < 32768 \<Longrightarrow> gets16 (puts16 d i v) i = v"
proof -
  assume v: "-32768 \<le> v" "v < 32768"
  have "nat (v mod 65536) < 65536" by (simp add: nat_less_iff)
  then show ?thesis using v
    by (simp add: gets16_def puts16_def s16_mod)
qed

lemma gets16_puts16_other [simp]:
  "j + 1 < i \<or> i + 1 < j \<Longrightarrow> gets16 (puts16 d i v) j = gets16 d j"
  by (simp add: gets16_def puts16_def)

lemma gets16_put32_other [simp]:
  "j + 1 < i \<or> i + 3 < j \<Longrightarrow> gets16 (put32 d i v) j = gets16 d j"
  by (simp add: gets16_def)

lemma get32_puts16_other [simp]:
  "j + 3 < i \<or> i + 1 < j \<Longrightarrow> get32 (puts16 d i v) j = get32 d j"
  by (simp add: puts16_def)

lemma gets16_bounds: "-32768 \<le> gets16 d i \<and> gets16 d i < 32768"
  unfolding gets16_def by (rule s16_bounds)

section \<open>Kernel computations\<close>

datatype ('s, 'a) kres = Ok 'a 's | Panic string | Sleeping 's

type_synonym ('s, 'a) kern = "'s \<Rightarrow> ('s, 'a) kres"

definition kret :: "'a \<Rightarrow> ('s, 'a) kern" where
  "kret x s = Ok x s"

definition kbind :: "('s, 'a) kern \<Rightarrow> ('a \<Rightarrow> ('s, 'b) kern) \<Rightarrow> ('s, 'b) kern" where
  "kbind m f s = (case m s of Ok x t \<Rightarrow> f x t | Panic e \<Rightarrow> Panic e | Sleeping t \<Rightarrow> Sleeping t)"

definition kthen :: "('s, 'a) kern \<Rightarrow> ('s, 'b) kern \<Rightarrow> ('s, 'b) kern" where
  "kthen m n = kbind m (\<lambda>_. n)"

definition kget :: "('s \<Rightarrow> 'a) \<Rightarrow> ('s, 'a) kern" where
  "kget f s = Ok (f s) s"

definition kmod :: "('s \<Rightarrow> 's) \<Rightarrow> ('s, unit) kern" where
  "kmod f s = Ok () (f s)"

definition kpanic :: "string \<Rightarrow> ('s, 'a) kern" where
  "kpanic e s = Panic e"

definition kwhen :: "bool \<Rightarrow> ('s, unit) kern \<Rightarrow> ('s, unit) kern" where
  "kwhen b m = (if b then m else kret ())"

lemmas kern_defs = kret_def kbind_def kthen_def kget_def kmod_def kpanic_def kwhen_def

lemma kbind_kret [simp]: "kbind (kret x) f = f x"
  by (rule ext) (simp add: kern_defs)

lemma kbind_assoc: "kbind (kbind m f) g = kbind m (\<lambda>x. kbind (f x) g)"
  by (rule ext) (simp add: kbind_def split: kres.split)

lemma kbind_Ok: "kbind m f s = Ok y u \<longleftrightarrow> (\<exists>x t. m s = Ok x t \<and> f x t = Ok y u)"
  by (auto simp: kbind_def split: kres.splits)

subsection \<open>Weakest preconditions\<close>

definition wp :: "('s, 'a) kern \<Rightarrow> ('a \<Rightarrow> 's \<Rightarrow> bool) \<Rightarrow> 's \<Rightarrow> bool" where
  "wp m Q s = (case m s of Ok x t \<Rightarrow> Q x t | Panic e \<Rightarrow> False | Sleeping t \<Rightarrow> False)"

lemma wp_iff: "wp m Q s \<longleftrightarrow> (\<exists>x t. m s = Ok x t \<and> Q x t)"
  by (auto simp: wp_def split: kres.splits)

lemma wp_Ok: "m s = Ok x t \<Longrightarrow> wp m Q s = Q x t"
  by (simp add: wp_def)

lemma wp_kret [simp]: "wp (kret x) Q = Q x"
  by (simp add: wp_def kret_def fun_eq_iff)

lemma wp_kbind [simp]: "wp (kbind m f) Q = wp m (\<lambda>x. wp (f x) Q)"
  by (auto simp: wp_def kbind_def fun_eq_iff split: kres.splits)

lemma wp_kthen [simp]: "wp (kthen m n) Q = wp m (\<lambda>_. wp n Q)"
  by (simp add: kthen_def)

lemma wp_kget [simp]: "wp (kget f) Q = (\<lambda>s. Q (f s) s)"
  by (simp add: wp_def kget_def fun_eq_iff)

lemma wp_kmod [simp]: "wp (kmod f) Q = (\<lambda>s. Q () (f s))"
  by (simp add: wp_def kmod_def fun_eq_iff)

lemma wp_kpanic [simp]: "wp (kpanic e) Q = (\<lambda>s. False)"
  by (simp add: wp_def kpanic_def fun_eq_iff)

lemma wp_if [simp]: "wp (if b then m else n) Q = (\<lambda>s. if b then wp m Q s else wp n Q s)"
  by simp

lemma wp_kwhen [simp]: "wp (kwhen b m) Q = (\<lambda>s. if b then wp m Q s else Q () s)"
  by (simp add: kwhen_def)

lemma wp_mono: "wp m Q s \<Longrightarrow> (\<And>x t. Q x t \<Longrightarrow> R x t) \<Longrightarrow> wp m R s"
  by (auto simp: wp_iff)

lemma wp_conj: "wp m Q s \<Longrightarrow> wp m R s \<Longrightarrow> wp m (\<lambda>x t. Q x t \<and> R x t) s"
  by (auto simp: wp_iff)

subsection \<open>Preserved predicates\<close>

definition preserves :: "('s \<Rightarrow> bool) \<Rightarrow> ('s, 'a) kern \<Rightarrow> bool" where
  "preserves I m \<longleftrightarrow> (\<forall>s. I s \<longrightarrow>
     (case m s of Ok x t \<Rightarrow> I t | Panic e \<Rightarrow> True | Sleeping t \<Rightarrow> I t))"

lemma preservesI:
  assumes "\<And>s x t. I s \<Longrightarrow> m s = Ok x t \<Longrightarrow> I t"
    and "\<And>s t. I s \<Longrightarrow> m s = Sleeping t \<Longrightarrow> I t"
  shows "preserves I m"
  unfolding preserves_def
proof (intro allI impI)
  fix s assume I: "I s"
  show "case m s of Ok x t \<Rightarrow> I t | Panic e \<Rightarrow> True | Sleeping t \<Rightarrow> I t"
    by (cases "m s") (simp_all add: assms(1) [OF I] assms(2) [OF I])
qed

lemma preservesD: "preserves I m \<Longrightarrow> I s \<Longrightarrow> m s = Ok x t \<Longrightarrow> I t"
  by (fastforce simp: preserves_def)

lemma preservesD_sleep: "preserves I m \<Longrightarrow> I s \<Longrightarrow> m s = Sleeping t \<Longrightarrow> I t"
  by (fastforce simp: preserves_def)

lemma pres_kret [pres_rules]: "preserves I (kret x)"
  by (simp add: preserves_def kret_def)

lemma pres_kget [pres_rules]: "preserves I (kget f)"
  by (simp add: preserves_def kget_def)

lemma pres_kpanic [pres_rules]: "preserves I (kpanic e)"
  by (simp add: preserves_def kpanic_def)

lemma pres_kmod: "(\<And>s. I s \<Longrightarrow> I (f s)) \<Longrightarrow> preserves I (kmod f)"
  by (simp add: preserves_def kmod_def)

lemma pres_kbind [pres_rules]:
  assumes m: "preserves I m" and f: "\<And>x. preserves I (f x)"
  shows "preserves I (kbind m f)"
proof (rule preservesI)
  fix s x t
  assume I: "I s" and eq: "kbind m f s = Ok x t"
  from eq obtain y u where "m s = Ok y u" "f y u = Ok x t" by (auto simp: kbind_Ok)
  with I show "I t" using preservesD [OF m] preservesD [OF f] by blast
next
  fix s t
  assume I: "I s" and eq: "kbind m f s = Sleeping t"
  then consider "m s = Sleeping t" | y u where "m s = Ok y u" "f y u = Sleeping t"
    by (auto simp: kbind_def split: kres.splits)
  then show "I t"
    using I preservesD [OF m] preservesD_sleep [OF m] preservesD_sleep [OF f] by cases blast+
qed

lemma pres_kthen [pres_rules]:
  "preserves I m \<Longrightarrow> preserves I n \<Longrightarrow> preserves I (kthen m n)"
  by (simp add: kthen_def pres_kbind)

lemma pres_if [pres_rules]:
  "(b \<Longrightarrow> preserves I m) \<Longrightarrow> (\<not> b \<Longrightarrow> preserves I n) \<Longrightarrow> preserves I (if b then m else n)"
  by simp

lemma pres_kwhen [pres_rules]: "(b \<Longrightarrow> preserves I m) \<Longrightarrow> preserves I (kwhen b m)"
  by (simp add: kwhen_def pres_kret)

lemma pres_option [pres_rules]:
  "(x = None \<Longrightarrow> preserves I m) \<Longrightarrow> (\<And>y. x = Some y \<Longrightarrow> preserves I (f y)) \<Longrightarrow>
   preserves I (case x of None \<Rightarrow> m | Some y \<Rightarrow> f y)"
  by (cases x) auto

lemma pres_prod [pres_rules]:
  "(\<And>y z. x = (y, z) \<Longrightarrow> preserves I (f y z)) \<Longrightarrow> preserves I (case x of (y, z) \<Rightarrow> f y z)"
  by (cases x) auto

end
