(* ===== verification/Sched.thy ===== *)
theory Sched
  imports Prelude
begin

text \<open>
  The process table and the scheduling primitives of \<open>proc.c\<close> that every other kernel component
  calls: \<open>sched\<close>, \<open>yield\<close>, \<open>sleep\<close>, \<open>wakeup1\<close>, \<open>wakeup\<close>, \<open>kill\<close>, and the choice made by
  \<open>scheduler\<close>.  The state record \<open>kst\<close> is the root of the record hierarchy of the kernel model:
  the buffer cache, log, inode, file and memory theories extend it.

  Kernel functions are followed on one processor from a system call to its return or to the
  context switch in \<open>sched\<close> (result \<open>Sleeping\<close>).  Spin locks appear through their contract:
  \<open>held\<close> is the set of locks the processor holds; theory \<open>Spinlock\<close> has the implementation and
  proves that it meets this contract.  \<open>cpu->ncli\<close> is the number of locks held, so the test
  \<open>cpu->ncli != 1\<close> of \<open>sched\<close> is \<open>card (held s) \<noteq> 1\<close>, and interrupts are off while a lock is
  held, so the test of \<open>FL_IF\<close> is \<open>held s = {}\<close>.  Using the null pointer \<open>proc\<close> is a fault in
  kernel mode, which \<open>trap\<close> answers with \<open>panic("trap")\<close>.
\<close>

section \<open>Process table\<close>

definition NPROC :: nat where "NPROC = 64"
definition NOFILE :: nat where "NOFILE = 16"

text \<open>The spin locks of the kernel; \<open>LK_pipe p\<close> is the lock inside the pipe page \<open>p\<close>.\<close>

datatype lockid = LK_ptable | LK_bcache | LK_log | LK_icache | LK_ftable | LK_kmem | LK_ticks
  | LK_cons | LK_input | LK_ide | LK_pipe nat

text \<open>Sleep channels: the addresses passed to \<open>sleep\<close> and \<open>wakeup\<close>.\<close>

datatype chan = Ch_proc nat | Ch_buf nat | Ch_log | Ch_inode nat | Ch_pipe_nread nat
  | Ch_pipe_nwrite nat | Ch_input | Ch_ticks

datatype procstate = UNUSED | EMBRYO | SLEEPING | RUNNABLE | RUNNING | ZOMBIE

record trapframe =
  tf_eax :: nat
  tf_ebx :: nat
  tf_ecx :: nat
  tf_edx :: nat
  tf_esi :: nat
  tf_edi :: nat
  tf_ebp :: nat
  tf_gs :: nat
  tf_fs :: nat
  tf_es :: nat
  tf_ds :: nat
  tf_trapno :: nat
  tf_err :: nat
  tf_eip :: nat
  tf_cs :: nat
  tf_eflags :: nat
  tf_esp :: nat
  tf_ss :: nat

record proc =
  p_sz :: nat
  p_pgdir :: nat
  p_kstack :: nat
  p_state :: procstate
  p_pid :: int
  p_parent :: "nat option"
  p_tf :: trapframe
  p_chan :: "chan option"
  p_killed :: bool
  p_ofile :: "nat \<Rightarrow> nat option"
  p_cwd :: "nat option"
  p_name :: string

text \<open>
  \<open>curproc\<close> is the per-processor variable \<open>proc\<close>.  Pointers to processes, files and inodes are
  indices into the static tables; a null pointer is \<open>None\<close>.
\<close>

record kst =
  ptable :: "nat \<Rightarrow> proc"
  curproc :: "nat option"
  initproc :: "nat option"
  nextpid :: int
  held :: "lockid set"

section \<open>The contract of spin locks\<close>

definition acquire_lk :: "lockid \<Rightarrow> ('z kst_scheme, unit) kern" where
  "acquire_lk l s = (if l \<in> held s then Panic ''acquire'' else Ok () (s\<lparr>held := insert l (held s)\<rparr>))"

definition release_lk :: "lockid \<Rightarrow> ('z kst_scheme, unit) kern" where
  "release_lk l s = (if l \<in> held s then Ok () (s\<lparr>held := held s - {l}\<rparr>) else Panic ''release'')"

lemma wp_acquire_lk [simp]:
  "wp (acquire_lk l) Q = (\<lambda>s. l \<notin> held s \<and> Q () (s\<lparr>held := insert l (held s)\<rparr>))"
  by (simp add: wp_def acquire_lk_def fun_eq_iff)

lemma wp_release_lk [simp]:
  "wp (release_lk l) Q = (\<lambda>s. l \<in> held s \<and> Q () (s\<lparr>held := held s - {l}\<rparr>))"
  by (simp add: wp_def release_lk_def fun_eq_iff)

section \<open>Sleep and wakeup\<close>

definition set_proc :: "nat \<Rightarrow> (proc \<Rightarrow> proc) \<Rightarrow> ('z kst_scheme, unit) kern" where
  "set_proc p f = kmod (\<lambda>s. s\<lparr>ptable := (ptable s)(p := f (ptable s p))\<rparr>)"

definition sched :: "('z kst_scheme, 'a) kern" where
  "sched s =
    (if LK_ptable \<notin> held s then Panic ''sched ptable.lock''
     else if card (held s) \<noteq> 1 then Panic ''sched locks''
     else case curproc s of None \<Rightarrow> Panic ''trap''
     | Some p \<Rightarrow>
       if p_state (ptable s p) = RUNNING then Panic ''sched running''
       else if held s = {} then Panic ''sched interruptible''
       else Sleeping s)"

definition yield :: "('z kst_scheme, unit) kern" where
  "yield =
    kthen (acquire_lk LK_ptable) (
    kbind (kget curproc) (\<lambda>cp.
    case cp of None \<Rightarrow> kpanic ''trap''
    | Some p \<Rightarrow>
      kthen (set_proc p (\<lambda>q. q\<lparr>p_state := RUNNABLE\<rparr>)) (
      kthen (sched :: (_, unit) kern) (
      release_lk LK_ptable))))"

definition sleep :: "chan \<Rightarrow> lockid \<Rightarrow> ('z kst_scheme, 'a) kern" where
  "sleep ch lk =
    kbind (kget curproc) (\<lambda>cp.
    case cp of None \<Rightarrow> kpanic ''sleep''
    | Some p \<Rightarrow>
      kthen (kwhen (lk \<noteq> LK_ptable) (kthen (acquire_lk LK_ptable) (release_lk lk))) (
      kthen (set_proc p (\<lambda>q. q\<lparr>p_chan := Some ch, p_state := SLEEPING\<rparr>)) (
      sched)))"

text \<open>What \<open>sleep\<close> does once \<open>sched\<close> comes back: clear \<open>chan\<close> and take the lock again.\<close>

definition sleep_resume :: "lockid \<Rightarrow> ('z kst_scheme, unit) kern" where
  "sleep_resume lk =
    kbind (kget curproc) (\<lambda>cp.
    case cp of None \<Rightarrow> kpanic ''trap''
    | Some p \<Rightarrow>
      kthen (set_proc p (\<lambda>q. q\<lparr>p_chan := None\<rparr>)) (
      kwhen (lk \<noteq> LK_ptable) (kthen (release_lk LK_ptable) (acquire_lk lk))))"

definition wake_proc :: "chan \<Rightarrow> proc \<Rightarrow> proc" where
  "wake_proc ch q = (if p_state q = SLEEPING \<and> p_chan q = Some ch
     then q\<lparr>p_state := RUNNABLE\<rparr> else q)"

fun wakeup1_from :: "chan \<Rightarrow> nat list \<Rightarrow> (nat \<Rightarrow> proc) \<Rightarrow> (nat \<Rightarrow> proc)" where
  "wakeup1_from ch [] pt = pt"
| "wakeup1_from ch (p # ps) pt = wakeup1_from ch ps (pt(p := wake_proc ch (pt p)))"

definition wakeup1 :: "chan \<Rightarrow> ('z kst_scheme, unit) kern" where
  "wakeup1 ch = kmod (\<lambda>s. s\<lparr>ptable := wakeup1_from ch [0..<NPROC] (ptable s)\<rparr>)"

definition wakeup :: "chan \<Rightarrow> ('z kst_scheme, unit) kern" where
  "wakeup ch =
    kthen (acquire_lk LK_ptable) (
    kthen (wakeup1 ch) (
    release_lk LK_ptable))"

fun kill_from :: "nat list \<Rightarrow> int \<Rightarrow> ('z kst_scheme, int) kern" where
  "kill_from [] pid = kthen (release_lk LK_ptable) (kret (-1))"
| "kill_from (p # ps) pid =
    kbind (kget ptable) (\<lambda>pt.
    if p_pid (pt p) = pid then
      kthen (set_proc p (\<lambda>q. q\<lparr>p_killed := True\<rparr>)) (
      kthen (kwhen (p_state (pt p) = SLEEPING) (set_proc p (\<lambda>q. q\<lparr>p_state := RUNNABLE\<rparr>))) (
      kthen (release_lk LK_ptable) (
      kret 0)))
    else kill_from ps pid)"

definition kill :: "int \<Rightarrow> ('z kst_scheme, int) kern" where
  "kill pid = kthen (acquire_lk LK_ptable) (kill_from [0..<NPROC] pid)"

text \<open>
  One pass of the loop of \<open>scheduler\<close> from slot \<open>p\<close>: the next \<open>RUNNABLE\<close> slot is chosen and
  becomes \<open>RUNNING\<close> (\<open>swtch\<close> then enters it); \<open>None\<close> when the pass finds none.
\<close>

fun scheduler_pick :: "nat list \<Rightarrow> ('z kst_scheme, nat option) kern" where
  "scheduler_pick [] = kthen (release_lk LK_ptable) (kret None)"
| "scheduler_pick (p # ps) =
    kbind (kget ptable) (\<lambda>pt.
    if p_state (pt p) \<noteq> RUNNABLE then scheduler_pick ps
    else
      kthen (kmod (\<lambda>s. s\<lparr>curproc := Some p\<rparr>)) (
      kthen (set_proc p (\<lambda>q. q\<lparr>p_state := RUNNING\<rparr>)) (
      kret (Some p))))"

section \<open>What the primitives do\<close>

definition wakeup_tab :: "chan \<Rightarrow> (nat \<Rightarrow> proc) \<Rightarrow> (nat \<Rightarrow> proc)" where
  "wakeup_tab ch pt = (\<lambda>p. if p < NPROC then wake_proc ch (pt p) else pt p)"

lemma wakeup1_from_upto: "distinct ps \<Longrightarrow>
  wakeup1_from ch ps pt = (\<lambda>p. if p \<in> set ps then wake_proc ch (pt p) else pt p)"
  by (induction ps arbitrary: pt) (auto simp: fun_eq_iff)

lemma wakeup1_from_all: "wakeup1_from ch [0..<NPROC] pt = wakeup_tab ch pt"
  by (simp add: wakeup1_from_upto wakeup_tab_def fun_eq_iff)

lemma wp_set_proc [simp]:
  "wp (set_proc p f) Q = (\<lambda>s. Q () (s\<lparr>ptable := (ptable s)(p := f (ptable s p))\<rparr>))"
  by (simp add: set_proc_def)

lemma wp_wakeup1 [simp]: "wp (wakeup1 ch) Q = (\<lambda>s. Q () (s\<lparr>ptable := wakeup_tab ch (ptable s)\<rparr>))"
  by (simp add: wakeup1_def wakeup1_from_all)

lemma wp_wakeup [simp]:
  "wp (wakeup ch) Q = (\<lambda>s. LK_ptable \<notin> held s \<and> Q () (s\<lparr>ptable := wakeup_tab ch (ptable s)\<rparr>))"
  by (simp add: wakeup_def cong: conj_cong)

lemma wake_proc_fields [simp]:
  "p_sz (wake_proc ch q) = p_sz q" "p_pgdir (wake_proc ch q) = p_pgdir q"
  "p_kstack (wake_proc ch q) = p_kstack q" "p_pid (wake_proc ch q) = p_pid q"
  "p_parent (wake_proc ch q) = p_parent q" "p_tf (wake_proc ch q) = p_tf q"
  "p_chan (wake_proc ch q) = p_chan q" "p_killed (wake_proc ch q) = p_killed q"
  "p_ofile (wake_proc ch q) = p_ofile q" "p_cwd (wake_proc ch q) = p_cwd q"
  "p_name (wake_proc ch q) = p_name q"
  by (simp_all add: wake_proc_def)

lemma wakeup_tab_fields [simp]:
  "p_sz (wakeup_tab ch pt p) = p_sz (pt p)" "p_pgdir (wakeup_tab ch pt p) = p_pgdir (pt p)"
  "p_kstack (wakeup_tab ch pt p) = p_kstack (pt p)" "p_pid (wakeup_tab ch pt p) = p_pid (pt p)"
  "p_parent (wakeup_tab ch pt p) = p_parent (pt p)" "p_tf (wakeup_tab ch pt p) = p_tf (pt p)"
  "p_chan (wakeup_tab ch pt p) = p_chan (pt p)" "p_killed (wakeup_tab ch pt p) = p_killed (pt p)"
  "p_ofile (wakeup_tab ch pt p) = p_ofile (pt p)" "p_cwd (wakeup_tab ch pt p) = p_cwd (pt p)"
  "p_name (wakeup_tab ch pt p) = p_name (pt p)"
  by (simp_all add: wakeup_tab_def)

end
