(* ===== verification/Bio.thy ===== *)
theory Bio
  imports Sched
begin

text \<open>
  The buffer cache (\<open>bio.c\<close>) over the in-memory disk driver (\<open>memide.c\<close>).

  A buffer keeps its \<open>flags\<close> word as the three bits \<open>B_BUSY\<close>, \<open>B_VALID\<close>, \<open>B_DIRTY\<close>.  The static
  array \<open>bcache.buf\<close> is \<open>bufs\<close>, indexed by \<open>0 .. NBUF - 1\<close>; the circular list through
  \<open>prev\<close>/\<open>next\<close> is the list \<open>lru\<close> of buffer indices, starting at \<open>head.next\<close> (theory
  \<open>Bcache_List\<close> has the pointers and proves that they represent this list).  The disk
  image is \<open>disk\<close>, one block of \<open>BSIZE\<close> bytes per sector, of \<open>disksize\<close> sectors.  \<open>disk_writes\<close> is
  a history variable: the sectors \<open>iderw\<close> has written, oldest first.  No code reads it; the crash
  theorems of theory \<open>Log\<close> are stated over it.
\<close>

definition NBUF :: nat where "NBUF = 10"
definition BSIZE :: nat where "BSIZE = 512"
definition ROOTDEV :: nat where "ROOTDEV = 1"

record buf =
  b_busy :: bool
  b_valid :: bool
  b_dirty :: bool
  b_dev :: nat
  b_sector :: nat
  b_data :: bytes

record bio = kst +
  bufs :: "nat \<Rightarrow> buf"
  lru :: "nat list"
  disk :: "nat \<Rightarrow> bytes"
  disksize :: nat
  disk_writes :: "(nat \<times> bytes) list"

definition set_buf :: "nat \<Rightarrow> (buf \<Rightarrow> buf) \<Rightarrow> ('z bio_scheme, unit) kern" where
  "set_buf b f = kmod (\<lambda>s. s\<lparr>bufs := (bufs s)(b := f (bufs s b))\<rparr>)"

section \<open>memide.c\<close>

definition iderw :: "nat \<Rightarrow> ('z bio_scheme, unit) kern" where
  "iderw b =
    kbind (kget (\<lambda>s. bufs s b)) (\<lambda>bp.
    kbind (kget disksize) (\<lambda>dsz.
    if \<not> b_busy bp then kpanic ''iderw: buf not busy''
    else if b_valid bp \<and> \<not> b_dirty bp then kpanic ''iderw: nothing to do''
    else if b_dev bp \<noteq> 1 then kpanic ''iderw: request not for disk 1''
    else if b_sector bp \<ge> dsz then kpanic ''iderw: sector out of range''
    else
      kthen
        (if b_dirty bp then
           kthen (set_buf b (\<lambda>x. x\<lparr>b_dirty := False\<rparr>))
             (kmod (\<lambda>s. s\<lparr>disk := (disk s)(b_sector bp := b_data bp),
                disk_writes := disk_writes s @ [(b_sector bp, b_data bp)]\<rparr>))
         else
           kbind (kget disk) (\<lambda>d. set_buf b (\<lambda>x. x\<lparr>b_data := d (b_sector bp)\<rparr>)))
        (set_buf b (\<lambda>x. x\<lparr>b_valid := True\<rparr>))))"

section \<open>bio.c\<close>

fun binit_from :: "nat list \<Rightarrow> ('z bio_scheme, unit) kern" where
  "binit_from [] = kret ()"
| "binit_from (b # bs) =
    kthen (set_buf b (\<lambda>x. x\<lparr>b_dev := 4294967295\<rparr>)) (
    kthen (kmod (\<lambda>s. s\<lparr>lru := b # lru s\<rparr>)) (
    binit_from bs))"

definition binit :: "('z bio_scheme, unit) kern" where
  "binit = kthen (kmod (\<lambda>s. s\<lparr>lru := []\<rparr>)) (binit_from [0..<NBUF])"

text \<open>The scan from \<open>head.next\<close> for the cached sector, and the scan from \<open>head.prev\<close> for a
  buffer to recycle.\<close>

fun find_cached :: "nat \<Rightarrow> nat \<Rightarrow> (nat \<Rightarrow> buf) \<Rightarrow> nat list \<Rightarrow> nat option" where
  "find_cached dev sector bs [] = None"
| "find_cached dev sector bs (b # l) =
    (if b_dev (bs b) = dev \<and> b_sector (bs b) = sector then Some b
     else find_cached dev sector bs l)"

fun find_recyclable :: "(nat \<Rightarrow> buf) \<Rightarrow> nat list \<Rightarrow> nat option" where
  "find_recyclable bs [] = None"
| "find_recyclable bs (b # l) =
    (if \<not> b_busy (bs b) \<and> \<not> b_dirty (bs b) then Some b else find_recyclable bs l)"

definition bget :: "nat \<Rightarrow> nat \<Rightarrow> ('z bio_scheme, nat) kern" where
  "bget dev sector =
    kthen (acquire_lk LK_bcache) (
    kbind (kget (\<lambda>s. find_cached dev sector (bufs s) (lru s))) (\<lambda>cached.
    case cached of
      Some b \<Rightarrow>
        kbind (kget (\<lambda>s. bufs s b)) (\<lambda>bp.
        if \<not> b_busy bp then
          kthen (set_buf b (\<lambda>x. x\<lparr>b_busy := True\<rparr>)) (
          kthen (release_lk LK_bcache) (
          kret b))
        else sleep (Ch_buf b) LK_bcache)
    | None \<Rightarrow>
        kbind (kget (\<lambda>s. find_recyclable (bufs s) (rev (lru s)))) (\<lambda>free.
        case free of
          Some b \<Rightarrow>
            kthen (set_buf b (\<lambda>x. x\<lparr>b_dev := dev, b_sector := sector,
              b_busy := True, b_valid := False, b_dirty := False\<rparr>)) (
            kthen (release_lk LK_bcache) (
            kret b))
        | None \<Rightarrow> kpanic ''bget: no buffers'')))"

definition bread :: "nat \<Rightarrow> nat \<Rightarrow> ('z bio_scheme, nat) kern" where
  "bread dev sector =
    kbind (bget dev sector) (\<lambda>b.
    kbind (kget (\<lambda>s. bufs s b)) (\<lambda>bp.
    kthen (kwhen (\<not> b_valid bp) (iderw b)) (
    kret b)))"

definition bwrite :: "nat \<Rightarrow> ('z bio_scheme, unit) kern" where
  "bwrite b =
    kbind (kget (\<lambda>s. bufs s b)) (\<lambda>bp.
    if \<not> b_busy bp then kpanic ''bwrite''
    else
      kthen (set_buf b (\<lambda>x. x\<lparr>b_dirty := True\<rparr>)) (
      iderw b))"

definition brelse :: "nat \<Rightarrow> ('z bio_scheme, unit) kern" where
  "brelse b =
    kbind (kget (\<lambda>s. bufs s b)) (\<lambda>bp.
    if \<not> b_busy bp then kpanic ''brelse''
    else
      kthen (acquire_lk LK_bcache) (
      kthen (kmod (\<lambda>s. s\<lparr>lru := b # remove1 b (lru s)\<rparr>)) (
      kthen (set_buf b (\<lambda>x. x\<lparr>b_busy := False\<rparr>)) (
      kthen (wakeup (Ch_buf b)) (
      release_lk LK_bcache)))))"

text \<open>The copy of a whole block into a buffer (\<open>memmove(bp->data, src, BSIZE)\<close>) and a change of
  some of its bytes.\<close>

definition set_data :: "nat \<Rightarrow> (bytes \<Rightarrow> bytes) \<Rightarrow> ('z bio_scheme, unit) kern" where
  "set_data b f = set_buf b (\<lambda>x. x\<lparr>b_data := f (b_data x)\<rparr>)"

definition buf_data :: "nat \<Rightarrow> ('z bio_scheme, bytes) kern" where
  "buf_data b = kget (\<lambda>s. b_data (bufs s b))"

section \<open>Searching the cache\<close>

lemma find_cached_SomeD:
  "find_cached dev sec bs l = Some b \<Longrightarrow> b \<in> set l \<and> b_dev (bs b) = dev \<and> b_sector (bs b) = sec"
  by (induction l) (auto split: if_splits)

lemma find_cached_None:
  "find_cached dev sec bs l = None \<longleftrightarrow> (\<forall>b \<in> set l. \<not> (b_dev (bs b) = dev \<and> b_sector (bs b) = sec))"
  by (induction l) auto

lemma find_recyclable_SomeD:
  "find_recyclable bs l = Some b \<Longrightarrow> b \<in> set l \<and> \<not> b_busy (bs b) \<and> \<not> b_dirty (bs b)"
  by (induction l) (auto split: if_splits)

lemma find_recyclable_None:
  "find_recyclable bs l = None \<longleftrightarrow> (\<forall>b \<in> set l. b_busy (bs b) \<or> b_dirty (bs b))"
  by (induction l) auto

section \<open>The invariant and the abstract view\<close>

definition at_sec :: "'z bio_scheme \<Rightarrow> nat \<Rightarrow> nat \<Rightarrow> bool" where
  "at_sec s b sec \<longleftrightarrow> b < NBUF \<and> b_dev (bufs s b) = ROOTDEV \<and> b_sector (bufs s b) = sec"

text \<open>Every buffer is on the list once; a block has at most one buffer; a buffer in use belongs to
  the disk; a dirty or busy buffer has contents; a clean idle buffer agrees with the disk.\<close>

definition bio_inv :: "'z bio_scheme \<Rightarrow> bool" where
  "bio_inv s \<longleftrightarrow>
     distinct (lru s) \<and> set (lru s) = {..<NBUF} \<and>
     (\<forall>i<NBUF. \<forall>j<NBUF. b_dev (bufs s i) = b_dev (bufs s j) \<and> b_sector (bufs s i) = b_sector (bufs s j)
        \<and> b_dev (bufs s i) \<noteq> 4294967295 \<longrightarrow> i = j) \<and>
     (\<forall>i<NBUF. b_valid (bufs s i) \<longrightarrow> b_dev (bufs s i) = ROOTDEV \<and> b_sector (bufs s i) < disksize s) \<and>
     (\<forall>i<NBUF. b_busy (bufs s i) \<or> b_dirty (bufs s i) \<longrightarrow> b_valid (bufs s i)) \<and>
     (\<forall>i<NBUF. b_valid (bufs s i) \<and> \<not> b_dirty (bufs s i) \<and> \<not> b_busy (bufs s i) \<longrightarrow>
        b_data (bufs s i) = disk s (b_sector (bufs s i)))"

text \<open>The contents of a block as the kernel sees them: the cached copy if there is one.\<close>

definition view :: "'z bio_scheme \<Rightarrow> nat \<Rightarrow> bytes" where
  "view s sec = (case find_cached ROOTDEV sec (bufs s) (lru s) of
     Some b \<Rightarrow> if b_valid (bufs s b) then b_data (bufs s b) else disk s sec
   | None \<Rightarrow> disk s sec)"

definition dirty_secs :: "'z bio_scheme \<Rightarrow> nat set" where
  "dirty_secs s = {sec. \<exists>b. at_sec s b sec \<and> b_dirty (bufs s b)}"

definition busy_secs :: "'z bio_scheme \<Rightarrow> nat set" where
  "busy_secs s = {sec. \<exists>b. at_sec s b sec \<and> b_busy (bufs s b)}"

definition owns :: "'z bio_scheme \<Rightarrow> nat \<Rightarrow> nat \<Rightarrow> bool" where
  "owns s b sec \<longleftrightarrow> at_sec s b sec \<and> b_busy (bufs s b) \<and> b_valid (bufs s b)"

text \<open>What the buffer cache may change: its own fields and, through \<open>wakeup\<close>, the process table.\<close>

definition bio_erase :: "'z bio_scheme \<Rightarrow> 'z bio_scheme" where
  "bio_erase s = s\<lparr>ptable := undefined, bufs := undefined, lru := [], disk := undefined,
     disk_writes := []\<rparr>"

definition bio_frame :: "'z bio_scheme \<Rightarrow> 'z bio_scheme \<Rightarrow> bool" where
  "bio_frame s t \<longleftrightarrow> bio_erase s = bio_erase t"

lemma bio_frame_refl [simp]: "bio_frame s s"
  by (simp add: bio_frame_def)

lemma bio_frame_trans [trans]: "bio_frame s t \<Longrightarrow> bio_frame t u \<Longrightarrow> bio_frame s u"
  by (simp add: bio_frame_def)

lemma bio_frame_upd [simp]:
  "bio_frame s (t\<lparr>ptable := pt\<rparr>) = bio_frame s t" "bio_frame s (t\<lparr>bufs := bf\<rparr>) = bio_frame s t"
  "bio_frame s (t\<lparr>lru := l\<rparr>) = bio_frame s t" "bio_frame s (t\<lparr>disk := d\<rparr>) = bio_frame s t"
  "bio_frame s (t\<lparr>disk_writes := w\<rparr>) = bio_frame s t"
  by (simp_all add: bio_frame_def bio_erase_def)

lemma bio_frame_fields:
  assumes "bio_frame s t"
  shows "held t = held s" and "disksize t = disksize s" and "curproc t = curproc s"
    and "initproc t = initproc s" and "nextpid t = nextpid s"
  using assms [unfolded bio_frame_def, THEN arg_cong, of held]
    assms [unfolded bio_frame_def, THEN arg_cong, of disksize]
    assms [unfolded bio_frame_def, THEN arg_cong, of curproc]
    assms [unfolded bio_frame_def, THEN arg_cong, of initproc]
    assms [unfolded bio_frame_def, THEN arg_cong, of nextpid]
  by (simp_all add: bio_erase_def)

lemma at_sec_unique: "bio_inv s \<Longrightarrow> at_sec s b sec \<Longrightarrow> at_sec s b' sec \<Longrightarrow> b = b'"
  unfolding bio_inv_def at_sec_def by (simp add: ROOTDEV_def)

lemma find_cached_at:
  assumes inv: "bio_inv s" and b: "at_sec s b sec"
  shows "find_cached ROOTDEV sec (bufs s) (lru s) = Some b"
proof (cases "find_cached ROOTDEV sec (bufs s) (lru s)")
  case None
  with inv b show ?thesis by (auto simp: find_cached_None bio_inv_def at_sec_def)
next
  case (Some b')
  with inv have "at_sec s b' sec"
    by (auto dest!: find_cached_SomeD simp: bio_inv_def at_sec_def)
  with inv b Some show ?thesis by (auto dest: at_sec_unique)
qed

lemma find_cached_absent:
  "bio_inv s \<Longrightarrow> (\<And>b. \<not> at_sec s b sec) \<Longrightarrow> find_cached ROOTDEV sec (bufs s) (lru s) = None"
  by (auto simp: find_cached_None bio_inv_def at_sec_def)

lemma view_at: "bio_inv s \<Longrightarrow> at_sec s b sec \<Longrightarrow> b_valid (bufs s b) \<Longrightarrow> view s sec = b_data (bufs s b)"
  by (simp add: view_def find_cached_at)

lemma view_invalid: "bio_inv s \<Longrightarrow> at_sec s b sec \<Longrightarrow> \<not> b_valid (bufs s b) \<Longrightarrow> view s sec = disk s sec"
  by (simp add: view_def find_cached_at)

lemma view_absent: "bio_inv s \<Longrightarrow> (\<And>b. \<not> at_sec s b sec) \<Longrightarrow> view s sec = disk s sec"
  by (simp add: view_def find_cached_absent)

lemma view_clean:
  assumes inv: "bio_inv s" and "sec \<notin> dirty_secs s" "sec \<notin> busy_secs s"
  shows "view s sec = disk s sec"
proof (cases "\<exists>b. at_sec s b sec")
  case True
  then obtain b where b: "at_sec s b sec" ..
  show ?thesis
  proof (cases "b_valid (bufs s b)")
    case True
    with inv b assms(2,3) show ?thesis
      by (auto simp: view_at dirty_secs_def busy_secs_def bio_inv_def at_sec_def)
  next
    case False
    with inv b show ?thesis by (simp add: view_invalid)
  qed
next
  case False
  with inv show ?thesis by (simp add: view_absent)
qed

text \<open>A buffer to recycle exists while fewer than \<open>NBUF\<close> blocks are dirty or in use.\<close>

lemma recyclable_exists:
  assumes inv: "bio_inv s" and c: "card (dirty_secs s \<union> busy_secs s) < NBUF"
  shows "\<exists>b<NBUF. \<not> b_busy (bufs s b) \<and> \<not> b_dirty (bufs s b)"
proof (rule ccontr)
  assume "\<not> ?thesis"
  then have all: "b_busy (bufs s b) \<or> b_dirty (bufs s b)" if "b < NBUF" for b
    using that by auto
  have dev: "b_dev (bufs s b) = ROOTDEV" if "b < NBUF" for b
    using inv all [OF that] that unfolding bio_inv_def by blast
  have inj: "inj_on (\<lambda>b. b_sector (bufs s b)) {..<NBUF}"
    using inv dev unfolding bio_inv_def inj_on_def by (simp add: ROOTDEV_def)
  have sub: "(\<lambda>b. b_sector (bufs s b)) ` {..<NBUF} \<subseteq> dirty_secs s \<union> busy_secs s"
    using all dev by (auto simp: dirty_secs_def busy_secs_def at_sec_def)
  have fin: "finite (dirty_secs s \<union> busy_secs s)"
  proof (rule finite_subset)
    show "dirty_secs s \<union> busy_secs s \<subseteq> (\<lambda>b. b_sector (bufs s b)) ` {..<NBUF}"
      by (auto simp: dirty_secs_def busy_secs_def at_sec_def)
  qed simp
  have "card ((\<lambda>b. b_sector (bufs s b)) ` {..<NBUF}) = NBUF"
    using inj by (simp add: card_image)
  then have "NBUF \<le> card (dirty_secs s \<union> busy_secs s)"
    using card_mono [OF fin sub] by simp
  with c show False by simp
qed

section \<open>What the operations do to the view\<close>

definition bread_post :: "'z bio_scheme \<Rightarrow> nat \<Rightarrow> nat \<Rightarrow> 'z bio_scheme \<Rightarrow> bool" where
  "bread_post s sec b t \<longleftrightarrow> bio_inv t \<and> bio_frame s t \<and> owns t b sec \<and> view t = view s \<and>
     disk t = disk s \<and> disk_writes t = disk_writes s \<and> dirty_secs t = dirty_secs s \<and>
     busy_secs t = insert sec (busy_secs s) \<and> (\<forall>b' sec'. owns s b' sec' \<longrightarrow> owns t b' sec')"

text \<open>The buffer \<open>bget\<close> picks: the one that caches the block, or else an idle clean one.\<close>

definition slot :: "'z bio_scheme \<Rightarrow> nat \<Rightarrow> nat \<Rightarrow> bool" where
  "slot s sec b \<longleftrightarrow> b < NBUF \<and> \<not> b_busy (bufs s b) \<and>
     (at_sec s b sec \<or> (\<forall>b'. \<not> at_sec s b' sec) \<and> \<not> b_dirty (bufs s b))"

definition filled :: "'z bio_scheme \<Rightarrow> nat \<Rightarrow> buf" where
  "filled s sec = \<lparr>b_busy = True, b_valid = True, b_dirty = (sec \<in> dirty_secs s), b_dev = ROOTDEV,
     b_sector = sec, b_data = view s sec\<rparr>"

lemma filled_simps [simp]:
  "b_busy (filled s sec)" "b_valid (filled s sec)" "b_dirty (filled s sec) \<longleftrightarrow> sec \<in> dirty_secs s"
  "b_dev (filled s sec) = ROOTDEV" "b_sector (filled s sec) = sec" "b_data (filled s sec) = view s sec"
  by (simp_all add: filled_def)

lemma not_busy_at: "sec \<notin> busy_secs s \<Longrightarrow> at_sec s b sec \<Longrightarrow> \<not> b_busy (bufs s b)"
  by (auto simp: busy_secs_def)

lemma dirty_at: "bio_inv s \<Longrightarrow> at_sec s b sec \<Longrightarrow> sec \<in> dirty_secs s \<longleftrightarrow> b_dirty (bufs s b)"
  by (auto simp: dirty_secs_def dest: at_sec_unique)

lemma wp_set_buf [simp]: "wp (set_buf b f) Q = (\<lambda>s. Q () (s\<lparr>bufs := (bufs s)(b := f (bufs s b))\<rparr>))"
  by (simp add: set_buf_def)

lemma wp_iderw_read:
  assumes "b_busy (bufs s b)" "\<not> b_valid (bufs s b)" "\<not> b_dirty (bufs s b)"
    "b_dev (bufs s b) = ROOTDEV" "b_sector (bufs s b) < disksize s"
  shows "wp (iderw b) Q s = Q () (s\<lparr>bufs := (bufs s)(b :=
     (bufs s b)\<lparr>b_data := disk s (b_sector (bufs s b)), b_valid := True\<rparr>)\<rparr>)"
  using assms by (simp add: iderw_def ROOTDEV_def)

lemma wp_iderw_write:
  assumes "b_busy (bufs s b)" "b_dirty (bufs s b)"
    "b_dev (bufs s b) = ROOTDEV" "b_sector (bufs s b) < disksize s"
  shows "wp (iderw b) Q s = Q () (s\<lparr>disk := (disk s)(b_sector (bufs s b) := b_data (bufs s b)),
     disk_writes := disk_writes s @ [(b_sector (bufs s b), b_data (bufs s b))],
     bufs := (bufs s)(b := (bufs s b)\<lparr>b_dirty := False, b_valid := True\<rparr>)\<rparr>)"
  using assms by (simp add: iderw_def ROOTDEV_def)

lemma buf_eqI:
  "b_busy x = b_busy y \<Longrightarrow> b_valid x = b_valid y \<Longrightarrow> b_dirty x = b_dirty y \<Longrightarrow> b_dev x = b_dev y \<Longrightarrow>
   b_sector x = b_sector y \<Longrightarrow> b_data x = b_data y \<Longrightarrow> x = (y :: buf)"
  by simp

lemma wp_bread_cached:
  assumes inv: "bio_inv s" and lk: "LK_bcache \<notin> held s" and sec: "sec < disksize s"
    and b: "at_sec s b sec" and nb: "sec \<notin> busy_secs s"
  shows "wp (bread ROOTDEV sec) Q s = Q b (s\<lparr>bufs := (bufs s)(b := filled s sec)\<rparr>)"
proof -
  let ?x = "bufs s b"
  from nb b have busy: "\<not> b_busy ?x" by (rule not_busy_at)
  show ?thesis
  proof (cases "b_valid ?x")
    case True
    have "?x\<lparr>b_busy := True\<rparr> = filled s sec"
      using b True inv by (intro buf_eqI) (auto simp: filled_def dirty_at view_at at_sec_def)
    then show ?thesis
      using True busy lk find_cached_at [OF inv b] by (simp add: bread_def bget_def)
  next
    case False
    then have "\<not> b_dirty ?x" using inv b by (auto simp: bio_inv_def at_sec_def)
    moreover have "?x\<lparr>b_busy := True, b_data := disk s sec, b_valid := True\<rparr> = filled s sec"
      using b False inv calculation
      by (intro buf_eqI) (auto simp: filled_def dirty_at view_invalid at_sec_def)
    ultimately show ?thesis
      using False busy lk find_cached_at [OF inv b] sec b
      by (simp add: bread_def bget_def wp_iderw_read at_sec_def)
  qed
qed

lemma wp_bread_fresh:
  assumes inv: "bio_inv s" and lk: "LK_bcache \<notin> held s" and sec: "sec < disksize s"
    and no: "\<And>b. \<not> at_sec s b sec" and c: "card (dirty_secs s \<union> busy_secs s) < NBUF"
  shows "\<exists>b. slot s sec b \<and> (\<forall>Q. wp (bread ROOTDEV sec) Q s = Q b (s\<lparr>bufs := (bufs s)(b := filled s sec)\<rparr>))"
proof -
  from recyclable_exists [OF inv c] inv obtain b where
    b: "find_recyclable (bufs s) (rev (lru s)) = Some b"
    by (cases "find_recyclable (bufs s) (rev (lru s))") (auto simp: find_recyclable_None bio_inv_def)
  then have b': "b < NBUF" "\<not> b_busy (bufs s b)" "\<not> b_dirty (bufs s b)"
    using inv by (auto dest!: find_recyclable_SomeD simp: bio_inv_def)
  have clean: "sec \<notin> dirty_secs s" using no by (auto simp: dirty_secs_def)
  have eq: "(bufs s b)\<lparr>b_dev := ROOTDEV, b_sector := sec, b_busy := True, b_valid := False, b_dirty := False,
      b_data := disk s sec, b_valid := True\<rparr> = filled s sec"
    using clean view_absent [OF inv no] by (intro buf_eqI) (auto simp: filled_def)
  have "wp (bread ROOTDEV sec) Q s = Q b (s\<lparr>bufs := (bufs s)(b := filled s sec)\<rparr>)" for Q
    using b lk find_cached_absent [OF inv no] sec eq
    by (simp add: bread_def bget_def wp_iderw_read)
  with b' no show ?thesis by (auto simp: slot_def)
qed

text \<open>Replacing one buffer by another of the same block, or by one of a block that had none.\<close>

lemma at_sec_upd:
  "at_sec (s\<lparr>bufs := (bufs s)(b := x)\<rparr>) b' sec \<longleftrightarrow>
     (if b' = b then b < NBUF \<and> b_dev x = ROOTDEV \<and> b_sector x = sec else at_sec s b' sec)"
  by (simp add: at_sec_def)

lemma dirty_secs_upd:
  assumes "b < NBUF" "b_dev x = ROOTDEV"
  shows "sec \<in> dirty_secs (s\<lparr>bufs := (bufs s)(b := x)\<rparr>) \<longleftrightarrow>
    b_sector x = sec \<and> b_dirty x \<or> (\<exists>b'. b' \<noteq> b \<and> at_sec s b' sec \<and> b_dirty (bufs s b'))"
  using assms by (auto simp: dirty_secs_def at_sec_upd)

lemma dirty_secs_split:
  "sec \<in> dirty_secs s \<longleftrightarrow>
    at_sec s b sec \<and> b_dirty (bufs s b) \<or> (\<exists>b'. b' \<noteq> b \<and> at_sec s b' sec \<and> b_dirty (bufs s b'))"
  by (auto simp: dirty_secs_def)

lemma busy_secs_upd:
  assumes "b < NBUF" "b_dev x = ROOTDEV"
  shows "sec \<in> busy_secs (s\<lparr>bufs := (bufs s)(b := x)\<rparr>) \<longleftrightarrow>
    b_sector x = sec \<and> b_busy x \<or> (\<exists>b'. b' \<noteq> b \<and> at_sec s b' sec \<and> b_busy (bufs s b'))"
  using assms by (auto simp: busy_secs_def at_sec_upd)

lemma busy_secs_split:
  "sec \<in> busy_secs s \<longleftrightarrow>
    at_sec s b sec \<and> b_busy (bufs s b) \<or> (\<exists>b'. b' \<noteq> b \<and> at_sec s b' sec \<and> b_busy (bufs s b'))"
  by (auto simp: busy_secs_def)

lemma finite_dirty: "finite (dirty_secs s)"
  by (rule finite_subset [of _ "(\<lambda>b. b_sector (bufs s b)) ` {..<NBUF}"]) (auto simp: dirty_secs_def at_sec_def)

lemma finite_busy: "finite (busy_secs s)"
  by (rule finite_subset [of _ "(\<lambda>b. b_sector (bufs s b)) ` {..<NBUF}"]) (auto simp: busy_secs_def at_sec_def)

lemma view_eq:
  assumes "bio_inv s" and "\<And>b. at_sec s b sec \<Longrightarrow> b_valid (bufs s b) \<Longrightarrow> b_data (bufs s b) = v"
    and "(\<And>b. at_sec s b sec \<Longrightarrow> \<not> b_valid (bufs s b)) \<Longrightarrow> disk s sec = v"
  shows "view s sec = v"
proof (cases "\<exists>b. at_sec s b sec \<and> b_valid (bufs s b)")
  case True
  with assms show ?thesis by (auto simp: view_at)
next
  case False
  then have "disk s sec = v" using assms(3) by blast
  with False assms(1) show ?thesis
    by (cases "\<exists>b. at_sec s b sec") (auto simp: view_invalid view_absent)
qed

lemma bio_invD:
  assumes "bio_inv s"
  shows "distinct (lru s)" "set (lru s) = {..<NBUF}"
    and "i < NBUF \<Longrightarrow> j < NBUF \<Longrightarrow> b_dev (bufs s i) = b_dev (bufs s j) \<Longrightarrow>
      b_sector (bufs s i) = b_sector (bufs s j) \<Longrightarrow> b_dev (bufs s i) \<noteq> 4294967295 \<Longrightarrow> i = j"
    and "i < NBUF \<Longrightarrow> b_valid (bufs s i) \<Longrightarrow> b_dev (bufs s i) = ROOTDEV \<and> b_sector (bufs s i) < disksize s"
    and "i < NBUF \<Longrightarrow> b_busy (bufs s i) \<or> b_dirty (bufs s i) \<Longrightarrow> b_valid (bufs s i)"
    and "i < NBUF \<Longrightarrow> b_valid (bufs s i) \<Longrightarrow> \<not> b_dirty (bufs s i) \<Longrightarrow> \<not> b_busy (bufs s i) \<Longrightarrow>
      b_data (bufs s i) = disk s (b_sector (bufs s i))"
  using assms unfolding bio_inv_def by blast+

lemma bio_inv_upd:
  assumes inv: "bio_inv s" and b: "b < NBUF" and x: "b_valid x" "b_dev x = ROOTDEV" "b_sector x < disksize s"
    and u: "\<And>i. at_sec s i (b_sector x) \<Longrightarrow> i = b"
    and c: "\<not> b_dirty x \<Longrightarrow> \<not> b_busy x \<Longrightarrow> b_data x = disk s (b_sector x)"
  shows "bio_inv (s\<lparr>bufs := (bufs s)(b := x)\<rparr>)"
proof -
  let ?B = "(bufs s)(b := x)"
  have u2: "i = j" if *: "i < NBUF" "j < NBUF" "b_dev (?B i) = b_dev (?B j)"
      "b_sector (?B i) = b_sector (?B j)" "b_dev (?B i) \<noteq> 4294967295" for i j
  proof (cases "i = b")
    case True
    show ?thesis
    proof (rule ccontr)
      assume "i \<noteq> j"
      with True * x have "at_sec s j (b_sector x)" by (simp add: at_sec_def)
      from u [OF this] True \<open>i \<noteq> j\<close> show False by simp
    qed
  next
    case False
    show ?thesis
    proof (cases "j = b")
      case True
      with False * x have "at_sec s i (b_sector x)" by (simp add: at_sec_def)
      from u [OF this] False show ?thesis by simp
    next
      case False
      with \<open>i \<noteq> b\<close> * show ?thesis by (intro bio_invD(3) [OF inv, of i j]) simp_all
    qed
  qed
  have 4: "b_dev (?B i) = ROOTDEV \<and> b_sector (?B i) < disksize s" if "i < NBUF" "b_valid (?B i)" for i
    using that bio_invD(4) [OF inv, of i] x by (cases "i = b") simp_all
  have 5: "b_valid (?B i)" if "i < NBUF" "b_busy (?B i) \<or> b_dirty (?B i)" for i
    using that bio_invD(5) [OF inv, of i] x by (cases "i = b") simp_all
  have 6: "b_data (?B i) = disk s (b_sector (?B i))"
    if "i < NBUF" "b_valid (?B i)" "\<not> b_dirty (?B i)" "\<not> b_busy (?B i)" for i
    using that bio_invD(6) [OF inv, of i] c by (cases "i = b") simp_all
  have "\<forall>i<NBUF. \<forall>j<NBUF. b_dev (?B i) = b_dev (?B j) \<and> b_sector (?B i) = b_sector (?B j)
      \<and> b_dev (?B i) \<noteq> 4294967295 \<longrightarrow> i = j"
    using u2 by blast
  then show ?thesis
    unfolding bio_inv_def using bio_invD(1,2) [OF inv] 4 5 6 by (simp del: fun_upd_apply)
qed

lemma slot_new:
  assumes inv: "bio_inv s" and sl: "slot s sec b" and i: "at_sec s i sec" shows "i = b"
  using assms at_sec_unique [OF inv i, of b] by (auto simp: slot_def)

lemma bio_inv_filled:
  assumes inv: "bio_inv s" and sl: "slot s sec b" and sec: "sec < disksize s"
  shows "bio_inv (s\<lparr>bufs := (bufs s)(b := filled s sec)\<rparr>)"
  using sl sec slot_new [OF inv sl] by (intro bio_inv_upd [OF inv]) (auto simp: slot_def)

lemma bread_post_filled:
  assumes inv: "bio_inv s" and sl: "slot s sec b" and sec: "sec < disksize s"
  shows "bread_post s sec b (s\<lparr>bufs := (bufs s)(b := filled s sec)\<rparr>)" (is "bread_post s sec b ?t")
proof -
  have b: "b < NBUF" "\<not> b_busy (bufs s b)" using sl by (auto simp: slot_def)
  note inv' = bio_inv_filled [OF assms]
  have old: "sec' = sec \<or> \<not> b_dirty (bufs s b) \<and> (b_valid (bufs s b) \<longrightarrow> b_data (bufs s b) = disk s sec')"
    if "at_sec s b sec'" for sec'
    using that sl inv by (auto simp: slot_def at_sec_def bio_inv_def)
  note new = slot_new [OF inv sl]
  have "view ?t sec' = view s sec'" for sec'
  proof (cases "sec' = sec")
    case True
    with inv' b show ?thesis
      using view_at [OF inv', of b sec] by (simp add: at_sec_def)
  next
    case False
    show ?thesis
    proof (rule view_eq [OF inv'])
      fix b' assume "at_sec ?t b' sec'" "b_valid (bufs ?t b')"
      with False inv show "b_data (bufs ?t b') = view s sec'"
        by (auto simp: at_sec_upd view_at split: if_splits)
    next
      assume *: "\<And>b'. at_sec ?t b' sec' \<Longrightarrow> \<not> b_valid (bufs ?t b')"
      have "view s sec' = disk s sec'"
      proof (rule view_eq [OF inv])
        fix b' assume "at_sec s b' sec'" "b_valid (bufs s b')"
        then show "b_data (bufs s b') = disk s sec'"
          using * [of b'] old [of sec'] False by (cases "b' = b") (auto simp: at_sec_upd)
      qed simp
      then show "disk ?t sec' = view s sec'" by simp
    qed
  qed
  moreover have "dirty_secs ?t = dirty_secs s"
  proof -
    have "sec' \<in> dirty_secs ?t \<longleftrightarrow> sec' \<in> dirty_secs s" for sec'
    proof (cases "sec' = sec")
      case True
      with new b(1) show ?thesis by (auto simp: dirty_secs_upd)
    next
      case False
      with old [of sec'] b(1) show ?thesis
        by (simp add: dirty_secs_upd dirty_secs_split [of sec' s b]) blast
    qed
    then show ?thesis by blast
  qed
  moreover have "busy_secs ?t = insert sec (busy_secs s)"
    using b by (auto simp: busy_secs_def at_sec_upd split: if_splits)
  moreover have "owns ?t b' sec'" if "owns s b' sec'" for b' sec'
    using that b by (auto simp: owns_def at_sec_upd)
  ultimately show ?thesis
    using inv' b by (auto simp: bread_post_def owns_def at_sec_upd)
qed

lemma wp_bread:
  assumes "bio_inv s" "LK_bcache \<notin> held s" "sec < disksize s" "sec \<notin> busy_secs s"
    and "sec \<in> dirty_secs s \<or> card (dirty_secs s \<union> busy_secs s) < NBUF"
    and Q: "\<And>b t. bread_post s sec b t \<Longrightarrow> Q b t"
  shows "wp (bread ROOTDEV sec) Q s"
proof (cases "\<exists>b. at_sec s b sec")
  case True
  then obtain b where b: "at_sec s b sec" ..
  then have "slot s sec b" using assms(4) by (auto simp: slot_def at_sec_def dest: not_busy_at)
  with b assms show ?thesis by (simp add: wp_bread_cached bread_post_filled)
next
  case False
  then have "sec \<notin> dirty_secs s" by (auto simp: dirty_secs_def)
  with False assms wp_bread_fresh [of s sec] show ?thesis
    by (auto intro!: Q bread_post_filled)
qed

text \<open>Changing a buffer the caller owns.\<close>

definition put_buf :: "nat \<Rightarrow> buf \<Rightarrow> 'z bio_scheme \<Rightarrow> 'z bio_scheme" where
  "put_buf b x s = s\<lparr>bufs := (bufs s)(b := x)\<rparr>"

lemma owns_simps:
  "owns s b sec \<Longrightarrow> b < NBUF" "owns s b sec \<Longrightarrow> b_dev (bufs s b) = ROOTDEV"
  "owns s b sec \<Longrightarrow> b_sector (bufs s b) = sec" "owns s b sec \<Longrightarrow> b_busy (bufs s b)"
  "owns s b sec \<Longrightarrow> b_valid (bufs s b)" "owns s b sec \<Longrightarrow> at_sec s b sec"
  by (auto simp: owns_def at_sec_def)

lemma owns_data: "bio_inv s \<Longrightarrow> owns s b sec \<Longrightarrow> b_data (bufs s b) = view s sec"
  using view_at [of s b sec] by (simp add: owns_simps)

lemma owns_range: "bio_inv s \<Longrightarrow> owns s b sec \<Longrightarrow> sec < disksize s"
  using bio_invD(4) [of s b] by (auto simp: owns_def at_sec_def)

lemma owns_busy: "owns s b sec \<Longrightarrow> sec \<in> busy_secs s"
  by (auto simp: owns_def busy_secs_def)

lemma put_buf_owned:
  assumes inv: "bio_inv s" and o: "owns s b sec" and x: "b_valid x" "b_dev x = ROOTDEV" "b_sector x = sec"
    and c: "\<not> b_dirty x \<Longrightarrow> \<not> b_busy x \<Longrightarrow> b_data x = disk s sec"
  shows "bio_inv (put_buf b x s)" and "view (put_buf b x s) = (view s)(sec := b_data x)"
    and "dirty_secs (put_buf b x s) = (if b_dirty x then insert sec (dirty_secs s) else dirty_secs s - {sec})"
    and "busy_secs (put_buf b x s) = (if b_busy x then busy_secs s else busy_secs s - {sec})"
    and "sec' \<noteq> sec \<or> b_busy x \<Longrightarrow> owns s b' sec' \<Longrightarrow> owns (put_buf b x s) b' sec'"
proof -
  have b: "b < NBUF" and at: "at_sec s b sec" and sec: "sec < disksize s"
    using owns_simps [OF o] owns_range [OF inv o] by auto
  have u: "i = b" if "at_sec s i sec" for i
    using at_sec_unique [OF inv that at] .
  show inv': "bio_inv (put_buf b x s)"
    unfolding put_buf_def using inv b x sec u c by (intro bio_inv_upd) simp_all
  have nb: "bufs (put_buf b x s) i = (if i = b then x else bufs s i)" "disk (put_buf b x s) = disk s" for i
    by (simp_all add: put_buf_def)
  have at': "at_sec (put_buf b x s) b' sec' = at_sec s b' sec'" for b' sec'
    using at x by (auto simp: put_buf_def at_sec_def)
  show "view (put_buf b x s) = (view s)(sec := b_data x)"
  proof
    fix sec'
    show "view (put_buf b x s) sec' = ((view s)(sec := b_data x)) sec'"
    proof (cases "sec' = sec")
      case True
      have "view (put_buf b x s) sec = b_data x"
        using view_at [OF inv', of b sec] at x by (simp add: at' nb)
      with True show ?thesis by simp
    next
      case False
      then have "\<not> at_sec s b sec'" using at by (auto simp: at_sec_def)
      then have "at_sec s b' sec' \<Longrightarrow> bufs (put_buf b x s) b' = bufs s b'" for b'
        by (auto simp: nb)
      moreover have "view s sec' = disk s sec'" if "\<And>b'. at_sec s b' sec' \<Longrightarrow> \<not> b_valid (bufs s b')"
        using that by (auto intro!: view_eq [OF inv])
      ultimately have "view (put_buf b x s) sec' = view s sec'"
        by (intro view_eq [OF inv']) (auto simp: at' nb(2) view_at [OF inv])
      with False show ?thesis by simp
    qed
  qed
  have only: "at_sec s b sec' \<longleftrightarrow> sec' = sec" for sec'
    using at by (auto simp: at_sec_def)
  have eq: "sec' \<in> dirty_secs (put_buf b x s) \<longleftrightarrow> (if sec' = sec then b_dirty x else sec' \<in> dirty_secs s)" for sec'
    using u b x only unfolding put_buf_def dirty_secs_split [of sec' s b]
    by (cases "sec' = sec") (auto simp: dirty_secs_upd)
  show "dirty_secs (put_buf b x s) = (if b_dirty x then insert sec (dirty_secs s) else dirty_secs s - {sec})"
    by (rule set_eqI) (simp add: eq)
  have eq': "sec' \<in> busy_secs (put_buf b x s) \<longleftrightarrow> (if sec' = sec then b_busy x else sec' \<in> busy_secs s)" for sec'
    using u b x only unfolding put_buf_def busy_secs_split [of sec' s b]
    by (cases "sec' = sec") (auto simp: busy_secs_upd)
  show "busy_secs (put_buf b x s) = (if b_busy x then busy_secs s else busy_secs s - {sec})"
    using owns_busy [OF o] by (intro set_eqI) (simp add: eq')
  show "sec' \<noteq> sec \<or> b_busy x \<Longrightarrow> owns s b' sec' \<Longrightarrow> owns (put_buf b x s) b' sec'"
    using x at by (auto simp: owns_def at' nb at_sec_def)
qed

definition keeps_owned :: "'z bio_scheme \<Rightarrow> 'z bio_scheme \<Rightarrow> nat set \<Rightarrow> bool" where
  "keeps_owned s t D \<longleftrightarrow> (\<forall>b sec. owns s b sec \<and> sec \<notin> D \<longrightarrow> owns t b sec)"

definition set_data_post :: "'z bio_scheme \<Rightarrow> nat \<Rightarrow> (bytes \<Rightarrow> bytes) \<Rightarrow> 'z bio_scheme \<Rightarrow> bool" where
  "set_data_post s sec f t \<longleftrightarrow> bio_inv t \<and> bio_frame s t \<and> view t = (view s)(sec := f (view s sec)) \<and>
     disk t = disk s \<and> disk_writes t = disk_writes s \<and> dirty_secs t = dirty_secs s \<and>
     busy_secs t = busy_secs s \<and> keeps_owned s t {}"

definition mark_dirty_post :: "'z bio_scheme \<Rightarrow> nat \<Rightarrow> 'z bio_scheme \<Rightarrow> bool" where
  "mark_dirty_post s sec t \<longleftrightarrow> bio_inv t \<and> bio_frame s t \<and> view t = view s \<and> disk t = disk s \<and>
     disk_writes t = disk_writes s \<and> dirty_secs t = insert sec (dirty_secs s) \<and>
     busy_secs t = busy_secs s \<and> keeps_owned s t {}"

definition bwrite_post :: "'z bio_scheme \<Rightarrow> nat \<Rightarrow> 'z bio_scheme \<Rightarrow> bool" where
  "bwrite_post s sec t \<longleftrightarrow> bio_inv t \<and> bio_frame s t \<and> view t = view s \<and>
     disk t = (disk s)(sec := view s sec) \<and> disk_writes t = disk_writes s @ [(sec, view s sec)] \<and>
     dirty_secs t = dirty_secs s - {sec} \<and> busy_secs t = busy_secs s \<and> keeps_owned s t {}"

definition brelse_post :: "'z bio_scheme \<Rightarrow> nat \<Rightarrow> 'z bio_scheme \<Rightarrow> bool" where
  "brelse_post s sec t \<longleftrightarrow> bio_inv t \<and> bio_frame s t \<and> view t = view s \<and> disk t = disk s \<and>
     disk_writes t = disk_writes s \<and> dirty_secs t = dirty_secs s \<and> busy_secs t = busy_secs s - {sec} \<and>
     keeps_owned s t {sec}"

lemma wp_set_data:
  assumes inv: "bio_inv s" and o: "owns s b sec" and Q: "\<And>t. set_data_post s sec f t \<Longrightarrow> Q () t"
  shows "wp (set_data b f) Q s"
proof -
  let ?x = "(bufs s b)\<lparr>b_data := f (b_data (bufs s b))\<rparr>"
  have "set_data_post s sec f (put_buf b ?x s)"
    using put_buf_owned [OF inv o, of ?x] owns_simps [OF o] owns_data [OF inv o] dirty_at [OF inv, of b sec]
    by (auto simp: set_data_post_def keeps_owned_def) (auto simp: put_buf_def)
  then show ?thesis using Q by (simp add: set_data_def put_buf_def)
qed

lemma wp_mark_dirty:
  assumes inv: "bio_inv s" and o: "owns s b sec" and Q: "\<And>t. mark_dirty_post s sec t \<Longrightarrow> Q () t"
  shows "wp (set_buf b (\<lambda>x. x\<lparr>b_dirty := True\<rparr>)) Q s"
proof -
  let ?x = "(bufs s b)\<lparr>b_dirty := True\<rparr>"
  have "mark_dirty_post s sec (put_buf b ?x s)"
    using put_buf_owned [OF inv o, of ?x] owns_simps [OF o] owns_data [OF inv o]
    by (auto simp: mark_dirty_post_def keeps_owned_def) (auto simp: put_buf_def)
  then show ?thesis using Q by (simp add: put_buf_def)
qed

text \<open>The disk may change under a block that is in use.\<close>

lemma disk_upd_owned:
  assumes inv: "bio_inv s" and o: "owns s b sec"
    and t: "t = s\<lparr>disk := (disk s)(sec := d), disk_writes := w\<rparr>"
  shows "bio_inv t" and "view t = view s" and "owns t b' sec' = owns s b' sec'"
    and "dirty_secs t = dirty_secs s" and "busy_secs t = busy_secs s"
proof -
  have at: "at_sec s b sec" and v: "b_valid (bufs s b)" and busy: "b_busy (bufs s b)"
    using owns_simps [OF o] by auto
  have at': "at_sec t b' sec' = at_sec s b' sec'" for b' sec' by (simp add: t at_sec_def)
  have ne: "b_sector (bufs s i) \<noteq> sec" if "i < NBUF" "b_valid (bufs s i)" "\<not> b_busy (bufs s i)" for i
    using that at_sec_unique [OF inv at, of i] bio_invD(4) [OF inv, of i] busy by (auto simp: at_sec_def)
  show "bio_inv t"
    unfolding bio_inv_def t using bio_invD [OF inv] ne by simp
  have "find_cached ROOTDEV sec (bufs s) (lru s) = Some b" by (rule find_cached_at [OF inv at])
  then show "view t = view s"
    using v by (auto simp: t view_def fun_eq_iff split: option.splits)
  show "owns t b' sec' = owns s b' sec'" "dirty_secs t = dirty_secs s" "busy_secs t = busy_secs s"
    by (auto simp: owns_def at' dirty_secs_def busy_secs_def) (auto simp: t)
qed

lemma wp_bwrite:
  assumes inv: "bio_inv s" and o: "owns s b sec" and Q: "\<And>t. bwrite_post s sec t \<Longrightarrow> Q () t"
  shows "wp (bwrite b) Q s"
proof -
  define x where "x = (bufs s b)\<lparr>b_dirty := False, b_valid := True\<rparr>"
  define u where "u = s\<lparr>disk := (disk s)(sec := view s sec), disk_writes := disk_writes s @ [(sec, view s sec)]\<rparr>"
  note d = disk_upd_owned [OF inv o u_def]
  from o have o': "owns u b sec" by (simp only: d(3))
  have x: "b_valid x" "b_dev x = ROOTDEV" "b_sector x = sec" "b_busy x" "\<not> b_dirty x" "b_data x = view s sec"
    using owns_simps [OF o] owns_data [OF inv o] by (simp_all add: x_def)
  have c: "b_data x = disk u sec" if "\<not> b_busy x" using that x by simp
  note p = put_buf_owned [OF d(1) o' x(1-3) c]
  have "keeps_owned s (put_buf b x u) {}"
    using p(5) x(4) by (simp add: keeps_owned_def d(3))
  moreover have "bio_frame s (put_buf b x u)" "disk (put_buf b x u) = (disk s)(sec := view s sec)"
    "disk_writes (put_buf b x u) = disk_writes s @ [(sec, view s sec)]"
    by (simp_all add: put_buf_def u_def)
  ultimately have "bwrite_post s sec (put_buf b x u)"
    using p(1-4) x by (simp add: bwrite_post_def d)
  then show ?thesis
    using Q owns_simps [OF o] owns_range [OF inv o] owns_data [OF inv o]
    by (simp add: bwrite_def wp_iderw_write put_buf_def u_def x_def)
qed

text \<open>Fields of the state that the view does not depend on, and the order of the list.\<close>

lemma reorder:
  assumes inv: "bio_inv s" and l: "distinct l" "set l = {..<NBUF}"
    and f: "bufs t = bufs s" "disk t = disk s" "disksize t = disksize s" "lru t = l"
  shows "bio_inv t" and "view t = view s" and "owns t b' sec' = owns s b' sec'"
    and "dirty_secs t = dirty_secs s" and "busy_secs t = busy_secs s"
proof -
  have at: "at_sec t b sec = at_sec s b sec" for b sec by (simp add: at_sec_def f)
  show inv': "bio_inv t"
    using bio_invD(3-6) [OF inv] l unfolding bio_inv_def f by simp
  show "view t = view s"
  proof
    fix sec
    have "view s sec = disk s sec" if "\<And>b'. at_sec s b' sec \<Longrightarrow> \<not> b_valid (bufs s b')"
      using that by (auto intro!: view_eq [OF inv])
    then show "view t sec = view s sec"
      by (intro view_eq [OF inv']) (auto simp: at f view_at [OF inv])
  qed
  show "owns t b' sec' = owns s b' sec'" "dirty_secs t = dirty_secs s" "busy_secs t = busy_secs s"
    by (auto simp: owns_def at dirty_secs_def busy_secs_def f)
qed

lemma wp_brelse:
  assumes inv: "bio_inv s" and o: "owns s b sec" and lk: "LK_bcache \<notin> held s" "LK_ptable \<notin> held s"
    and c: "sec \<in> dirty_secs s \<or> view s sec = disk s sec"
    and Q: "\<And>t. brelse_post s sec t \<Longrightarrow> Q () t"
  shows "wp (brelse b) Q s"
proof -
  define x where "x = (bufs s b)\<lparr>b_busy := False\<rparr>"
  define l where "l = b # remove1 b (lru s)"
  define u where "u = s\<lparr>lru := l, bufs := (bufs s)(b := x), ptable := wakeup_tab (Ch_buf b) (ptable s)\<rparr>"
  have x: "b_valid x" "b_dev x = ROOTDEV" "b_sector x = sec" "\<not> b_busy x" "b_data x = view s sec"
    "b_dirty x \<longleftrightarrow> sec \<in> dirty_secs s"
    using owns_simps [OF o] owns_data [OF inv o] dirty_at [OF inv, of b sec] by (simp_all add: x_def)
  have c': "b_data x = disk s sec" if "\<not> b_dirty x" using that x c by simp
  note p = put_buf_owned [OF inv o x(1-3) c']
  have l: "distinct l" "set l = {..<NBUF}"
    using bio_invD(1,2) [OF inv] owns_simps(1) [OF o] by (auto simp: l_def)
  have r: "bio_inv u" "view u = view (put_buf b x s)" "owns u b' sec' = owns (put_buf b x s) b' sec'"
    "dirty_secs u = dirty_secs (put_buf b x s)" "busy_secs u = busy_secs (put_buf b x s)" for b' sec'
    using reorder [OF p(1) l, of u] by (simp_all add: u_def put_buf_def)
  have "keeps_owned s u {sec}"
    using p(5) by (simp add: keeps_owned_def r(3))
  moreover have "bio_frame s u" "disk u = disk s" "disk_writes u = disk_writes s"
    by (simp_all add: put_buf_def u_def bio_frame_def bio_erase_def)
  ultimately have "brelse_post s sec u"
    using r p(2-4) x by (simp add: brelse_post_def insert_absorb)
  then show ?thesis
    using Q lk owns_simps [OF o]
    by (simp add: brelse_def put_buf_def insert_absorb u_def x_def l_def)
qed

text \<open>Reading a block: \<open>bread\<close>, use of the data, \<open>brelse\<close>.\<close>

definition ro_post :: "'z bio_scheme \<Rightarrow> 'z bio_scheme \<Rightarrow> bool" where
  "ro_post s t \<longleftrightarrow> bio_inv t \<and> bio_frame s t \<and> view t = view s \<and> disk t = disk s \<and>
     disk_writes t = disk_writes s \<and> dirty_secs t = dirty_secs s \<and> busy_secs t = busy_secs s \<and>
     keeps_owned s t {}"

definition can_read :: "'z bio_scheme \<Rightarrow> nat \<Rightarrow> bool" where
  "can_read s sec \<longleftrightarrow> bio_inv s \<and> LK_bcache \<notin> held s \<and> LK_ptable \<notin> held s \<and> sec < disksize s \<and>
     sec \<notin> busy_secs s \<and> (sec \<in> dirty_secs s \<or> card (dirty_secs s \<union> busy_secs s) < NBUF)"

lemma ro_post_refl: "bio_inv s \<Longrightarrow> ro_post s s"
  by (simp add: ro_post_def keeps_owned_def)

lemma ro_post_trans: "ro_post s t \<Longrightarrow> ro_post t u \<Longrightarrow> ro_post s u"
  by (auto simp: ro_post_def keeps_owned_def intro: bio_frame_trans)

lemma ro_post_can_read: "ro_post s t \<Longrightarrow> can_read s sec \<Longrightarrow> can_read t sec"
  using bio_frame_fields [of s t] by (auto simp: ro_post_def can_read_def)

lemma owned_busy: "keeps_owned s t D \<Longrightarrow> owns s b sec \<Longrightarrow> sec \<notin> D \<Longrightarrow> owns t b sec"
  by (simp add: keeps_owned_def)

lemma wp_read_block:
  assumes c: "can_read s sec" and m: "\<And>t. ro_post s t \<Longrightarrow> wp (m (view s sec)) Q t"
  shows "wp (kbind (bread ROOTDEV sec) (\<lambda>b. kbind (buf_data b) (\<lambda>d. kthen (brelse b) (m d)))) Q s"
proof -
  have "wp (kbind (buf_data b) (\<lambda>d. kthen (brelse b) (m d))) Q t" if p: "bread_post s sec b t" for b t
  proof -
    from p have t: "bio_inv t" "owns t b sec" "bio_frame s t" "view t = view s" "disk t = disk s"
      "disk_writes t = disk_writes s" "dirty_secs t = dirty_secs s" "busy_secs t = insert sec (busy_secs s)"
      by (simp_all add: bread_post_def)
    from c have s: "bio_inv s" "LK_bcache \<notin> held s" "LK_ptable \<notin> held s" "sec \<notin> busy_secs s"
      by (simp_all add: can_read_def)
    have d: "b_data (bufs t b) = view s sec" using owns_data [OF t(1,2)] t(4) by simp
    have "wp (brelse b) (\<lambda>_. wp (m (view s sec)) Q) t"
    proof (rule wp_brelse [OF t(1,2)])
      show "LK_bcache \<notin> held t" "LK_ptable \<notin> held t" using s bio_frame_fields(1) [OF t(3)] by simp_all
      show "sec \<in> dirty_secs t \<or> view t sec = disk t sec"
        using view_clean [OF s(1), of sec] s(4) t by auto
      fix u assume u: "brelse_post t sec u"
      have "owns u b' sec'" if "owns s b' sec'" for b' sec'
      proof -
        have "sec' \<noteq> sec" using owns_busy [OF that] s(4) by auto
        moreover have "owns t b' sec'" using p that by (simp add: bread_post_def)
        ultimately show ?thesis using u by (simp add: brelse_post_def keeps_owned_def)
      qed
      then have "keeps_owned s u {}" by (simp add: keeps_owned_def)
      with u t s(4) have "ro_post s u"
        by (auto simp: brelse_post_def ro_post_def intro: bio_frame_trans)
      then show "wp (m (view s sec)) Q u" by (rule m)
    qed
    with d show ?thesis by (simp add: buf_data_def)
  qed
  with c show ?thesis by (auto simp: can_read_def intro!: wp_bread)
qed

text \<open>The cache does not depend on the other fields of the state.\<close>

lemma cache_cong:
  assumes e: "bufs t = bufs s" "lru t = lru s" "disk t = disk s" "disksize t = disksize s"
  shows "at_sec t = at_sec s" and "bio_inv t = bio_inv s" and "view t = view s"
    and "dirty_secs t = dirty_secs s" and "busy_secs t = busy_secs s" and "owns t = owns s"
proof -
  show at: "at_sec t = at_sec s" by (simp add: at_sec_def fun_eq_iff e)
  show "bio_inv t = bio_inv s" by (simp only: bio_inv_def e)
  show "view t = view s" by (rule ext) (simp only: view_def e)
  show "dirty_secs t = dirty_secs s" by (simp only: dirty_secs_def at e)
  show "busy_secs t = busy_secs s" by (simp only: busy_secs_def at e)
  show "owns t = owns s" by (simp add: owns_def at e fun_eq_iff)
qed

lemma can_read_cong:
  assumes "bufs t = bufs s" "lru t = lru s" "disk t = disk s" "disksize t = disksize s" "held t = held s"
  shows "can_read t = can_read s"
  using cache_cong [OF assms(1-4)] assms(4,5) by (simp add: can_read_def fun_eq_iff)

lemmas cache_held [simp] = cache_cong [of "s\<lparr>held := h\<rparr>" s, simplified] for s h
lemmas cache_ptable [simp] = cache_cong [of "s\<lparr>ptable := pt\<rparr>" s, simplified] for s pt

text \<open>Rewriting a block on the disk: \<open>bread\<close>, a change of the data, \<open>bwrite\<close>, \<open>brelse\<close>.\<close>

definition wr_post :: "'z bio_scheme \<Rightarrow> nat \<Rightarrow> bytes \<Rightarrow> 'z bio_scheme \<Rightarrow> bool" where
  "wr_post s sec d t \<longleftrightarrow> bio_inv t \<and> bio_frame s t \<and> view t = (view s)(sec := d) \<and>
     disk t = (disk s)(sec := d) \<and> disk_writes t = disk_writes s @ [(sec, d)] \<and>
     dirty_secs t = dirty_secs s - {sec} \<and> busy_secs t = busy_secs s \<and> keeps_owned s t {}"

lemma set_data_twice:
  "kthen (set_data b f) (kthen (set_data b g) m) = kthen (set_data b (\<lambda>d. g (f d))) m"
  by (auto simp: set_data_def set_buf_def kern_defs fun_eq_iff)

lemma wp_update_release:
  assumes inv: "bio_inv t" and o: "owns t b sec" and lk: "LK_bcache \<notin> held t" "LK_ptable \<notin> held t"
    and m: "\<And>u. bio_inv u \<Longrightarrow> bio_frame t u \<Longrightarrow> view u = (view t)(sec := f (view t sec)) \<Longrightarrow>
      disk u = (disk t)(sec := f (view t sec)) \<Longrightarrow> disk_writes u = disk_writes t @ [(sec, f (view t sec))] \<Longrightarrow>
      dirty_secs u = dirty_secs t - {sec} \<Longrightarrow> busy_secs u = busy_secs t - {sec} \<Longrightarrow> keeps_owned t u {sec} \<Longrightarrow>
      wp m Q u"
  shows "wp (kthen (set_data b f) (kthen (bwrite b) (kthen (brelse b) m))) Q t"
proof -
  have "wp (set_data b f) (\<lambda>_. wp (bwrite b) (\<lambda>_. wp (brelse b) (\<lambda>_. wp m Q))) t"
  proof (rule wp_set_data [OF inv o], rule wp_bwrite)
    fix u assume u: "set_data_post t sec f u"
    then show "bio_inv u" "owns u b sec" using o by (auto simp: set_data_post_def keeps_owned_def)
    fix v assume v: "bwrite_post u sec v"
    show "wp (brelse b) (\<lambda>_. wp m Q) v"
    proof (rule wp_brelse)
      show "bio_inv v" "owns v b sec" using u v o
        by (auto simp: set_data_post_def bwrite_post_def keeps_owned_def)
      show "LK_bcache \<notin> held v" "LK_ptable \<notin> held v"
        using u v lk bio_frame_fields(1) [of t u] bio_frame_fields(1) [of u v]
        by (auto simp: set_data_post_def bwrite_post_def)
      show "sec \<in> dirty_secs v \<or> view v sec = disk v sec"
        using v by (simp add: bwrite_post_def)
      fix w assume w: "brelse_post v sec w"
      show "wp m Q w"
        by (rule m; use u v w in \<open>simp add: set_data_post_def bwrite_post_def brelse_post_def
              keeps_owned_def bio_frame_def\<close>)
    qed
  qed
  then show ?thesis by simp
qed

lemma wp_write_block:
  assumes c: "can_read s sec" and m: "\<And>t. wr_post s sec (f (view s sec)) t \<Longrightarrow> wp m Q t"
  shows "wp (kbind (bread ROOTDEV sec) (\<lambda>b. kthen (set_data b f) (kthen (bwrite b) (kthen (brelse b) m)))) Q s"
proof -
  have "wp (kthen (set_data b f) (kthen (bwrite b) (kthen (brelse b) m))) Q t"
    if p: "bread_post s sec b t" for b t
  proof (rule wp_update_release)
    show "bio_inv t" "owns t b sec" using p by (simp_all add: bread_post_def)
    show "LK_bcache \<notin> held t" "LK_ptable \<notin> held t"
      using p c bio_frame_fields(1) [of s t] by (auto simp: bread_post_def can_read_def)
    fix u assume u: "bio_inv u" "bio_frame t u" "view u = (view t)(sec := f (view t sec))"
      "disk u = (disk t)(sec := f (view t sec))" "disk_writes u = disk_writes t @ [(sec, f (view t sec))]"
      "dirty_secs u = dirty_secs t - {sec}" "busy_secs u = busy_secs t - {sec}" "keeps_owned t u {sec}"
    have "sec' \<noteq> sec" if "owns s b' sec'" for b' sec'
      using owns_busy [OF that] c by (auto simp: can_read_def)
    then have "keeps_owned s u {}"
      using p u(8) by (simp add: bread_post_def keeps_owned_def)
    then have "wr_post s sec (f (view s sec)) u"
      using u p c by (auto simp: wr_post_def bread_post_def can_read_def bio_frame_def)
    then show "wp m Q u" by (rule m)
  qed
  with c show ?thesis by (auto simp: can_read_def intro!: wp_bread)
qed

section \<open>Boot\<close>

text \<open>The buffers are zeroed memory when \<open>binit\<close> runs.\<close>

definition zero_bytes :: bytes where "zero_bytes = (\<lambda>_. 0)"

definition zero_buf :: buf where
  "zero_buf = \<lparr>b_busy = False, b_valid = False, b_dirty = False, b_dev = 0, b_sector = 0, b_data = zero_bytes\<rparr>"

definition unassigned :: "nat list \<Rightarrow> (nat \<Rightarrow> buf) \<Rightarrow> nat \<Rightarrow> buf" where
  "unassigned bs B = (\<lambda>b. if b \<in> set bs then (B b)\<lparr>b_dev := 4294967295\<rparr> else B b)"

lemma unassigned_Cons: "unassigned bs (B(b := (B b)\<lparr>b_dev := 4294967295\<rparr>)) = unassigned (b # bs) B"
  by (auto simp: unassigned_def fun_eq_iff)

lemma wp_binit_from:
  "wp (binit_from bs) Q s = Q () (s\<lparr>bufs := unassigned bs (bufs s), lru := rev bs @ lru s\<rparr>)"
  by (induction bs arbitrary: s) (simp_all add: unassigned_Cons, simp add: unassigned_def)

definition binit_post :: "'z bio_scheme \<Rightarrow> 'z bio_scheme \<Rightarrow> bool" where
  "binit_post s t \<longleftrightarrow> bio_inv t \<and> bio_frame s t \<and> view t = disk s \<and> disk t = disk s \<and>
     disk_writes t = disk_writes s \<and> dirty_secs t = {} \<and> busy_secs t = {}"

lemma wp_binit:
  assumes z: "\<And>b. b < NBUF \<Longrightarrow> bufs s b = zero_buf" and Q: "\<And>t. binit_post s t \<Longrightarrow> Q () t"
  shows "wp binit Q s"
proof -
  define t where "t = s\<lparr>bufs := unassigned [0..<NBUF] (bufs s), lru := rev [0..<NBUF]\<rparr>"
  have na: "\<not> at_sec t b sec" for b sec by (auto simp: t_def at_sec_def unassigned_def ROOTDEV_def)
  have inv: "bio_inv t"
    unfolding bio_inv_def t_def using z by (auto simp: zero_buf_def unassigned_def)
  have "binit_post s t"
    using inv view_absent [OF inv na] na
    by (auto simp: binit_post_def dirty_secs_def busy_secs_def fun_eq_iff) (auto simp: t_def)
  then show ?thesis using Q by (simp add: binit_def wp_binit_from t_def)
qed

section \<open>Properties\<close>

text \<open>C21. \<open>bread\<close> on a block that nobody uses, with a buffer available, returns without panic a
  buffer that is locked for the caller and holds the current contents of the block; it is the only
  buffer of that block, and no block seen through the cache changes.\<close>

theorem bread_returns_current_block:
  assumes "bio_inv s" and "LK_bcache \<notin> held s" and "sec < disksize s" and "sec \<notin> busy_secs s"
    and "sec \<in> dirty_secs s \<or> card (dirty_secs s \<union> busy_secs s) < NBUF"
  shows "\<exists>b t. bread ROOTDEV sec s = Ok b t \<and> bio_inv t \<and> b_busy (bufs t b) \<and> b_valid (bufs t b) \<and>
    b_data (bufs t b) = view s sec \<and> (\<forall>b'. at_sec t b' sec \<longleftrightarrow> b' = b) \<and> view t = view s \<and> disk t = disk s"
proof -
  have "wp (bread ROOTDEV sec) (bread_post s sec) s"
    using assms by (rule wp_bread)
  then obtain b t where ok: "bread ROOTDEV sec s = Ok b t" and p: "bread_post s sec b t"
    by (auto simp: wp_iff)
  from p have "bio_inv t" "owns t b sec" "view t = view s" "disk t = disk s"
    by (auto simp: bread_post_def)
  then show ?thesis
    using ok owns_simps [of t b sec] owns_data [of t b sec] at_sec_unique [of t] by auto
qed

text \<open>The state after \<open>binit\<close> on a disk of eight blocks whose block number is their first byte.\<close>

definition idle_proc :: proc where
  "idle_proc = \<lparr>p_sz = 0, p_pgdir = 0, p_kstack = 0, p_state = UNUSED, p_pid = 0, p_parent = None,
     p_tf = \<lparr>tf_eax = 0, tf_ebx = 0, tf_ecx = 0, tf_edx = 0, tf_esi = 0, tf_edi = 0, tf_ebp = 0, tf_gs = 0,
       tf_fs = 0, tf_es = 0, tf_ds = 0, tf_trapno = 0, tf_err = 0, tf_eip = 0, tf_cs = 0, tf_eflags = 0,
       tf_esp = 0, tf_ss = 0\<rparr>,
     p_chan = None, p_killed = False, p_ofile = (\<lambda>_. None), p_cwd = None, p_name = []\<rparr>"

definition boot_bio :: bio where
  "boot_bio = \<lparr>ptable = (\<lambda>_. idle_proc), curproc = None, initproc = None, nextpid = 1, held = {},
     bufs = (\<lambda>_. zero_buf), lru = [], disk = (\<lambda>n i. if i = 0 then of_nat n else 0), disksize = 8, disk_writes = []\<rparr>"

definition started_bio :: bio where
  "started_bio = (case binit boot_bio of Ok _ t \<Rightarrow> t | _ \<Rightarrow> boot_bio)"

lemma started_bio: "binit_post boot_bio started_bio"
proof -
  have "wp binit (\<lambda>_ t. binit_post boot_bio t) boot_bio"
    by (rule wp_binit) (simp_all add: boot_bio_def)
  then show ?thesis by (auto simp: wp_iff started_bio_def)
qed

theorem bread_returns_current_block_witness:
  "\<exists>b t. bread ROOTDEV 5 started_bio = Ok b t \<and> b_data (bufs t b) 0 = 5"
proof -
  have p: "bio_inv started_bio" "view started_bio = disk boot_bio" "dirty_secs started_bio = {}"
    "busy_secs started_bio = {}" "bio_frame boot_bio started_bio"
    using started_bio by (auto simp: binit_post_def)
  have "held started_bio = {}" "disksize started_bio = 8"
    using bio_frame_fields(1,2) [OF p(5)] by (simp_all add: boot_bio_def)
  then show ?thesis
    using bread_returns_current_block [of started_bio 5] p by (auto simp: NBUF_def boot_bio_def)
qed

end
