(* ===== verification/Bcache_List.thy ===== *)
theory Bcache_List
  imports Bio
begin

text \<open>
  The pointers of the buffer cache (\<open>bio.c\<close>).  The buffers are linked in a circle through \<open>prev\<close> and \<open>next\<close>, with
  \<open>bcache.head\<close> between the least and the most recently used one.  Here \<open>binit\<close>, \<open>bget\<close>, \<open>bread\<close> and \<open>brelse\<close> are
  those of the code, assignment by assignment; theory \<open>Bio\<close> has the list that the pointers represent in their place.

  The locale \<open>recency\<close> is what \<open>bget\<close> and \<open>brelse\<close> need of the structure: an order of the buffers that can be searched
  from both ends and in which a buffer can be moved to the front.  Shown in it is that the order is that of the last
  use.  The linked buffers are an instance of it, and the operations on pointers refine those of theory \<open>Bio\<close>.
\<close>

section \<open>The interface\<close>

lemma remdups_snoc: "remdups (xs @ [b]) = removeAll b (remdups xs) @ [b]"
  by (induction xs) auto

lemma remdups_middle: "b \<notin> set vs \<Longrightarrow> remdups (us @ b # vs) = filter (\<lambda>x. x \<notin> set (b # vs)) (remdups us) @ b # remdups vs"
  by (induction us) auto

lemma find_append: "find P (xs @ ys) = (case find P xs of Some x \<Rightarrow> Some x | None \<Rightarrow> find P ys)"
  by (induction xs) auto

locale recency =
  fixes linked_as :: "'c \<Rightarrow> 'b list \<Rightarrow> bool"
    and to_front :: "'b \<Rightarrow> 'c \<Rightarrow> 'c"
    and from_front :: "'c \<Rightarrow> ('b \<Rightarrow> bool) \<Rightarrow> 'b option option"
    and from_back :: "'c \<Rightarrow> ('b \<Rightarrow> bool) \<Rightarrow> 'b option option"
  assumes order_distinct: "linked_as c l \<Longrightarrow> distinct l"
    and order_front: "linked_as c l \<Longrightarrow> b \<in> set l \<Longrightarrow> linked_as (to_front b c) (b # remove1 b l)"
    and search_front: "linked_as c l \<Longrightarrow> from_front c P = Some (find P l)"
    and search_back: "linked_as c l \<Longrightarrow> from_back c P = Some (find P (rev l))"
begin

text \<open>After a sequence of uses the buffers used stand in front, the last one first, and the others behind as before.\<close>

lemma order_after_uses:
  assumes "linked_as c l" "set bs \<subseteq> set l"
  shows "linked_as (fold to_front bs c) (rev (remdups bs) @ filter (\<lambda>b. b \<notin> set bs) l)"
  using assms(2)
proof (induction bs rule: rev_induct)
  case Nil
  then show ?case using assms(1) by simp
next
  case (snoc b bs)
  let ?o = "rev (remdups bs) @ filter (\<lambda>b. b \<notin> set bs) l"
  have i: "linked_as (fold to_front bs c) ?o" using snoc by simp
  have "set ?o = set l" using snoc.prems by auto
  then have "linked_as (to_front b (fold to_front bs c)) (b # remove1 b ?o)"
    using order_front [OF i, of b] snoc.prems by simp
  moreover have "b # remove1 b ?o = rev (remdups (bs @ [b])) @ filter (\<lambda>x. x \<notin> set (bs @ [b])) l"
    using order_distinct [OF i] by (auto simp: distinct_remove1_removeAll remdups_snoc removeAll_filter_not_eq rev_filter intro!: filter_cong)
  ultimately show ?case by simp
qed

lemma order_all_used: "linked_as c l \<Longrightarrow> set bs = set l \<Longrightarrow> linked_as (fold to_front bs c) (rev (remdups bs))"
  using order_after_uses [of c l bs] by (simp add: filter_False)

text \<open>The search from the back finds the candidate whose last use is the longest ago.\<close>

lemma least_recent:
  assumes "linked_as c l" "set bs = set l" "from_back (fold to_front bs c) P = Some (Some b)"
  shows "P b \<and> (\<exists>us vs. bs = us @ b # vs \<and> b \<notin> set vs \<and> (\<forall>x \<in> set l. P x \<and> x \<noteq> b \<longrightarrow> x \<in> set vs))"
proof -
  note o = order_all_used [OF assms(1,2)]
  have f: "find P (remdups bs) = Some b"
    using search_back [OF o, of P] assms(3) by simp
  then have p: "P b" "b \<in> set bs" by (auto simp: find_Some_iff dest: nth_mem)
  then obtain us vs where v: "bs = us @ b # vs" "b \<notin> set vs" by (metis split_list_last)
  let ?A = "filter (\<lambda>x. x \<notin> set (b # vs)) (remdups us)"
  have r: "remdups bs = ?A @ b # remdups vs"
    using v by (simp add: remdups_middle)
  have "find P ?A = None"
  proof (rule ccontr)
    assume "find P ?A \<noteq> None"
    then obtain y where y: "find P ?A = Some y" by blast
    then have "y \<in> set ?A" by (metis find_Some_iff nth_mem)
    moreover have "y = b" using f r y by (simp add: find_append)
    ultimately show False by simp
  qed
  then have "\<forall>x \<in> set us. x \<notin> set (b # vs) \<longrightarrow> \<not> P x" by (auto simp: find_None_iff)
  moreover have "set l = set us \<union> {b} \<union> set vs" using assms(2) v by auto
  ultimately have "\<forall>x \<in> set l. P x \<and> x \<noteq> b \<longrightarrow> x \<in> set vs" by auto
  with p v show ?thesis by blast
qed

end

section \<open>The linked buffers\<close>

text \<open>\<open>bcache.head\<close> has the index after the buffers.\<close>

definition HEAD :: nat where "HEAD = NBUF"

record links =
  nxt :: "nat \<Rightarrow> nat"
  prv :: "nat \<Rightarrow> nat"

definition take_out :: "nat \<Rightarrow> links \<Rightarrow> links" where
  "take_out b L =
    (let L = L\<lparr>prv := (prv L)(nxt L b := prv L b)\<rparr>
     in L\<lparr>nxt := (nxt L)(prv L b := nxt L b)\<rparr>)"

definition put_first :: "nat \<Rightarrow> links \<Rightarrow> links" where
  "put_first b L =
    (let L = L\<lparr>nxt := (nxt L)(b := nxt L HEAD)\<rparr>;
         L = L\<lparr>prv := (prv L)(b := HEAD)\<rparr>;
         L = L\<lparr>prv := (prv L)(nxt L HEAD := b)\<rparr>
     in L\<lparr>nxt := (nxt L)(HEAD := b)\<rparr>)"

definition move_first :: "nat \<Rightarrow> links \<Rightarrow> links" where
  "move_first b L = put_first b (take_out b L)"

text \<open>A loop that follows one of the pointers from \<open>b\<close> to the head; \<open>None\<close> when it does not end.\<close>

partial_function (option) follow_ptr :: "(nat \<Rightarrow> nat) \<Rightarrow> (nat \<Rightarrow> bool) \<Rightarrow> nat \<Rightarrow> nat option option" where
  "follow_ptr f P b = (if b = HEAD then Some None else if P b then Some (Some b) else follow_ptr f P (f b))"

definition search_next :: "links \<Rightarrow> (nat \<Rightarrow> bool) \<Rightarrow> nat option option" where
  "search_next L P = follow_ptr (nxt L) P (nxt L HEAD)"

definition search_prev :: "links \<Rightarrow> (nat \<Rightarrow> bool) \<Rightarrow> nat option option" where
  "search_prev L P = follow_ptr (prv L) P (prv L HEAD)"

record bcache = bio +
  b_links :: links

definition set_links :: "(links \<Rightarrow> links) \<Rightarrow> (bcache, unit) kern" where
  "set_links f = kmod (\<lambda>s. s\<lparr>b_links := f (b_links s)\<rparr>)"

definition binit_ptr :: "(bcache, unit) kern" where
  "binit_ptr =
    kthen (set_links (\<lambda>L. L\<lparr>prv := (prv L)(HEAD := HEAD), nxt := (nxt L)(HEAD := HEAD)\<rparr>)) (
    foldr (\<lambda>b m.
      kthen (set_buf b (\<lambda>x. x\<lparr>b_dev := 4294967295\<rparr>)) (
      kthen (set_links (put_first b)) m)) [0..<NBUF] (kret ()))"

definition endless :: "(bcache, 'a) kern" where
  "endless = kpanic ''endless loop''"

definition bget_ptr :: "nat \<Rightarrow> nat \<Rightarrow> (bcache, nat) kern" where
  "bget_ptr dev sector =
    kthen (acquire_lk LK_bcache) (
    kbind (kget (\<lambda>s. search_next (b_links s) (\<lambda>b. b_dev (bufs s b) = dev \<and> b_sector (bufs s b) = sector))) (\<lambda>cached.
    case cached of
      None \<Rightarrow> endless
    | Some (Some b) \<Rightarrow>
        kbind (kget (\<lambda>s. bufs s b)) (\<lambda>bp.
        if \<not> b_busy bp then
          kthen (set_buf b (\<lambda>x. x\<lparr>b_busy := True\<rparr>)) (
          kthen (release_lk LK_bcache) (
          kret b))
        else sleep (Ch_buf b) LK_bcache)
    | Some None \<Rightarrow>
        kbind (kget (\<lambda>s. search_prev (b_links s) (\<lambda>b. \<not> b_busy (bufs s b) \<and> \<not> b_dirty (bufs s b)))) (\<lambda>free.
        case free of
          None \<Rightarrow> endless
        | Some (Some b) \<Rightarrow>
            kthen (set_buf b (\<lambda>x. x\<lparr>b_dev := dev, b_sector := sector,
              b_busy := True, b_valid := False, b_dirty := False\<rparr>)) (
            kthen (release_lk LK_bcache) (
            kret b))
        | Some None \<Rightarrow> kpanic ''bget: no buffers'')))"

definition bread_ptr :: "nat \<Rightarrow> nat \<Rightarrow> (bcache, nat) kern" where
  "bread_ptr dev sector =
    kbind (bget_ptr dev sector) (\<lambda>b.
    kbind (kget (\<lambda>s. bufs s b)) (\<lambda>bp.
    kthen (kwhen (\<not> b_valid bp) (iderw b)) (
    kret b)))"

definition brelse_ptr :: "nat \<Rightarrow> (bcache, unit) kern" where
  "brelse_ptr b =
    kbind (kget (\<lambda>s. bufs s b)) (\<lambda>bp.
    if \<not> b_busy bp then kpanic ''brelse''
    else
      kthen (acquire_lk LK_bcache) (
      kthen (set_links (move_first b)) (
      kthen (set_buf b (\<lambda>x. x\<lparr>b_busy := False\<rparr>)) (
      kthen (wakeup (Ch_buf b)) (
      release_lk LK_bcache)))))"

section \<open>The pointers represent a list\<close>

fun chained :: "links \<Rightarrow> nat list \<Rightarrow> bool" where
  "chained L (a # b # r) \<longleftrightarrow> nxt L a = b \<and> prv L b = a \<and> chained L (b # r)"
| "chained L _ \<longleftrightarrow> True"

definition linked_list :: "links \<Rightarrow> nat list \<Rightarrow> bool" where
  "linked_list L l \<longleftrightarrow> chained L (HEAD # l @ [HEAD]) \<and> distinct l \<and> HEAD \<notin> set l"

lemma chained_append: "chained L (us @ x # vs) \<longleftrightarrow> chained L (us @ [x]) \<and> chained L (x # vs)"
  by (induction us rule: induct_list012) auto

lemma chained_cong:
  "(\<And>a. a \<in> set (butlast c) \<Longrightarrow> nxt L' a = nxt L a) \<Longrightarrow> (\<And>a. a \<in> set (tl c) \<Longrightarrow> prv L' a = prv L a) \<Longrightarrow> chained L' c = chained L c"
  by (induction c rule: induct_list012) auto

lemma chained_take_out:
  assumes "chained L (us @ p # b # q # vs)" "distinct (us @ p # b # butlast (q # vs))" "distinct (tl (us @ [p]) @ b # q # vs)"
  shows "chained (take_out b L) (us @ p # q # vs)"
proof -
  have l: "chained L (us @ [p])" "nxt L p = b" "prv L b = p" "nxt L b = q" "prv L q = b" "chained L (q # vs)"
    using assms(1) by (simp_all add: chained_append [of L us p "b # q # vs"])
  let ?L = "L\<lparr>prv := (prv L)(q := p), nxt := (nxt L)(p := q)\<rparr>"
  have t: "take_out b L = ?L" using l(3,4) assms(3) by (auto simp: take_out_def Let_def)
  have "chained ?L (us @ [p])"
    using l(1) assms(2,3) by (subst chained_cong [of _ _ L]) auto
  moreover have "chained ?L (q # vs)"
    using l(6) assms(2,3) by (subst chained_cong [of _ _ L]) auto
  ultimately show ?thesis unfolding t by (simp add: chained_append [of _ us p "q # vs"])
qed

lemma linked_put_first:
  assumes "linked_list L l" "b \<notin> set l" "b \<noteq> HEAD"
  shows "linked_list (put_first b L) (b # l)"
proof -
  obtain q vs where q: "l @ [HEAD] = q # vs" by (cases "l @ [HEAD]") auto
  have d: "distinct (q # vs)" "b \<notin> set (q # vs)" "HEAD \<notin> set (butlast (q # vs))"
    using assms by (auto simp: linked_list_def simp flip: q)
  have l: "nxt L HEAD = q" "prv L q = HEAD" "chained L (q # vs)" using assms(1) q by (auto simp: linked_list_def)
  let ?L = "L\<lparr>nxt := (nxt L)(b := q, HEAD := b), prv := (prv L)(b := HEAD, q := b)\<rparr>"
  have t: "put_first b L = ?L" using assms(3) l(1) by (simp add: put_first_def Let_def)
  have "chained ?L (q # vs)"
    using l(3) d by (subst chained_cong [of _ _ L]) (auto simp del: butlast.simps dest: in_set_butlastD)
  then show ?thesis using assms q d unfolding linked_list_def t by simp
qed

lemma linked_move_first:
  assumes "linked_list L l" "b \<in> set l"
  shows "linked_list (move_first b L) (b # remove1 b l)"
proof -
  obtain xs ys where l: "l = xs @ b # ys" using assms(2) by (meson split_list)
  obtain us p where p: "HEAD # xs = us @ [p]" by (metis rev_exhaust list.distinct(1))
  obtain q vs where q: "ys @ [HEAD] = q # vs" by (cases "ys @ [HEAD]") auto
  have e: "HEAD # l @ [HEAD] = us @ p # b # q # vs" "HEAD # (xs @ ys) @ [HEAD] = us @ p # q # vs"
    using l p q by (metis append.assoc append_Cons append_Nil)+
  have b: "butlast (q # vs) = ys" "tl (us @ [p]) = xs" using p q by (metis butlast_snoc, metis list.sel(3))
  have d: "distinct l" "HEAD \<notin> set l" "b \<noteq> HEAD" using assms by (auto simp: linked_list_def)
  have "chained (take_out b L) (us @ p # q # vs)"
  proof (rule chained_take_out)
    show "chained L (us @ p # b # q # vs)" using assms(1) e by (simp add: linked_list_def)
    show "distinct (us @ p # b # butlast (q # vs))"
      using d l unfolding b by (metis append.assoc append_Cons append_Nil distinct.simps(2) p set_append)
    show "distinct (tl (us @ [p]) @ b # q # vs)" using d l unfolding b q [symmetric] by auto
  qed
  then have "linked_list (take_out b L) (xs @ ys)" using d l e by (simp add: linked_list_def)
  then have "linked_list (put_first b (take_out b L)) (b # xs @ ys)"
    using d l by (intro linked_put_first) auto
  then show ?thesis using d l by (simp add: move_first_def remove1_append)
qed

lemma follow_next: "chained L (a # l @ [HEAD]) \<Longrightarrow> HEAD \<notin> set l \<Longrightarrow> follow_ptr (nxt L) P (nxt L a) = Some (find P l)"
  by (induction l arbitrary: a) (simp_all add: follow_ptr.simps)

lemma follow_prev: "chained L (HEAD # l @ [a]) \<Longrightarrow> HEAD \<notin> set l \<Longrightarrow> follow_ptr (prv L) P (prv L a) = Some (find P (rev l))"
proof (induction l arbitrary: a rule: rev_induct)
  case (snoc b l)
  then have "chained L (HEAD # l @ [b])" "prv L a = b" using chained_append [of L "HEAD # l" b "[a]"] by auto
  with snoc show ?case by (simp add: follow_ptr.simps)
qed (simp add: follow_ptr.simps)

interpretation bufs_order: recency linked_list move_first search_next search_prev
proof unfold_locales
  show "distinct l" if "linked_list c l" for c l using that by (simp add: linked_list_def)
  show "linked_list (move_first b c) (b # remove1 b l)" if "linked_list c l" "b \<in> set l" for c l b
    using that by (rule linked_move_first)
  show "search_next c P = Some (find P l)" if "linked_list c l" for c l P
    using that follow_next [of c HEAD l P] by (simp add: linked_list_def search_next_def)
  show "search_prev c P = Some (find P (rev l))" if "linked_list c l" for c l P
    using that follow_prev [of c l HEAD P] by (simp add: linked_list_def search_prev_def)
qed

section \<open>Refinement\<close>

text \<open>A state with pointers and the state of theory \<open>Bio\<close> that it represents.\<close>

definition ptr_abs :: "nat list \<Rightarrow> bcache \<Rightarrow> bio" where
  "ptr_abs l s = (bio.truncate s)\<lparr>lru := l\<rparr>"

definition ptr_sim :: "bcache \<Rightarrow> bio \<Rightarrow> bool" where
  "ptr_sim s t \<longleftrightarrow> linked_list (b_links s) (lru t) \<and> t = ptr_abs (lru t) s"

fun kres_sim :: "('s \<Rightarrow> 't \<Rightarrow> bool) \<Rightarrow> ('s, 'a) kres \<Rightarrow> ('t, 'a) kres \<Rightarrow> bool" where
  "kres_sim R (Ok x s) (Ok y t) \<longleftrightarrow> x = y \<and> R s t"
| "kres_sim R (Panic e) (Panic e') \<longleftrightarrow> e = e'"
| "kres_sim R (Sleeping s) (Sleeping t) \<longleftrightarrow> R s t"
| "kres_sim R _ _ \<longleftrightarrow> False"

definition refines :: "(bcache, 'a) kern \<Rightarrow> (bio, 'a) kern \<Rightarrow> bool" where
  "refines m m' \<longleftrightarrow> (\<forall>s t. ptr_sim s t \<longrightarrow> kres_sim ptr_sim (m s) (m' t))"

named_theorems refine_rules

lemma refines_bind [refine_rules]:
  assumes "refines m m'" "\<And>x. refines (f x) (f' x)"
  shows "refines (kbind m f) (kbind m' f')"
  unfolding refines_def
proof (intro allI impI)
  fix s t assume "ptr_sim s t"
  then have "kres_sim ptr_sim (m s) (m' t)" using assms(1) by (simp add: refines_def)
  then show "kres_sim ptr_sim (kbind m f s) (kbind m' f' t)"
    using assms(2) by (cases "m s"; cases "m' t") (auto simp: kbind_def refines_def)
qed

lemma refines_then [refine_rules]: "refines m m' \<Longrightarrow> refines n n' \<Longrightarrow> refines (kthen m n) (kthen m' n')"
  by (simp add: kthen_def refines_bind)

lemma refines_get:
  assumes "\<And>s t. ptr_sim s t \<Longrightarrow> refines (f (g s)) (f' (g' t))"
  shows "refines (kbind (kget g) f) (kbind (kget g') f')"
  using assms by (auto simp: refines_def kbind_def kget_def)

lemma refines_ret [refine_rules]: "refines (kret x) (kret x)"
  by (simp add: refines_def kret_def)

lemma refines_panic [refine_rules]: "refines (kpanic e) (kpanic e)"
  by (simp add: refines_def kpanic_def)

lemma refines_if [refine_rules]:
  "(b \<Longrightarrow> refines m m') \<Longrightarrow> (\<not> b \<Longrightarrow> refines n n') \<Longrightarrow> refines (if b then m else n) (if b then m' else n')"
  by simp

lemma refines_option [refine_rules]:
  "(x = None \<Longrightarrow> refines m m') \<Longrightarrow> (\<And>y. x = Some y \<Longrightarrow> refines (f y) (f' y)) \<Longrightarrow>
   refines (case x of None \<Rightarrow> m | Some y \<Rightarrow> f y) (case x of None \<Rightarrow> m' | Some y \<Rightarrow> f' y)"
  by (cases x) auto

lemma refines_when [refine_rules]: "refines m m' \<Longrightarrow> refines (kwhen b m) (kwhen b m')"
  by (simp add: kwhen_def refines_ret)

lemmas ptr_sim_defs = ptr_sim_def ptr_abs_def bio.truncate_def

lemma ptr_sim_list: "ptr_sim s t \<Longrightarrow> linked_list (b_links s) (lru t)"
  by (simp only: ptr_sim_def)

lemma ptr_sim_fields:
  "ptr_sim s t \<Longrightarrow> bufs t = bufs s" "ptr_sim s t \<Longrightarrow> disk t = disk s" "ptr_sim s t \<Longrightarrow> disksize t = disksize s"
  "ptr_sim s t \<Longrightarrow> curproc t = curproc s" "ptr_sim s t \<Longrightarrow> held t = held s" "ptr_sim s t \<Longrightarrow> disk_writes t = disk_writes s" "ptr_sim s t \<Longrightarrow> ptable t = ptable s"
  by (cases t; simp add: ptr_sim_defs)+

lemma ptr_sim_updates:
  "ptr_sim s t \<Longrightarrow> ptr_sim (s\<lparr>bufs := a\<rparr>) (t\<lparr>bufs := a\<rparr>)" "ptr_sim s t \<Longrightarrow> ptr_sim (s\<lparr>disk := d\<rparr>) (t\<lparr>disk := d\<rparr>)"
  "ptr_sim s t \<Longrightarrow> ptr_sim (s\<lparr>held := h\<rparr>) (t\<lparr>held := h\<rparr>)" "ptr_sim s t \<Longrightarrow> ptr_sim (s\<lparr>ptable := p\<rparr>) (t\<lparr>ptable := p\<rparr>)"
  "ptr_sim s t \<Longrightarrow> ptr_sim (s\<lparr>disk_writes := w\<rparr>) (t\<lparr>disk_writes := w\<rparr>)"
  by (cases t; simp add: ptr_sim_defs)+

text \<open>The operations that do not touch the list.\<close>

lemma refines_acquire [refine_rules]: "refines (acquire_lk l) (acquire_lk l)"
  by (auto simp: refines_def acquire_lk_def ptr_sim_fields ptr_sim_updates)

lemma refines_release [refine_rules]: "refines (release_lk l) (release_lk l)"
  by (auto simp: refines_def release_lk_def ptr_sim_fields ptr_sim_updates)

lemma refines_set_proc [refine_rules]: "refines (set_proc p f) (set_proc p f)"
  by (auto simp: refines_def set_proc_def kmod_def ptr_sim_fields ptr_sim_updates)

lemma refines_set_buf [refine_rules]: "refines (set_buf b f) (set_buf b f)"
  by (auto simp: refines_def set_buf_def kmod_def ptr_sim_fields ptr_sim_updates)

lemma refines_wakeup [refine_rules]: "refines (wakeup ch) (wakeup ch)"
proof -
  have "refines (wakeup1 ch) (wakeup1 ch)"
    by (auto simp: refines_def wakeup1_def kmod_def ptr_sim_fields ptr_sim_updates)
  then show ?thesis unfolding wakeup_def by (intro refine_rules)
qed

lemma refines_sleep [refine_rules]: "refines (sleep ch lk) (sleep ch lk)"
proof -
  have "refines sched sched" by (auto simp: refines_def sched_def ptr_sim_fields split: option.split)
  then show ?thesis unfolding sleep_def
    by (intro refines_get refine_rules) (auto simp: ptr_sim_fields intro!: refine_rules split: option.split)
qed

lemma refines_iderw [refine_rules]: "refines (iderw b) (iderw b)"
proof -
  have w: "refines (kmod (\<lambda>s. s\<lparr>disk := (disk s)(i := d), disk_writes := disk_writes s @ [(i, d)]\<rparr>))
     (kmod (\<lambda>s. s\<lparr>disk := (disk s)(i := d), disk_writes := disk_writes s @ [(i, d)]\<rparr>))" for i d
    by (auto simp: refines_def kmod_def ptr_sim_fields ptr_sim_updates)
  show ?thesis unfolding iderw_def
    by (rule refines_get, rule refines_get) (auto simp: ptr_sim_fields intro!: refine_rules w refines_get)
qed

text \<open>The operations that do.\<close>

lemma find_cached_find: "find_cached dev sec bs l = find (\<lambda>b. b_dev (bs b) = dev \<and> b_sector (bs b) = sec) l"
  by (induction l) auto

lemma find_recyclable_find: "find_recyclable bs l = find (\<lambda>b. \<not> b_busy (bs b) \<and> \<not> b_dirty (bs b)) l"
  by (induction l) auto

lemma search_cached:
  "ptr_sim s t \<Longrightarrow> search_next (b_links s) (\<lambda>b. b_dev (bufs s b) = dev \<and> b_sector (bufs s b) = sec) = Some (find_cached dev sec (bufs t) (lru t))"
  by (simp add: bufs_order.search_front [OF ptr_sim_list] ptr_sim_fields find_cached_find)

lemma search_recyclable:
  "ptr_sim s t \<Longrightarrow> search_prev (b_links s) (\<lambda>b. \<not> b_busy (bufs s b) \<and> \<not> b_dirty (bufs s b)) = Some (find_recyclable (bufs t) (rev (lru t)))"
  by (simp add: bufs_order.search_back [OF ptr_sim_list] ptr_sim_fields find_recyclable_find)

lemma refines_bget [refine_rules]: "refines (bget_ptr dev sec) (bget dev sec)"
  unfolding bget_ptr_def bget_def
  by (intro refines_get refine_rules)
    (auto simp: search_cached search_recyclable ptr_sim_fields intro!: refines_get refine_rules split: option.split)

lemma refines_bread: "refines (bread_ptr dev sec) (bread dev sec)"
  unfolding bread_ptr_def bread_def by (intro refines_get refine_rules) (auto simp: ptr_sim_fields intro!: refine_rules)

lemma kbind_kget: "kbind (kget g) f s = f (g s) s"
  by (simp add: kern_defs)

lemma kthen_kmod: "kthen (kmod f) m s = m (f s)"
  by (simp add: kern_defs)

lemma kthen_acquire: "kthen (acquire_lk l) m s = (if l \<in> held s then Panic ''acquire'' else m (s\<lparr>held := insert l (held s)\<rparr>))"
  by (simp add: kern_defs acquire_lk_def)

lemma refinesD: "refines m m' \<Longrightarrow> ptr_sim s t \<Longrightarrow> kres_sim ptr_sim (m s) (m' t)"
  by (simp add: refines_def)

lemma ptr_sim_links: "ptr_sim s t \<Longrightarrow> linked_list L l \<Longrightarrow> ptr_sim (s\<lparr>b_links := L\<rparr>) (t\<lparr>lru := l\<rparr>)"
  by (cases t; simp add: ptr_sim_defs)

lemma ptr_sim_abs: "linked_list (b_links s) l \<Longrightarrow> ptr_sim s (ptr_abs l s)"
  by (simp add: ptr_sim_defs)

lemma brelse_sim:
  assumes "ptr_sim s t" "b \<in> set (lru t)"
  shows "kres_sim ptr_sim (brelse_ptr b s) (brelse b t)"
proof -
  let ?m = "kthen (set_buf b (\<lambda>x. x\<lparr>b_busy := False\<rparr>)) (kthen (wakeup (Ch_buf b)) (release_lk LK_bcache))"
  have r: "refines ?m ?m" by (intro refine_rules)
  let ?h = "insert LK_bcache (held s)"
  have "ptr_sim (s\<lparr>held := ?h, b_links := move_first b (b_links s)\<rparr>) (t\<lparr>held := ?h, lru := b # remove1 b (lru t)\<rparr>)"
    by (rule ptr_sim_links [OF ptr_sim_updates(3) [OF assms(1)] bufs_order.order_front [OF ptr_sim_list [OF assms(1)] assms(2)]])
  from refinesD [OF r this] show ?thesis
    using assms by (simp add: brelse_ptr_def brelse_def kbind_kget kthen_kmod kthen_acquire set_links_def kpanic_def ptr_sim_fields)
qed

lemma binit_loop:
  "ptr_sim s t \<Longrightarrow> distinct bs \<Longrightarrow> set bs \<inter> set (lru t) = {} \<Longrightarrow> HEAD \<notin> set bs \<Longrightarrow>
   kres_sim ptr_sim (foldr (\<lambda>b m. kthen (set_buf b (\<lambda>x. x\<lparr>b_dev := 4294967295\<rparr>)) (kthen (set_links (put_first b)) m)) bs (kret ()) s) (binit_from bs t)"
proof (induction bs arbitrary: s t)
  case Nil
  then show ?case by (simp add: kret_def)
next
  case (Cons b bs)
  let ?f = "\<lambda>x. x\<lparr>b_dev := 4294967295\<rparr>"
  let ?a = "(bufs s)(b := ?f (bufs s b))"
  have "linked_list (put_first b (b_links s)) (b # lru t)"
    using Cons.prems by (intro linked_put_first ptr_sim_list) auto
  from ptr_sim_links [OF ptr_sim_updates(1) [OF Cons.prems(1)] this]
  have "ptr_sim (s\<lparr>bufs := ?a, b_links := put_first b (b_links s)\<rparr>) (t\<lparr>bufs := ?a, lru := b # lru t\<rparr>)" .
  from Cons.IH [OF this] show ?case
    using Cons.prems by (simp add: kern_defs set_buf_def set_links_def ptr_sim_fields)
qed

lemma binit_sim: "kres_sim ptr_sim (binit_ptr s) (binit (ptr_abs l s))"
proof -
  let ?L = "(b_links s)\<lparr>prv := (prv (b_links s))(HEAD := HEAD), nxt := (nxt (b_links s))(HEAD := HEAD)\<rparr>"
  have "linked_list ?L []" by (simp add: linked_list_def)
  then have "ptr_sim (s\<lparr>b_links := ?L\<rparr>) (ptr_abs [] (s\<lparr>b_links := ?L\<rparr>))" by (intro ptr_sim_abs) simp
  then have "kres_sim ptr_sim (foldr (\<lambda>b m. kthen (set_buf b (\<lambda>x. x\<lparr>b_dev := 4294967295\<rparr>)) (kthen (set_links (put_first b)) m)) [0..<NBUF] (kret ())
      (s\<lparr>b_links := ?L\<rparr>)) (binit_from [0..<NBUF] (ptr_abs [] (s\<lparr>b_links := ?L\<rparr>)))"
    by (rule binit_loop) (auto simp: HEAD_def ptr_abs_def)
  moreover have "ptr_abs [] (s\<lparr>b_links := ?L\<rparr>) = (ptr_abs l s)\<lparr>lru := []\<rparr>" by (simp add: ptr_sim_defs)
  ultimately show ?thesis unfolding binit_ptr_def binit_def
    by (simp add: kthen_kmod set_links_def)
qed

section \<open>Properties\<close>

text \<open>C7. The operations of the code on the \<open>prev\<close>/\<open>next\<close> pointers of the buffers do what the operations on the list of
  theory \<open>Bio\<close> do, with the same results, panics and sleeps: \<open>bget\<close> and \<open>bread\<close> on all arguments, \<open>brelse\<close> on a buffer of
  the cache, and \<open>binit\<close> from any state.\<close>

theorem bcache_pointers_refine:
  "(ptr_sim s t \<longrightarrow> kres_sim ptr_sim (bget_ptr dev sec s) (bget dev sec t) \<and> kres_sim ptr_sim (bread_ptr dev sec s) (bread dev sec t) \<and>
      (b \<in> set (lru t) \<longrightarrow> kres_sim ptr_sim (brelse_ptr b s) (brelse b t))) \<and>
   kres_sim ptr_sim (binit_ptr s) (binit (ptr_abs l s))"
  using refinesD [OF refines_bget] refinesD [OF refines_bread] brelse_sim binit_sim by blast

text \<open>C10. \<open>bget\<close> recycles the least recently used buffer: when the sector is not cached and \<open>bs\<close> are the buffers released so
  far, in this order, the buffer it takes is idle and clean, and every other such buffer was released after the last
  release of this one.\<close>

theorem bget_recycles_least_recent:
  assumes "linked_list L l" "set bs = set l" "b_links s = fold move_first bs L"
    "\<forall>b \<in> set l. \<not> (b_dev (bufs s b) = dev \<and> b_sector (bufs s b) = sec)" "bget_ptr dev sec s = Ok b s'"
  shows "\<not> b_busy (bufs s b) \<and> \<not> b_dirty (bufs s b) \<and>
    (\<exists>us vs. bs = us @ b # vs \<and> b \<notin> set vs \<and> (\<forall>x \<in> set l. \<not> b_busy (bufs s x) \<and> \<not> b_dirty (bufs s x) \<and> x \<noteq> b \<longrightarrow> x \<in> set vs))"
proof -
  let ?P = "\<lambda>b. \<not> b_busy (bufs s b) \<and> \<not> b_dirty (bufs s b)"
  have o: "linked_list (b_links s) (rev (remdups bs))"
    using bufs_order.order_all_used [OF assms(1,2)] assms(3) by simp
  have "search_next (b_links s) (\<lambda>b. b_dev (bufs s b) = dev \<and> b_sector (bufs s b) = sec) = Some None"
    using bufs_order.search_front [OF o] assms(2,4) by (auto simp: find_None_iff)
  then have "search_prev (b_links s) ?P = Some (Some b)"
    using assms(5) bufs_order.search_back [OF o]
    by (auto simp: bget_ptr_def kern_defs acquire_lk_def release_lk_def set_buf_def split: if_splits option.splits)
  then show ?thesis using bufs_order.least_recent [OF assms(1,2), of ?P b] assms(3) by auto
qed

definition wit_links :: links where
  "wit_links = fold put_first [0..<NBUF] \<lparr>nxt = (\<lambda>_. HEAD), prv = (\<lambda>_. HEAD)\<rparr>"

definition wit_bcache :: "links \<Rightarrow> bcache" where
  "wit_bcache L = \<lparr>ptable = (\<lambda>_. idle_proc), curproc = None, initproc = None, nextpid = 1, held = {},
     bufs = (\<lambda>_. zero_buf), lru = [], disk = (\<lambda>n i. 0), disksize = 8, disk_writes = [], b_links = L\<rparr>"

lemma wit_links: "linked_list wit_links (rev [0..<NBUF])"
  by code_simp

theorem bcache_pointers_refine_witness:
  "kres_sim ptr_sim (bread_ptr 1 3 (wit_bcache wit_links)) (bread 1 3 (ptr_abs (rev [0..<NBUF]) (wit_bcache wit_links)))"
  using bcache_pointers_refine [of "wit_bcache wit_links" "ptr_abs (rev [0..<NBUF]) (wit_bcache wit_links)" 1 3] wit_links
  by (simp add: ptr_sim_abs wit_bcache_def)

lemma bget_fresh:
  assumes "search_next (b_links s) (\<lambda>b. b_dev (bufs s b) = dev \<and> b_sector (bufs s b) = sec) = Some None"
    "search_prev (b_links s) (\<lambda>b. \<not> b_busy (bufs s b) \<and> \<not> b_dirty (bufs s b)) = Some (Some b)" "LK_bcache \<notin> held s"
  shows "\<exists>s'. bget_ptr dev sec s = Ok b s'"
  using assms by (simp add: bget_ptr_def kthen_acquire kbind_kget) (simp add: set_buf_def kthen_kmod kern_defs release_lk_def)

theorem bget_recycles_least_recent_witness:
  "\<exists>b s'. bget_ptr 1 3 (wit_bcache (fold move_first ([0..<10] @ [0]) wit_links)) = Ok b s' \<and>
     (\<exists>us vs. [0..<10] @ [0] = us @ b # vs \<and> b \<notin> set vs \<and> (\<forall>x < 10. x \<noteq> b \<longrightarrow> x \<in> set vs))"
proof -
  let ?s = "wit_bcache (fold move_first ([0..<10] @ [0]) wit_links)"
  have n: "set ([0..<10] @ [0]) = set (rev [0..<NBUF])" by (auto simp: NBUF_def)
  have o: "linked_list (b_links ?s) (rev (remdups ([0..<10] @ [0])))"
    using bufs_order.order_all_used [OF wit_links n] by (simp add: wit_bcache_def)
  have "search_next (b_links ?s) (\<lambda>b. b_dev (bufs ?s b) = 1 \<and> b_sector (bufs ?s b) = 3) = Some None"
    using bufs_order.search_front [OF o] by (simp add: find_None_iff wit_bcache_def zero_buf_def)
  moreover have "search_prev (b_links ?s) (\<lambda>b. \<not> b_busy (bufs ?s b) \<and> \<not> b_dirty (bufs ?s b)) = Some (Some 1)"
    using bufs_order.search_back [OF o] by (simp add: wit_bcache_def zero_buf_def upt_rec [of _ 10])
  moreover have "LK_bcache \<notin> held ?s" by (simp add: wit_bcache_def)
  ultimately obtain b s' where g: "bget_ptr 1 3 ?s = Ok b s'" using bget_fresh by blast
  show ?thesis
    using bget_recycles_least_recent [OF wit_links n _ _ g] g
    by (simp add: wit_bcache_def zero_buf_def NBUF_def Ball_def)
qed

end
