(* ===== verification/Ide.thy ===== *)
theory Ide
  imports Bio
begin

text \<open>
  The driver of the IDE disk (\<open>ide.c\<close>): the queue of requests, the registers of the controller and the interrupt handler.

  The queue is linked through \<open>qnext\<close> from \<open>idequeue\<close>.  The controller is not part of the program: \<open>ide_port\<close> are the
  values that the reads of its status register give, one after the other (\<open>ide_reads\<close> have been made), \<open>ide_block\<close> is
  the block that \<open>insl\<close> delivers, and \<open>ide_out\<close> is what was written to its ports.  A loop that waits for ever is
  \<open>Panic ''endless loop''\<close>.  \<open>iderw\<close> is followed up to its \<open>sleep\<close>; a process woken there goes on with \<open>iderw_wait\<close>.
\<close>

unbundle bit_operations_syntax

definition IDE_BSY :: nat where "IDE_BSY = 0x80"
definition IDE_DRDY :: nat where "IDE_DRDY = 0x40"
definition IDE_DF :: nat where "IDE_DF = 0x20"
definition IDE_ERR :: nat where "IDE_ERR = 0x01"
definition IDE_CMD_READ :: nat where "IDE_CMD_READ = 0x20"
definition IDE_CMD_WRITE :: nat where "IDE_CMD_WRITE = 0x30"

datatype port_out = Outb nat nat | Outsl nat bytes

record ide = bio +
  idequeue :: "nat option"
  qnext :: "nat \<Rightarrow> nat option"
  havedisk1 :: bool
  ide_port :: "nat \<Rightarrow> nat"
  ide_reads :: nat
  ide_block :: bytes
  ide_out :: "port_out list"

section \<open>The controller\<close>

definition outb :: "nat \<Rightarrow> nat \<Rightarrow> (ide, unit) kern" where
  "outb p v = kmod (\<lambda>s. s\<lparr>ide_out := ide_out s @ [Outb p v]\<rparr>)"

definition in_status :: "(ide, nat) kern" where
  "in_status = (\<lambda>s. Ok (ide_port s (ide_reads s)) (s\<lparr>ide_reads := ide_reads s + 1\<rparr>))"

definition status_ready :: "nat \<Rightarrow> bool" where
  "status_ready r \<longleftrightarrow> r AND (IDE_BSY OR IDE_DRDY) = IDE_DRDY"

partial_function (option) wait_ready :: "(nat \<Rightarrow> nat) \<Rightarrow> nat \<Rightarrow> nat option" where
  "wait_ready f n = (if status_ready (f n) then Some n else wait_ready f (Suc n))"

definition idewait :: "bool \<Rightarrow> (ide, int) kern" where
  "idewait checkerr s =
    (case wait_ready (ide_port s) (ide_reads s) of
       None \<Rightarrow> Panic ''endless loop''
     | Some n \<Rightarrow>
       Ok (if checkerr \<and> ide_port s n AND (IDE_DF OR IDE_ERR) \<noteq> 0 then -1 else 0) (s\<lparr>ide_reads := Suc n\<rparr>))"

fun probe_disk1 :: "nat \<Rightarrow> (ide, unit) kern" where
  "probe_disk1 0 = kret ()"
| "probe_disk1 (Suc i) =
    kbind in_status (\<lambda>r.
    if r \<noteq> 0 then kmod (\<lambda>s. s\<lparr>havedisk1 := True\<rparr>) else probe_disk1 i)"

definition ideinit :: "(ide, unit) kern" where
  "ideinit =
    kthen (idewait False) (
    kthen (outb 0x1f6 (0xe0 OR push_bit 4 1)) (
    kthen (probe_disk1 1000) (
    outb 0x1f6 (0xe0 OR push_bit 4 0))))"

section \<open>Requests\<close>

definition idestart :: "nat option \<Rightarrow> (ide, unit) kern" where
  "idestart bo =
    (case bo of None \<Rightarrow> kpanic ''idestart''
     | Some b \<Rightarrow>
       kthen (idewait False) (
       kbind (kget (\<lambda>s. bufs s b)) (\<lambda>bp.
       kthen (outb 0x3f6 0) (
       kthen (outb 0x1f2 1) (
       kthen (outb 0x1f3 (b_sector bp AND 0xff)) (
       kthen (outb 0x1f4 (drop_bit 8 (b_sector bp) AND 0xff)) (
       kthen (outb 0x1f5 (drop_bit 16 (b_sector bp) AND 0xff)) (
       kthen (outb 0x1f6 (0xe0 OR push_bit 4 (b_dev bp AND 1) OR (drop_bit 24 (b_sector bp) AND 0x0f))) (
       if b_dirty bp then
         kthen (outb 0x1f7 IDE_CMD_WRITE) (
         kmod (\<lambda>s. s\<lparr>ide_out := ide_out s @ [Outsl 0x1f0 (b_data bp)]\<rparr>))
       else outb 0x1f7 IDE_CMD_READ)))))))))"

definition ideintr :: "(ide, unit) kern" where
  "ideintr =
    kthen (acquire_lk LK_ide) (
    kbind (kget idequeue) (\<lambda>bo.
    case bo of None \<Rightarrow> release_lk LK_ide
    | Some b \<Rightarrow>
      kthen (kmod (\<lambda>s. s\<lparr>idequeue := qnext s b\<rparr>)) (
      kbind (kget (\<lambda>s. bufs s b)) (\<lambda>bp.
      kthen
        (kwhen (\<not> b_dirty bp) (
           kbind (idewait True) (\<lambda>r.
           kwhen (r \<ge> 0) (
             kbind (kget ide_block) (\<lambda>d.
             set_buf b (\<lambda>x. x\<lparr>b_data := (\<lambda>i. if i < 512 then d i else b_data x i)\<rparr>)))))) (
      kthen (set_buf b (\<lambda>x. x\<lparr>b_valid := True\<rparr>)) (
      kthen (set_buf b (\<lambda>x. x\<lparr>b_dirty := False\<rparr>)) (
      kthen (wakeup (Ch_buf b)) (
      kbind (kget idequeue) (\<lambda>q.
      kthen (kwhen (q \<noteq> None) (idestart q)) (
      release_lk LK_ide))))))))))"

partial_function (option) queue_last :: "(nat \<Rightarrow> nat option) \<Rightarrow> nat \<Rightarrow> nat option" where
  "queue_last f b = (case f b of None \<Rightarrow> Some b | Some c \<Rightarrow> queue_last f c)"

definition append_request :: "nat \<Rightarrow> (ide, unit) kern" where
  "append_request b =
    kthen (kmod (\<lambda>s. s\<lparr>qnext := (qnext s)(b := None)\<rparr>)) (
    kbind (kget idequeue) (\<lambda>q.
    case q of None \<Rightarrow> kmod (\<lambda>s. s\<lparr>idequeue := Some b\<rparr>)
    | Some c \<Rightarrow>
      kbind (kget (\<lambda>s. queue_last (qnext s) c)) (\<lambda>e.
      case e of None \<Rightarrow> kpanic ''endless loop''
      | Some e \<Rightarrow> kmod (\<lambda>s. s\<lparr>qnext := (qnext s)(e := Some b)\<rparr>))))"

definition iderw_wait :: "nat \<Rightarrow> (ide, unit) kern" where
  "iderw_wait b =
    kbind (kget (\<lambda>s. bufs s b)) (\<lambda>bp.
    if \<not> (b_valid bp \<and> \<not> b_dirty bp) then sleep (Ch_buf b) LK_ide
    else release_lk LK_ide)"

definition iderw_ide :: "nat \<Rightarrow> (ide, unit) kern" where
  "iderw_ide b =
    kbind (kget (\<lambda>s. bufs s b)) (\<lambda>bp.
    kbind (kget havedisk1) (\<lambda>hd1.
    if \<not> b_busy bp then kpanic ''iderw: buf not busy''
    else if b_valid bp \<and> \<not> b_dirty bp then kpanic ''iderw: nothing to do''
    else if b_dev bp \<noteq> 0 \<and> \<not> hd1 then kpanic ''iderw: ide disk 1 not present''
    else
      kthen (acquire_lk LK_ide) (
      kthen (append_request b) (
      kbind (kget idequeue) (\<lambda>q.
      kthen (kwhen (q = Some b) (idestart (Some b))) (
      iderw_wait b))))))"

section \<open>The queue\<close>

fun queued :: "(nat \<Rightarrow> nat option) \<Rightarrow> nat option \<Rightarrow> nat list \<Rightarrow> bool" where
  "queued f p [] \<longleftrightarrow> p = None"
| "queued f p (b # q) \<longleftrightarrow> p = Some b \<and> queued f (f b) q"

definition queue_is :: "ide \<Rightarrow> nat list \<Rightarrow> bool" where
  "queue_is s q \<longleftrightarrow> queued (qnext s) (idequeue s) q \<and> distinct q"

lemma queued_cong: "(\<And>b. b \<in> set q \<Longrightarrow> f b = g b) \<Longrightarrow> queued f p q = queued g p q"
  by (induction q arbitrary: p) auto

lemma queued_upd [simp]: "b \<notin> set q \<Longrightarrow> queued (f(b := x)) p q = queued f p q"
  by (rule queued_cong) auto

lemma queue_last_queued: "queued f (Some c) q \<Longrightarrow> queue_last f c = Some (last q)"
proof (induction q arbitrary: c)
  case (Cons b q)
  then show ?case by (cases q) (auto simp: queue_last.simps)
qed simp

lemma queued_snoc:
  "queued f p q \<Longrightarrow> q \<noteq> [] \<Longrightarrow> distinct q \<Longrightarrow> b \<notin> set q \<Longrightarrow> f b = None \<Longrightarrow> queued (f(last q := Some b)) p (q @ [b])"
proof (induction q arbitrary: p)
  case (Cons c q)
  show ?case
  proof (cases "q = []")
    case False
    with Cons show ?thesis by (auto simp: last_in_set)
  qed (use Cons in auto)
qed simp

definition append_links :: "nat list \<Rightarrow> nat \<Rightarrow> ide \<Rightarrow> ide" where
  "append_links q b s =
    (if q = [] then s\<lparr>qnext := (qnext s)(b := None), idequeue := Some b\<rparr>
     else s\<lparr>qnext := (qnext s)(b := None, last q := Some b)\<rparr>)"

lemma append_request_run:
  assumes "queue_is s q" "b \<notin> set q"
  shows "append_request b s = Ok () (append_links q b s)" and "queue_is (append_links q b s) (q @ [b])"
proof -
  have q: "queued ((qnext s)(b := None)) (idequeue s) q" "distinct q"
    using assms by (auto simp: queue_is_def)
  then have "idequeue s = Some c \<Longrightarrow> q \<noteq> [] \<and> queue_last ((qnext s)(b := None)) c = Some (last q)" for c
    using queue_last_queued [of "(qnext s)(b := None)" c q] by auto
  moreover have "idequeue s = None \<Longrightarrow> q = []" using q(1) by (cases q) auto
  ultimately show "append_request b s = Ok () (append_links q b s)"
    by (auto simp: append_request_def append_links_def kern_defs split: option.split)
  show "queue_is (append_links q b s) (q @ [b])"
    using q assms(2) queued_snoc [of "(qnext s)(b := None)" "idequeue s" q b]
    by (auto simp: queue_is_def append_links_def)
qed

section \<open>The controller gets ready again and again\<close>

definition ide_live :: "ide \<Rightarrow> bool" where
  "ide_live s \<longleftrightarrow> (\<forall>n. \<exists>k \<ge> n. status_ready (ide_port s k))"

lemma wait_ready_ends: "status_ready (f (n + k)) \<Longrightarrow> \<exists>m. wait_ready f n = Some m \<and> status_ready (f m)"
proof (induction k arbitrary: n)
  case (Suc k)
  then show ?case using Suc.IH [of "Suc n"] by (subst (1) wait_ready.simps) (auto simp: wait_ready.simps)
qed (auto simp: wait_ready.simps)

lemma ide_live_wait: "ide_live s \<Longrightarrow> \<exists>m. wait_ready (ide_port s) n = Some m"
  unfolding ide_live_def by (metis le_iff_add wait_ready_ends)

text \<open>What is written to the controller for a request.\<close>

definition start_out :: "buf \<Rightarrow> port_out list" where
  "start_out x =
    [Outb 0x3f6 0, Outb 0x1f2 1, Outb 0x1f3 (b_sector x AND 0xff), Outb 0x1f4 (drop_bit 8 (b_sector x) AND 0xff),
     Outb 0x1f5 (drop_bit 16 (b_sector x) AND 0xff),
     Outb 0x1f6 (0xe0 OR push_bit 4 (b_dev x AND 1) OR (drop_bit 24 (b_sector x) AND 0x0f))] @
    (if b_dirty x then [Outb 0x1f7 IDE_CMD_WRITE, Outsl 0x1f0 (b_data x)] else [Outb 0x1f7 IDE_CMD_READ])"

lemma idestart_run:
  "ide_live s \<Longrightarrow> \<exists>r. idestart (Some b) s = Ok () (s\<lparr>ide_reads := r, ide_out := ide_out s @ start_out (bufs s b)\<rparr>)"
  using ide_live_wait [of s "ide_reads s"] by (auto simp: idestart_def idewait_def start_out_def outb_def kern_defs)

section \<open>The operations\<close>

definition asleep_on :: "nat \<Rightarrow> proc \<Rightarrow> proc" where
  "asleep_on b q = q\<lparr>p_chan := Some (Ch_buf b), p_state := SLEEPING\<rparr>"

lemma iderw_run:
  assumes "queue_is s q" "b \<notin> set q" "ide_live s" "held s = {}" "curproc s = Some p"
    "b_busy (bufs s b)" "\<not> (b_valid (bufs s b) \<and> \<not> b_dirty (bufs s b))" "b_dev (bufs s b) = 0 \<or> havedisk1 s"
  shows "\<exists>r. iderw_ide b s = Sleeping ((append_links q b s)\<lparr>ide_reads := r, held := {LK_ptable},
      ide_out := ide_out s @ (if q = [] then start_out (bufs s b) else []), ptable := (ptable s)(p := asleep_on b (ptable s p))\<rparr>)"
proof -
  let ?s = "s\<lparr>held := {LK_ide}\<rparr>"
  have a: "append_request b ?s = Ok () (append_links q b ?s)" "queue_is (append_links q b ?s) (q @ [b])"
    using append_request_run [of ?s q b] assms(1,2) by (simp_all add: queue_is_def)
  have l: "ide_live (append_links q b ?s)" using assms(3) by (simp add: ide_live_def append_links_def)
  have f: "bufs (append_links q b ?s) = bufs s" "ide_out (append_links q b ?s) = ide_out s" "held (append_links q b ?s) = {LK_ide}"
    "curproc (append_links q b ?s) = Some p" "ptable (append_links q b ?s) = ptable s"
    using assms(5) by (simp_all add: append_links_def)
  have h: "idequeue (append_links q b ?s) = Some b \<longleftrightarrow> q = []"
    using a(2) assms(2) by (cases q) (auto simp: queue_is_def)
  have w: "iderw_wait b t = Sleeping (t\<lparr>held := {LK_ptable}, ptable := (ptable s)(p := asleep_on b (ptable s p))\<rparr>)"
    if "bufs t = bufs s" "held t = {LK_ide}" "curproc t = Some p" "ptable t = ptable s" for t
    using that assms(7) by (simp add: iderw_wait_def kern_defs sleep_def sched_def acquire_lk_def release_lk_def set_proc_def asleep_on_def insert_Diff_if)
  have u: "append_links l b ?s = (append_links l b s)\<lparr>held := {LK_ide}\<rparr>" for l by (simp add: append_links_def)
  show ?thesis
  proof (cases "q = []")
    case True
    obtain r where "idestart (Some b) (append_links q b ?s) =
        Ok () ((append_links q b ?s)\<lparr>ide_reads := r, ide_out := ide_out s @ start_out (bufs s b)\<rparr>)"
      using idestart_run [OF l, of b] f by auto
    with True show ?thesis
      using assms(4,6,7,8) f h a(1) w [of "(append_links q b ?s)\<lparr>ide_reads := r, ide_out := ide_out s @ start_out (bufs s b)\<rparr>"]
      by (intro exI [of _ r]) (auto simp: iderw_ide_def kern_defs acquire_lk_def u)
  next
    case False
    have "iderw_ide b s = iderw_wait b (append_links q b ?s)"
      using False assms(4,6,7,8) h a(1) by (auto simp: iderw_ide_def kern_defs acquire_lk_def)
    also have "\<dots> = Sleeping ((append_links q b ?s)\<lparr>held := {LK_ptable}, ptable := (ptable s)(p := asleep_on b (ptable s p))\<rparr>)"
      using w f by simp
    also have "\<dots> = Sleeping ((append_links q b s)\<lparr>ide_reads := ide_reads s, held := {LK_ptable},
      ide_out := ide_out s @ (if q = [] then start_out (bufs s b) else []), ptable := (ptable s)(p := asleep_on b (ptable s p))\<rparr>)"
      using False by (simp add: append_links_def)
    finally show ?thesis by blast
  qed
qed

text \<open>The buffer after its interrupt; \<open>n\<close> is the read of the status register that found the controller ready.\<close>

definition read_failed :: "ide \<Rightarrow> bool" where
  "read_failed s \<longleftrightarrow> (case wait_ready (ide_port s) (ide_reads s) of None \<Rightarrow> True
     | Some n \<Rightarrow> ide_port s n AND (IDE_DF OR IDE_ERR) \<noteq> 0)"

definition served :: "ide \<Rightarrow> buf \<Rightarrow> buf" where
  "served s x = x\<lparr>b_data := (if b_dirty x \<or> read_failed s then b_data x else (\<lambda>i. if i < 512 then ide_block s i else b_data x i)),
     b_valid := True, b_dirty := False\<rparr>"

lemma ideintr_run:
  assumes "queue_is s (b # q)" "ide_live s" "LK_ide \<notin> held s" "LK_ptable \<notin> held s"
  shows "\<exists>r. ideintr s = Ok () (s\<lparr>idequeue := qnext s b, bufs := (bufs s)(b := served s (bufs s b)), ptable := wakeup_tab (Ch_buf b) (ptable s),
      ide_reads := r, ide_out := ide_out s @ (case q of [] \<Rightarrow> [] | c # _ \<Rightarrow> start_out (bufs s c))\<rparr>)"
proof -
  have q: "idequeue s = Some b" "qnext s b = (case q of [] \<Rightarrow> None | c # _ \<Rightarrow> Some c)"
    using assms(1) by (auto simp: queue_is_def split: list.split)
  obtain n where n: "wait_ready (ide_port s) (ide_reads s) = Some n" using ide_live_wait [OF assms(2)] by blast
  let ?t = "\<lambda>r. s\<lparr>held := insert LK_ide (held s), idequeue := qnext s b, bufs := (bufs s)(b := served s (bufs s b)),
    ptable := wakeup_tab (Ch_buf b) (ptable s), ide_reads := r\<rparr>"
  let ?r = "if b_dirty (bufs s b) then ide_reads s else Suc n"
  define m where "m = kbind (kget idequeue) (\<lambda>q. kthen (kwhen (q \<noteq> None) (idestart q)) (release_lk LK_ide))"
  have e: "ideintr s = m (?t ?r)"
    unfolding ideintr_def m_def [symmetric] using q n assms(3,4)
    by (auto simp: idewait_def kern_defs acquire_lk_def release_lk_def set_buf_def wakeup_def wakeup1_def wakeup1_from_all
        served_def read_failed_def insert_Diff_if cong: if_cong intro!: arg_cong [where f = m])
  have h: "insert LK_ide (held s) - {LK_ide} = held s" using assms(3) by simp
  show ?thesis
  proof (cases q)
    case Nil
    then show ?thesis unfolding e m_def using q(2) assms(3)
      by (intro exI [of _ ?r]) (simp add: kern_defs release_lk_def h)
  next
    case (Cons c q')
    have "ide_live (?t ?r)" using assms(2) by (simp add: ide_live_def)
    from idestart_run [OF this, of c] obtain r where
      "idestart (Some c) (?t ?r) = Ok () ((?t ?r)\<lparr>ide_reads := r, ide_out := ide_out s @ start_out (bufs s c)\<rparr>)"
      using assms(1) Cons by (auto simp: queue_is_def)
    then show ?thesis unfolding e m_def using q(2) Cons assms(3)
      by (intro exI [of _ r]) (simp add: kern_defs release_lk_def h)
  qed
qed

section \<open>All interleavings of requests and interrupts\<close>

text \<open>
  A run of the driver: requests by processes, interrupts, and anything the rest of the kernel does that leaves the queue
  and the buffers in it alone (a process that waits for its buffer has it locked).  The requests are kept with the
  contents of their buffers, the completed ones in the order of their interrupts.
\<close>

inductive ide_run :: "ide \<Rightarrow> (nat \<times> buf) list \<Rightarrow> nat list \<Rightarrow> bool" where
  run_start: "idequeue s = None \<Longrightarrow> ide_out s = [] \<Longrightarrow> ide_run s [] []"
| run_request: "ide_run s rs cs \<Longrightarrow> b \<notin> fst ` set (drop (length cs) rs) \<Longrightarrow> iderw_ide b s = Sleeping s' \<Longrightarrow> ide_run s' (rs @ [(b, bufs s b)]) cs"
| run_interrupt: "ide_run s rs cs \<Longrightarrow> idequeue s = Some b \<Longrightarrow> ideintr s = Ok () s' \<Longrightarrow> ide_run s' rs (cs @ [b])"
| run_spurious: "ide_run s rs cs \<Longrightarrow> idequeue s = None \<Longrightarrow> ideintr s = Ok () s' \<Longrightarrow> ide_run s' rs cs"
| run_other: "ide_run s rs cs \<Longrightarrow> idequeue s' = idequeue s \<Longrightarrow> qnext s' = qnext s \<Longrightarrow> ide_out s' = ide_out s \<Longrightarrow>
    (\<forall>b \<in> fst ` set (drop (length cs) rs). bufs s' b = bufs s b) \<Longrightarrow> ide_run s' rs cs"

lemma idestart_Ok:
  "idestart (Some b) s = Ok u t \<Longrightarrow> \<exists>r. t = s\<lparr>ide_reads := r, ide_out := ide_out s @ start_out (bufs s b)\<rparr>"
  by (cases "wait_ready (ide_port s) (ide_reads s)") (auto simp: idestart_def idewait_def start_out_def outb_def kern_defs)

lemma idestart_not_sleeping: "idestart (Some b) s \<noteq> Sleeping t"
  by (cases "wait_ready (ide_port s) (ide_reads s)") (auto simp: idestart_def idewait_def outb_def kern_defs)

lemma iderw_wait_Sleeping: "iderw_wait b s = Sleeping t \<Longrightarrow> \<exists>h p. t = s\<lparr>held := h, ptable := p\<rparr>"
  by (auto simp: iderw_wait_def sleep_def sched_def kern_defs acquire_lk_def release_lk_def set_proc_def split: if_splits option.splits)

lemma iderw_Sleeping:
  assumes "iderw_ide b s = Sleeping s'" "queue_is s q" "b \<notin> set q"
  shows "queue_is s' (q @ [b]) \<and> bufs s' = bufs s \<and> ide_out s' = ide_out s @ (if q = [] then start_out (bufs s b) else [])"
proof -
  let ?s = "s\<lparr>held := insert LK_ide (held s)\<rparr>"
  let ?a = "append_links q b ?s"
  have a: "append_request b ?s = Ok () ?a" "queue_is ?a (q @ [b])"
    using append_request_run [of ?s q b] assms(2,3) by (simp_all add: queue_is_def)
  have f: "bufs ?a = bufs s" "ide_out ?a = ide_out s" by (simp_all add: append_links_def)
  have h: "idequeue ?a = Some b \<longleftrightarrow> q = []" using a(2) assms(3) by (cases q) (auto simp: queue_is_def)
  have "kthen (kwhen (q = []) (idestart (Some b))) (iderw_wait b) ?a = Sleeping s'"
    using assms(1) a(1) h by (auto simp: iderw_ide_def kthen_def [of "acquire_lk _"] kthen_def [of "append_request _"] kbind_def [of "kget _"]
      kbind_def [of "acquire_lk _"] kbind_def [of "append_request _"] kget_def acquire_lk_def kpanic_def split: if_splits)
  then have "\<exists>c. iderw_wait b c = Sleeping s' \<and> (if q = [] then idestart (Some b) ?a = Ok () c else c = ?a)"
    using idestart_not_sleeping [of b ?a] by (cases "idestart (Some b) ?a"; cases "q = []") (simp_all add: kern_defs)
  then obtain c where c: "iderw_wait b c = Sleeping s'" "if q = [] then idestart (Some b) ?a = Ok () c else c = ?a" by blast
  from iderw_wait_Sleeping [OF c(1)] obtain h p where "s' = c\<lparr>held := h, ptable := p\<rparr>" by blast
  then show ?thesis using a(2) f c(2) idestart_Ok [of b ?a "()" c] by (cases "q = []") (auto simp: queue_is_def)
qed

lemma ideintr_Ok:
  assumes "ideintr s = Ok () s'" "queue_is s (b # q)"
  shows "queue_is s' q \<and> bufs s' = (bufs s)(b := served s (bufs s b)) \<and> ide_out s' = ide_out s @ (case q of [] \<Rightarrow> [] | c # _ \<Rightarrow> start_out (bufs s c))"
proof -
  have q: "idequeue s = Some b" "qnext s b = (case q of [] \<Rightarrow> None | c # _ \<Rightarrow> Some c)" "queued (qnext s) (qnext s b) q" "b \<notin> set q" "distinct q"
    using assms(2) by (auto simp: queue_is_def split: list.split)
  define m where "m = kbind (kget idequeue) (\<lambda>q. kthen (kwhen (q \<noteq> None) (idestart q)) (release_lk LK_ide))"
  have "\<exists>t. m t = Ok () s' \<and> idequeue t = qnext s b \<and> qnext t = qnext s \<and> bufs t = (bufs s)(b := served s (bufs s b)) \<and> ide_out t = ide_out s"
    using assms(1) q(1) unfolding ideintr_def m_def [symmetric]
    by (auto simp: idewait_def kern_defs acquire_lk_def release_lk_def set_buf_def wakeup_def wakeup1_def
        served_def read_failed_def cong: if_cong split: if_splits option.splits)
  then obtain t where t: "m t = Ok () s'" "idequeue t = qnext s b" "qnext t = qnext s" "bufs t = (bufs s)(b := served s (bufs s b))" "ide_out t = ide_out s"
    by blast
  then have "\<exists>c. release_lk LK_ide c = Ok () s' \<and> (q = [] \<longrightarrow> c = t) \<and> (\<forall>x y. q = x # y \<longrightarrow> idestart (Some x) t = Ok () c)"
    using q(2) by (cases q) (auto simp: m_def kern_defs split: kres.splits)
  then obtain c where c: "s' = c\<lparr>held := held c - {LK_ide}\<rparr>" "q = [] \<longrightarrow> c = t" "\<forall>x y. q = x # y \<longrightarrow> idestart (Some x) t = Ok () c"
    by (auto simp: release_lk_def split: if_splits)
  with t q show ?thesis by (cases q) (auto simp: queue_is_def dest!: idestart_Ok)
qed

text \<open>What has been sent to the controller: the completed requests and the first one in the queue.\<close>

definition started :: "(nat \<times> buf) list \<Rightarrow> nat list \<Rightarrow> (nat \<times> buf) list" where
  "started rs cs = take (length cs + 1) rs"

lemma ide_run_inv:
  "ide_run s rs cs \<Longrightarrow> \<exists>q. map fst rs = cs @ q \<and> queue_is s q \<and> ide_out s = concat (map (\<lambda>r. start_out (snd r)) (started rs cs)) \<and>
    (\<forall>(b, x) \<in> set (drop (length cs) rs). bufs s b = x)"
proof (induction rule: ide_run.induct)
  case (run_start s)
  then show ?case by (simp add: queue_is_def started_def)
next
  case (run_request s rs cs b s')
  then obtain q where q: "map fst rs = cs @ q" "queue_is s q" "ide_out s = concat (map (\<lambda>r. start_out (snd r)) (started rs cs))"
    "\<forall>(b, x) \<in> set (drop (length cs) rs). bufs s b = x" by blast
  have d: "map fst (drop (length cs) rs) = q" "length cs \<le> length rs"
    using q(1) by (metis append_eq_conv_conj drop_map, metis length_append length_map le_add1)
  then have b: "b \<notin> set q" using run_request.hyps by (metis list.set_map)
  have l: "q = [] \<longleftrightarrow> length rs = length cs" using d by auto
  note i = iderw_Sleeping [OF run_request.hyps(3) q(2) b]
  show ?case
  proof (cases "q = []")
    case True
    then have "length rs = length cs" using l by simp
    with True i q show ?thesis by (intro exI [of _ "[b]"]) (simp add: started_def)
  next
    case False
    then have "length cs < length rs" using l d(2) by simp
    with False i q show ?thesis by (intro exI [of _ "q @ [b]"]) (auto simp: started_def)
  qed
next
  case (run_interrupt s rs cs b s')
  then obtain q where q: "map fst rs = cs @ q" "queue_is s q" "ide_out s = concat (map (\<lambda>r. start_out (snd r)) (started rs cs))"
    "\<forall>(b, x) \<in> set (drop (length cs) rs). bufs s b = x" by blast
  obtain q' where q': "q = b # q'" using q(2) run_interrupt.hyps(2) by (cases q) (auto simp: queue_is_def)
  obtain rs1 x rs2 where r: "rs = rs1 @ (b, x) # rs2" "map fst rs1 = cs" "map fst rs2 = q'"
    using q(1) unfolding q' by (auto simp: map_eq_append_conv map_eq_Cons_conv)
  have n: "b \<notin> fst ` set rs2" using q(2) q' r(3) by (simp add: queue_is_def flip: set_map)
  from r(2) have l: "length rs1 = length cs" by auto
  from ideintr_Ok [OF run_interrupt.hyps(3)] q q' have i: "queue_is s' q'" "bufs s' = (bufs s)(b := served s (bufs s b))"
    "ide_out s' = ide_out s @ (case q' of [] \<Rightarrow> [] | c # _ \<Rightarrow> start_out (bufs s c))" by auto
  have w: "\<forall>(c, y) \<in> set rs2. bufs s c = y" using q(4) r(1) l by simp
  with n i(2) have v: "\<forall>(c, y) \<in> set rs2. bufs s' c = y" by force
  have t: "started rs cs = rs1 @ [(b, x)]" "started rs (cs @ [b]) = rs1 @ (b, x) # take 1 rs2"
    using r(1) l by (simp_all add: started_def)
  have "ide_out s' = concat (map (\<lambda>r. start_out (snd r)) (started rs (cs @ [b])))"
  proof (cases rs2)
    case Nil
    then show ?thesis using i(3) q(3) r(3) unfolding t by simp
  next
    case (Cons y ys)
    with w have "bufs s (fst y) = snd y" by (cases y) simp
    with Cons show ?thesis using i(3) q(3) r(3) unfolding t by auto
  qed
  moreover have "map fst rs = (cs @ [b]) @ q'" "drop (length (cs @ [b])) rs = rs2" using r l by simp_all
  ultimately show ?case using i(1) v by (intro exI [of _ q']) simp
next
  case (run_spurious s rs cs s')
  then obtain q where q: "map fst rs = cs @ q" "queue_is s q" "ide_out s = concat (map (\<lambda>r. start_out (snd r)) (started rs cs))"
    "\<forall>(b, x) \<in> set (drop (length cs) rs). bufs s b = x" by blast
  have "s' = s"
    using run_spurious.hyps(2,3) by (auto simp: ideintr_def kern_defs acquire_lk_def release_lk_def split: if_splits)
  with q show ?case by (auto simp: queue_is_def)
next
  case (run_other s rs cs s')
  then obtain q where q: "map fst rs = cs @ q" "queue_is s q" "ide_out s = concat (map (\<lambda>r. start_out (snd r)) (started rs cs))"
    "\<forall>(b, x) \<in> set (drop (length cs) rs). bufs s b = x" by blast
  with run_other.hyps show ?case by (intro exI [of _ q]) (force simp: queue_is_def)
qed

text \<open>The sector and the drive that the registers name.\<close>

fun reg :: "nat \<Rightarrow> port_out list \<Rightarrow> nat" where
  "reg p [] = 0"
| "reg p (Outb q v # r) = (if q = p then v else reg p r)"
| "reg p (Outsl q d # r) = reg p r"

definition lba :: "port_out list \<Rightarrow> nat" where
  "lba r = reg 0x1f3 r + 256 * reg 0x1f4 r + 65536 * reg 0x1f5 r + 16777216 * (reg 0x1f6 r mod 16)"

definition drive :: "port_out list \<Rightarrow> nat" where
  "drive r = reg 0x1f6 r div 16 mod 2"

lemma and_low: "(n :: nat) AND 255 = n mod 256" "(n :: nat) AND 15 = n mod 16" "(n :: nat) AND 1 = n mod 2"
  using take_bit_eq_mask [of 8 n] take_bit_eq_mask [of 4 n] by (simp_all add: mask_eq_exp_minus_1 take_bit_eq_mod and_one_eq)

lemma drive_register:
  fixes d h :: nat
  assumes "d < 2" "h < 16"
  shows "(224 OR push_bit 4 d OR h) mod 16 = h" and "(224 OR push_bit 4 d OR h) div 16 mod 2 = d"
proof -
  have h: "take_bit 4 h = h" "drop_bit 4 h = 0" using assms(2) by (simp_all add: take_bit_eq_mod drop_bit_eq_div)
  have "take_bit 4 (224 OR push_bit 4 d OR h) = h" using h by (simp add: take_bit_push_bit)
  then show "(224 OR push_bit 4 d OR h) mod 16 = h" by (simp add: take_bit_eq_mod)
  have "d = 0 \<or> d = 1" using assms(1) by auto
  moreover have "drop_bit 4 (224 OR push_bit 4 d OR h) = 14 OR d" using h by (simp add: drop_bit_push_bit)
  ultimately have "drop_bit 4 (224 OR push_bit 4 d OR h) mod 2 = d" by auto
  then show "(224 OR push_bit 4 d OR h) div 16 mod 2 = d" by (simp add: drop_bit_eq_div)
qed

lemma start_out_names: "lba (start_out x) = b_sector x mod 2 ^ 28 \<and> drive (start_out x) = b_dev x mod 2"
proof -
  let ?n = "b_sector x"
  have "?n mod (256 * 256) = 256 * (?n div 256 mod 256) + ?n mod 256" by (rule mod_mult2_eq)
  moreover have "?n mod (65536 * 256) = 65536 * (?n div 65536 mod 256) + ?n mod 65536" by (rule mod_mult2_eq)
  moreover have "?n mod (16777216 * 16) = 16777216 * (?n div 16777216 mod 16) + ?n mod 16777216" by (rule mod_mult2_eq)
  moreover note drive_register [of "b_dev x mod 2" "?n div 16777216 mod 16"]
  ultimately show ?thesis by (simp add: lba_def drive_def start_out_def and_low drop_bit_eq_div)
qed

section \<open>Properties\<close>

text \<open>C8. However requests and interrupts interleave, the disk gets the requests one at a time and in the order they were made:
  the completed requests followed by the queue are all requests; sent to the controller are just the completed ones and
  the first of the queue, each with the sector (below \<open>2 ^ 28\<close>), the drive and the contents its buffer had when the
  request was made.\<close>

theorem ide_requests_in_order:
  assumes "ide_run s rs cs"
  shows "\<exists>q. map fst rs = cs @ q \<and> queue_is s q \<and> ide_out s = concat (map (\<lambda>r. start_out (snd r)) (take (length cs + 1) rs)) \<and>
    (\<forall>x. b_sector x < 2 ^ 28 \<longrightarrow> lba (start_out x) = b_sector x \<and> drive (start_out x) = b_dev x mod 2)"
  using ide_run_inv [OF assms] start_out_names by (fastforce simp: started_def)


definition wit_ide :: ide where
  "wit_ide = \<lparr>ptable = (\<lambda>_. idle_proc), curproc = Some 0, initproc = None, nextpid = 1, held = {},
     bufs = (\<lambda>_. zero_buf\<lparr>b_busy := True, b_dev := 1, b_sector := 5\<rparr>), lru = [], disk = (\<lambda>n i. 0), disksize = 8, disk_writes = [],
     idequeue = None, qnext = (\<lambda>_. None), havedisk1 = True, ide_port = (\<lambda>_. 0x50), ide_reads = 0, ide_block = (\<lambda>_. 7), ide_out = []\<rparr>"

lemma wit_ide_live: "ide_live wit_ide"
  by (auto simp: ide_live_def wit_ide_def status_ready_def IDE_BSY_def IDE_DRDY_def)


theorem ide_requests_in_order_witness:
  "\<exists>t. ide_run t [(3, bufs wit_ide 3)] [] \<and> queue_is t [3] \<and> ide_out t = start_out (bufs wit_ide 3) \<and> lba (start_out (bufs wit_ide 3)) = 5"
proof -
  have c: "queue_is wit_ide []" "held wit_ide = {}" "curproc wit_ide = Some 0" "b_busy (bufs wit_ide 3)"
      "\<not> (b_valid (bufs wit_ide 3) \<and> \<not> b_dirty (bufs wit_ide 3))" "b_dev (bufs wit_ide 3) = 0 \<or> havedisk1 wit_ide"
    by (simp_all add: wit_ide_def queue_is_def zero_buf_def)
  obtain t where t: "iderw_ide 3 wit_ide = Sleeping t"
    using iderw_run [OF c(1) _ wit_ide_live c(2-6)] by auto
  have "ide_run wit_ide [] []" by (rule run_start) (simp_all add: wit_ide_def)
  from run_request [OF this _ t] have r: "ide_run t [(3, bufs wit_ide 3)] []" by simp
  from ide_requests_in_order [OF this] r show ?thesis by (auto simp: wit_ide_def)
qed


end
