(* ===== verification/Strings.thy ===== *)
theory Strings
  imports Prelude
begin

unbundle bit_operations_syntax

text \<open>
  The memory and string routines: \<open>string.c\<close> of the kernel and the string part of \<open>ulib.c\<close>.

  Memory is one byte array indexed by address and pointers are addresses, so that a copy between
  overlapping regions behaves as in the source.  Loops that count down are recursions on the
  count; loops that run to a terminating zero byte are partial functions with value \<open>None\<close> where
  there is none.
\<close>

section \<open>The string instructions of x86.h\<close>

fun stosb :: "bytes \<Rightarrow> nat \<Rightarrow> byte \<Rightarrow> nat \<Rightarrow> bytes" where
  "stosb m addr data 0 = m"
| "stosb m addr data (Suc cnt) = stosb (m(addr := data)) (addr + 1) data cnt"

fun stosl :: "bytes \<Rightarrow> nat \<Rightarrow> 32 word \<Rightarrow> nat \<Rightarrow> bytes" where
  "stosl m addr data 0 = m"
| "stosl m addr data (Suc cnt) = stosl (put32 m addr (unat data)) (addr + 4) data cnt"

section \<open>string.c\<close>

definition memset :: "bytes \<Rightarrow> nat \<Rightarrow> 32 word \<Rightarrow> nat \<Rightarrow> bytes" where
  "memset m dst c n =
    (if dst mod 4 = 0 \<and> n mod 4 = 0 then
       (let c = c AND 0xFF in
        stosl m dst (push_bit 24 c OR push_bit 16 c OR push_bit 8 c OR c) (n div 4))
     else stosb m dst (ucast c) n)"

fun memcmp :: "bytes \<Rightarrow> nat \<Rightarrow> nat \<Rightarrow> nat \<Rightarrow> int" where
  "memcmp m s1 s2 0 = 0"
| "memcmp m s1 s2 (Suc n) =
    (if m s1 \<noteq> m s2 then uint (m s1) - uint (m s2) else memcmp m (s1 + 1) (s2 + 1) n)"

text \<open>The two loops of \<open>memmove\<close>: downwards from the end, and upwards.\<close>

fun move_down :: "bytes \<Rightarrow> nat \<Rightarrow> nat \<Rightarrow> nat \<Rightarrow> bytes" where
  "move_down m d s 0 = m"
| "move_down m d s (Suc n) = move_down (m(d - 1 := m (s - 1))) (d - 1) (s - 1) n"

fun move_up :: "bytes \<Rightarrow> nat \<Rightarrow> nat \<Rightarrow> nat \<Rightarrow> bytes" where
  "move_up m d s 0 = m"
| "move_up m d s (Suc n) = move_up (m(d := m s)) (d + 1) (s + 1) n"

definition memmove :: "bytes \<Rightarrow> nat \<Rightarrow> nat \<Rightarrow> nat \<Rightarrow> bytes" where
  "memmove m dst src n =
    (if src < dst \<and> src + n > dst then move_down m (dst + n) (src + n) n
     else move_up m dst src n)"

definition memcpy :: "bytes \<Rightarrow> nat \<Rightarrow> nat \<Rightarrow> nat \<Rightarrow> bytes" where
  "memcpy m dst src n = memmove m dst src n"

text \<open>\<open>strncmp\<close> takes its two strings as arrays, which need not live in the same memory.\<close>

fun strncmp_at :: "bytes \<Rightarrow> bytes \<Rightarrow> nat \<Rightarrow> nat \<Rightarrow> int" where
  "strncmp_at p q i 0 = 0"
| "strncmp_at p q i (Suc n) =
    (if p i \<noteq> 0 \<and> p i = q i then strncmp_at p q (i + 1) n else uint (p i) - uint (q i))"

definition strncmp :: "bytes \<Rightarrow> bytes \<Rightarrow> nat \<Rightarrow> int" where
  "strncmp p q n = strncmp_at p q 0 n"

fun zero_fill :: "bytes \<Rightarrow> nat \<Rightarrow> nat \<Rightarrow> bytes" where
  "zero_fill s i 0 = s"
| "zero_fill s i (Suc n) = zero_fill (s(i := 0)) (i + 1) n"

fun strncpy_at :: "bytes \<Rightarrow> bytes \<Rightarrow> nat \<Rightarrow> nat \<Rightarrow> bytes" where
  "strncpy_at s t i 0 = s"
| "strncpy_at s t i (Suc n) =
    (if t i \<noteq> 0 then strncpy_at (s(i := t i)) t (i + 1) n else zero_fill (s(i := 0)) (i + 1) n)"

definition strncpy :: "bytes \<Rightarrow> bytes \<Rightarrow> int \<Rightarrow> bytes" where
  "strncpy s t n = strncpy_at s t 0 (nat n)"

fun safestrcpy_at :: "bytes \<Rightarrow> bytes \<Rightarrow> nat \<Rightarrow> nat \<Rightarrow> bytes" where
  "safestrcpy_at s t i 0 = s(i := 0)"
| "safestrcpy_at s t i (Suc n) =
    (if t i \<noteq> 0 then safestrcpy_at (s(i := t i)) t (i + 1) n else s(i := 0, i + 1 := 0))"

definition safestrcpy :: "bytes \<Rightarrow> bytes \<Rightarrow> int \<Rightarrow> bytes" where
  "safestrcpy s t n = (if n \<le> 0 then s else safestrcpy_at s t 0 (nat (n - 1)))"

partial_function (option) strlen_from :: "bytes \<Rightarrow> nat \<Rightarrow> nat option" where
  "strlen_from s n = (if s n \<noteq> 0 then strlen_from s (n + 1) else Some n)"

definition strlen :: "bytes \<Rightarrow> nat option" where
  "strlen s = strlen_from s 0"

section \<open>ulib.c\<close>

partial_function (option) strcpy_at :: "bytes \<Rightarrow> bytes \<Rightarrow> nat \<Rightarrow> nat \<Rightarrow> (bytes \<times> nat) option" where
  "strcpy_at s t i j =
    (if t j \<noteq> 0 then strcpy_at (s(i := t j)) t (i + 1) (j + 1) else Some (s(i := 0), i))"

definition strcpy :: "bytes \<Rightarrow> bytes \<Rightarrow> bytes option" where
  "strcpy s t = map_option fst (strcpy_at s t 0 0)"

definition strcat :: "bytes \<Rightarrow> bytes \<Rightarrow> bytes \<Rightarrow> bytes option" where
  "strcat dst s1 s2 =
    (case strcpy_at dst s1 0 0 of
       None \<Rightarrow> None
     | Some (d, i) \<Rightarrow> map_option fst (strcpy_at d s2 i 0))"

fun substring_at :: "bytes \<Rightarrow> bytes \<Rightarrow> nat \<Rightarrow> nat \<Rightarrow> nat \<Rightarrow> bytes" where
  "substring_at dst src i k 0 = dst(k := 0)"
| "substring_at dst src i k (Suc n) = substring_at (dst(k := src i)) src (i + 1) (k + 1) n"

definition substring :: "bytes \<Rightarrow> bytes \<Rightarrow> nat \<Rightarrow> nat \<Rightarrow> bytes" where
  "substring dst src start end = substring_at dst src start 0 (end - start)"

partial_function (option) strcmp_at :: "bytes \<Rightarrow> bytes \<Rightarrow> nat \<Rightarrow> int option" where
  "strcmp_at p q i =
    (if p i \<noteq> 0 \<and> p i = q i then strcmp_at p q (i + 1) else Some (uint (p i) - uint (q i)))"

definition strcmp :: "bytes \<Rightarrow> bytes \<Rightarrow> int option" where
  "strcmp p q = strcmp_at p q 0"

definition umemset :: "bytes \<Rightarrow> nat \<Rightarrow> 32 word \<Rightarrow> nat \<Rightarrow> bytes" where
  "umemset m dst c n = stosb m dst (ucast c) n"

partial_function (option) strchr_from :: "bytes \<Rightarrow> byte \<Rightarrow> nat \<Rightarrow> nat option option" where
  "strchr_from s c i =
    (if s i = 0 then Some None else if s i = c then Some (Some i) else strchr_from s c (i + 1))"

definition strchr :: "bytes \<Rightarrow> byte \<Rightarrow> nat option option" where
  "strchr s c = strchr_from s c 0"

text \<open>\<open>gets\<close> with the bytes that successive calls of \<open>read(0, &c, 1)\<close> deliver; the list ends where
  \<open>read\<close> returns less than one.  The result is the number of bytes taken and the buffer.\<close>

fun gets_at :: "bytes \<Rightarrow> nat \<Rightarrow> nat \<Rightarrow> byte list \<Rightarrow> bytes \<times> nat" where
  "gets_at buf i mx [] = (buf(i := 0), i)"
| "gets_at buf i mx (c # cs) =
    (if i + 1 < mx then
       if c = 10 \<or> c = 13 then (buf(i := c, i + 1 := 0), i + 1)
       else gets_at (buf(i := c)) (i + 1) mx cs
     else (buf(i := 0), i))"

definition gets :: "bytes \<Rightarrow> nat \<Rightarrow> byte list \<Rightarrow> bytes \<times> nat" where
  "gets buf mx inp = gets_at buf 0 mx inp"

text \<open>\<open>int\<close> arithmetic of \<open>atoi\<close> wraps at 32 bits; \<open>char\<close> is signed, and a digit is never negative.\<close>

partial_function (option) atoi_from :: "bytes \<Rightarrow> nat \<Rightarrow> int \<Rightarrow> int option" where
  "atoi_from s i n =
    (if 48 \<le> s i \<and> s i \<le> 57 then atoi_from s (i + 1) (s32 (n * 10 + uint (s i) - 48)) else Some n)"

definition atoi :: "bytes \<Rightarrow> int option" where
  "atoi s =
    (if s 0 = 45 then map_option (\<lambda>n. s32 (n * -1)) (atoi_from s 1 0)
     else map_option (\<lambda>n. s32 (n * 1)) (atoi_from s 0 0))"

definition umemmove :: "bytes \<Rightarrow> nat \<Rightarrow> nat \<Rightarrow> int \<Rightarrow> bytes" where
  "umemmove m vdst vsrc n = move_up m vdst vsrc (nat n)"

section \<open>What they compute\<close>

text \<open>A byte list as a terminated C string.\<close>

definition cstr :: "byte list \<Rightarrow> bytes" where
  "cstr l = (\<lambda>i. if i < length l then l ! i else 0)"

lemma stosb_apply: "stosb m a c n = (\<lambda>i. if a \<le> i \<and> i < a + n then c else m i)"
  by (induction n arbitrary: m a) (auto simp: fun_eq_iff)

lemma byte_div: "(word_of_nat (unat (w :: 32 word) div 2 ^ k) :: byte) = ucast (drop_bit k w)"
proof -
  have "unat (drop_bit k w) = unat w div 2 ^ k"
    unfolding unat_drop_bit_eq by (rule drop_bit_eq_div)
  then show ?thesis using of_nat_unat [of "drop_bit k w", where ?'a = "byte"] by simp
qed

lemma put32_const:
  "put32 m a (unat (push_bit 24 (c AND 0xFF) OR push_bit 16 (c AND 0xFF) OR push_bit 8 (c AND 0xFF) OR (c AND 0xFF) :: 32 word)) =
     (\<lambda>i. if a \<le> i \<and> i < a + 4 then ucast (c :: 32 word) else m i)"
proof -
  let ?w = "push_bit 24 (c AND 0xFF) OR push_bit 16 (c AND 0xFF) OR push_bit 8 (c AND 0xFF) OR (c AND 0xFF)"
  note shift = byte_div [of ?w]
  have m255: "bit (255 :: 32 word) n \<longleftrightarrow> n < 8" for n
    using bit_mask_iff [of 8 n, where ?'a = "32 word"] by (auto simp: mask_eq_exp_minus_1)
  note bits = bit_unsigned_iff bit_drop_bit_eq bit_or_iff bit_push_bit_iff bit_and_iff m255 o_def
  have "(ucast (drop_bit 0 ?w) :: byte) = ucast c"
    by (rule bit_word_eqI, simp only: bits) auto
  then have d0: "(word_of_nat (unat ?w) :: byte) = ucast c" using shift [of 0] by simp
  have "(ucast (drop_bit 8 ?w) :: byte) = ucast c"
    by (rule bit_word_eqI, simp only: bits) auto
  then have d8: "(word_of_nat (unat ?w div 256) :: byte) = ucast c" using shift [of 8] by simp
  have "(ucast (drop_bit 16 ?w) :: byte) = ucast c"
    by (rule bit_word_eqI, simp only: bits) auto
  then have d16: "(word_of_nat (unat ?w div 65536) :: byte) = ucast c" using shift [of 16] by simp
  have "(ucast (drop_bit 24 ?w) :: byte) = ucast c"
    by (rule bit_word_eqI, simp only: bits) auto
  then have d24: "(word_of_nat (unat ?w div 16777216) :: byte) = ucast c" using shift [of 24] by simp
  show ?thesis unfolding put32_def d0 d8 d16 d24 by (auto simp: fun_eq_iff)
qed

lemma stosl_apply:
  assumes w: "\<And>m a. put32 m a (unat w) = (\<lambda>i. if a \<le> i \<and> i < a + 4 then b else m i)"
  shows "stosl m a w n = (\<lambda>i. if a \<le> i \<and> i < a + 4 * n then b else m i)"
  by (induction n arbitrary: m a) (auto simp: fun_eq_iff w)

lemma memset_apply: "memset m dst c n = (\<lambda>i. if dst \<le> i \<and> i < dst + n then ucast c else m i)"
proof (cases "dst mod 4 = 0 \<and> n mod 4 = 0")
  case True
  then have "4 * (n div 4) = n" by auto
  with True show ?thesis unfolding memset_def Let_def stosl_apply [OF put32_const] by simp
qed (auto simp: memset_def stosb_apply)

lemma move_up_apply:
  "\<not> (s < d \<and> d < s + n) \<Longrightarrow> move_up m d s n = (\<lambda>i. if d \<le> i \<and> i < d + n then m (s + (i - d)) else m i)"
proof (induction n arbitrary: m d s)
  case (Suc n)
  then have "move_up (m(d := m s)) (d + 1) (s + 1) n =
    (\<lambda>i. if d + 1 \<le> i \<and> i < d + 1 + n then (m(d := m s)) (s + 1 + (i - (d + 1))) else (m(d := m s)) i)"
    by (intro Suc.IH) linarith
  with Suc.prems show ?case by (auto simp: fun_eq_iff Suc_diff_Suc)
qed (auto simp: fun_eq_iff)

lemma move_down_apply:
  "s < d \<Longrightarrow> move_down m (d + n) (s + n) n = (\<lambda>i. if d \<le> i \<and> i < d + n then m (s + (i - d)) else m i)"
proof (induction n arbitrary: m)
  case (Suc n)
  have "move_down m (d + Suc n) (s + Suc n) (Suc n) = move_down (m(d + n := m (s + n))) (d + n) (s + n) n" by simp
  also have "\<dots> = (\<lambda>i. if d \<le> i \<and> i < d + n then (m(d + n := m (s + n))) (s + (i - d)) else (m(d + n := m (s + n))) i)"
    using Suc by simp
  also have "\<dots> = (\<lambda>i. if d \<le> i \<and> i < d + Suc n then m (s + (i - d)) else m i)"
    using Suc.prems by (auto simp: fun_eq_iff)
  finally show ?case .
qed (auto simp: fun_eq_iff)

lemma memmove_apply: "memmove m dst src n = (\<lambda>i. if dst \<le> i \<and> i < dst + n then m (src + (i - dst)) else m i)"
  by (auto simp: memmove_def move_down_apply move_up_apply)

lemma memcmp_zero: "memcmp m a b n = 0 \<longleftrightarrow> (\<forall>i<n. m (a + i) = m (b + i))"
proof (induction n arbitrary: a b)
  case (Suc n)
  have "uint (m a) - uint (m b) = 0 \<longleftrightarrow> m a = m b" by (simp add: word_uint_eq_iff)
  with Suc show ?case by (auto simp: All_less_Suc2)
qed simp

lemma strncmp_at_zero:
  "strncmp_at p q i n = 0 \<longleftrightarrow> (\<forall>k<n. p (i + k) = q (i + k) \<or> (\<exists>j<k. p (i + j) = 0))"
proof (induction n arbitrary: i)
  case (Suc n)
  have u: "uint (p i) - uint (q i) = 0 \<longleftrightarrow> p i = q i" by (simp add: word_uint_eq_iff)
  show ?case
  proof (cases "p i \<noteq> 0 \<and> p i = q i")
    case True
    with Suc.IH [of "i + 1"] show ?thesis by (auto simp: All_less_Suc2 Ex_less_Suc2)
  next
    case False
    with u show ?thesis by (auto simp: All_less_Suc2 Ex_less_Suc2)
  qed
qed simp

lemma zero_fill_apply: "zero_fill s i n = (\<lambda>k. if i \<le> k \<and> k < i + n then 0 else s k)"
  by (induction n arbitrary: s i) (auto simp: fun_eq_iff)

lemma strncpy_at_apply:
  "strncpy_at s t i n k = (if i \<le> k \<and> k < i + n then (if \<exists>j. i \<le> j \<and> j \<le> k \<and> t j = 0 then 0 else t k) else s k)"
proof (induction n arbitrary: s i)
  case (Suc n)
  show ?case
  proof (cases "t i = 0")
    case True
    then show ?thesis by (auto simp: zero_fill_apply)
  next
    case False
    have e: "(\<exists>j. i \<le> j \<and> j \<le> k \<and> t j = 0) \<longleftrightarrow> (\<exists>j. i + 1 \<le> j \<and> j \<le> k \<and> t j = 0)"
    proof
      assume "\<exists>j. i \<le> j \<and> j \<le> k \<and> t j = 0"
      then obtain j where j: "i \<le> j" "j \<le> k" "t j = 0" by blast
      with False have "i + 1 \<le> j" by (cases "j = i") simp_all
      with j show "\<exists>j. i + 1 \<le> j \<and> j \<le> k \<and> t j = 0" by blast
    next
      assume "\<exists>j. i + 1 \<le> j \<and> j \<le> k \<and> t j = 0"
      then obtain j where "i + 1 \<le> j" "j \<le> k" "t j = 0" by blast
      then show "\<exists>j. i \<le> j \<and> j \<le> k \<and> t j = 0" by (intro exI [of _ j]) simp
    qed
    show ?thesis using False unfolding e by (auto simp: Suc.IH)
  qed
qed auto

lemma cstr_end [simp]: "length l \<le> i \<Longrightarrow> cstr l i = 0"
  by (simp add: cstr_def)

lemma cstr_nz: "0 \<notin> set l \<Longrightarrow> i < length l \<Longrightarrow> cstr l i \<noteq> 0"
  by (auto simp: cstr_def in_set_conv_nth)

lemma strlen_from_cstr: "0 \<notin> set l \<Longrightarrow> i \<le> length l \<Longrightarrow> strlen_from (cstr l) i = Some (length l)"
proof (induction "length l - i" arbitrary: i)
  case 0
  then show ?case by (simp add: strlen_from.simps [of _ i])
next
  case (Suc k)
  then have "strlen_from (cstr l) (i + 1) = Some (length l)" by (intro Suc.hyps(1)) auto
  then show ?case using Suc.hyps(2) Suc.prems cstr_nz [of l i] by (simp add: strlen_from.simps [of _ i])
qed

lemma strlen_cstr: "0 \<notin> set l \<Longrightarrow> strlen (cstr l) = Some (length l)"
  by (simp add: strlen_def strlen_from_cstr)

lemma strcpy_at_cstr:
  "0 \<notin> set l \<Longrightarrow> j \<le> length l \<Longrightarrow> strcpy_at s (cstr l) i j =
     Some ((\<lambda>k. if i \<le> k \<and> k \<le> i + (length l - j) then cstr l (j + (k - i)) else s k), i + (length l - j))"
proof (induction "length l - j" arbitrary: s i j)
  case 0
  then have "j = length l" by simp
  then show ?case by (subst strcpy_at.simps) (auto simp: fun_eq_iff)
next
  case (Suc k)
  then have j: "j < length l" "cstr l j \<noteq> 0" using cstr_nz by auto
  have "strcpy_at (s(i := cstr l j)) (cstr l) (i + 1) (j + 1) =
    Some ((\<lambda>k. if i + 1 \<le> k \<and> k \<le> i + 1 + (length l - (j + 1)) then cstr l (j + 1 + (k - (i + 1)))
      else (s(i := cstr l j)) k), i + 1 + (length l - (j + 1)))"
    using Suc.hyps(2) Suc.prems(1) j by (intro Suc.hyps(1)) auto
  then show ?case using j by (subst strcpy_at.simps) (auto simp: fun_eq_iff Suc_diff_Suc)
qed

lemma strcmp_at_cstr:
  assumes "0 \<notin> set a" "0 \<notin> set b" "i \<le> length a" "i \<le> length b" "take i a = take i b"
  shows "\<exists>r. strcmp_at (cstr a) (cstr b) i = Some r \<and> (r = 0 \<longleftrightarrow> a = b)"
  using assms
proof (induction "length a - i" arbitrary: i)
  case 0
  then have i: "i = length a" by simp
  have "strcmp_at (cstr a) (cstr b) i = Some (0 - uint (cstr b i))"
    by (subst strcmp_at.simps) (simp add: i)
  moreover have "uint (cstr b i) = 0 \<longleftrightarrow> i = length b"
  proof (cases "i = length b")
    case False
    then have "cstr b i \<noteq> 0" using cstr_nz [of b i] "0.prems"(2,4) by simp
    then show ?thesis using False by (simp add: uint_0_iff)
  qed simp
  moreover have "i = length b \<longleftrightarrow> a = b"
  proof
    assume "i = length b"
    then show "a = b" using "0.prems"(5) i by simp
  qed (simp add: i)
  ultimately show ?case by simp
next
  case (Suc k)
  then have i: "i < length a" "cstr a i \<noteq> 0" using cstr_nz by auto
  show ?case
  proof (cases "cstr a i = cstr b i")
    case True
    then have ib: "i < length b" using i Suc.prems(4) by (cases "i = length b") auto
    have "take (i + 1) a = take (i + 1) b"
      using Suc.prems(5) True i(1) ib by (simp add: take_Suc_conv_app_nth cstr_def)
    then have "\<exists>r. strcmp_at (cstr a) (cstr b) (i + 1) = Some r \<and> (r = 0 \<longleftrightarrow> a = b)"
      using Suc.hyps(2) Suc.prems i ib by (intro Suc.hyps(1)) auto
    then show ?thesis using True i by (subst strcmp_at.simps) simp
  next
    case False
    then have "a \<noteq> b" by auto
    moreover have "uint (cstr a i) - uint (cstr b i) \<noteq> 0" using False by (simp add: word_uint_eq_iff)
    ultimately show ?thesis using False by (subst strcmp_at.simps) simp
  qed
qed

text \<open>Decimal digits and \<open>atoi\<close>.\<close>

definition digit :: "nat \<Rightarrow> byte" where
  "digit d = word_of_nat (48 + d)"

fun dec :: "nat \<Rightarrow> byte list" where
  "dec n = (if n < 10 then [digit n] else dec (n div 10) @ [digit (n mod 10)])"

declare dec.simps [simp del]

lemma uint_digit: "d < 10 \<Longrightarrow> uint (digit d) = 48 + int d"
  unfolding digit_def uint_nat unat_byte_of_nat by simp

lemma digit_range: "d < 10 \<Longrightarrow> 48 \<le> digit d \<and> digit d \<le> 57"
  by (simp add: word_le_def uint_digit)

lemma atoi_from_digits:
  assumes "\<forall>d \<in> set ds. d < 10"
  shows "atoi_from (cstr (xs @ map digit ds)) (length xs) a = Some (foldl (\<lambda>n d. s32 (n * 10 + int d)) a ds)"
  using assms
proof (induction ds arbitrary: xs a)
  case Nil
  then show ?case by (subst atoi_from.simps) simp
next
  case (Cons d ds)
  have e: "cstr (xs @ map digit (d # ds)) (length xs) = digit d" by (simp add: cstr_def nth_append)
  have "atoi_from (cstr ((xs @ [digit d]) @ map digit ds)) (length (xs @ [digit d])) (s32 (a * 10 + int d)) =
      Some (foldl (\<lambda>n d. s32 (n * 10 + int d)) (s32 (a * 10 + int d)) ds)"
    using Cons by (intro Cons.IH) simp
  then show ?case
    using e digit_range [of d] Cons.prems by (subst atoi_from.simps) (simp add: uint_digit)
qed

fun dec_digits :: "nat \<Rightarrow> nat list" where
  "dec_digits n = (if n < 10 then [n] else dec_digits (n div 10) @ [n mod 10])"

declare dec_digits.simps [simp del]

lemma dec_digits_less: "\<forall>d \<in> set (dec_digits n). d < 10"
proof (induction n rule: dec_digits.induct)
  case (1 n)
  then show ?case by (subst dec_digits.simps) auto
qed

lemma dec_digits: "dec n = map digit (dec_digits n)"
proof (induction n rule: dec_digits.induct)
  case (1 n)
  then show ?case by (subst dec.simps, subst dec_digits.simps) auto
qed

lemma foldl_dec: "n < 2147483648 \<Longrightarrow> foldl (\<lambda>n d. s32 (n * 10 + int d)) 0 (dec_digits n) = int n"
proof (induction n rule: dec_digits.induct)
  case (1 n)
  have "int (n div 10) * 10 + int (n mod 10) = int n"
    using div_mult_mod_eq [of n 10] by (metis of_nat_add of_nat_mult of_nat_numeral)
  with 1 show ?case by (subst dec_digits.simps) auto
qed

section \<open>Properties\<close>

text \<open>\<open>memmove\<close> copies the source region as it was before the call, whichever way the regions
  overlap, and changes no other byte.\<close>

theorem memmove_copies:
  "memmove m dst src n a = (if dst \<le> a \<and> a < dst + n then m (src + (a - dst)) else m a)"
  by (simp add: memmove_apply)

text \<open>\<open>memset\<close> gives the same result through its word loop as through its byte loop: every byte of
  the region is the low byte of \<open>c\<close> and no other byte changes.\<close>

theorem memset_fills: "memset m dst c n a = (if dst \<le> a \<and> a < dst + n then ucast c else m a)"
  by (simp add: memset_apply)

text \<open>\<open>strncpy\<close> and \<open>strncmp\<close> agree on directory names: after \<open>strncpy(d, s, n)\<close>, comparing any
  string with \<open>d\<close> over \<open>n\<close> bytes gives zero exactly when comparing it with \<open>s\<close> does.\<close>

theorem strncmp_strncpy: "strncmp p (strncpy d s (int n)) n = 0 \<longleftrightarrow> strncmp p s n = 0"
proof -
  define t where "t = strncpy d s (int n)"
  have t: "t k = (if \<exists>j\<le>k. s j = 0 then 0 else s k)" if "k < n" for k
    using that by (simp add: t_def strncpy_def strncpy_at_apply)
  have zero: "\<exists>j<k. p j = 0" if u: "\<forall>k<n. p k = u k \<or> (\<exists>j<k. p j = 0)" "k < n" "\<exists>j<k. s j = 0"
    and eq: "\<And>j. j < n \<Longrightarrow> s j = 0 \<Longrightarrow> u j = 0" for u k
  proof -
    obtain j where j: "j < k" "s j = 0" using u(3) by blast
    then have "j < n" using u(2) by simp
    then have "p j = u j \<or> (\<exists>i<j. p i = 0)" using u(1) by blast
    then have "p j = 0 \<or> (\<exists>i<j. p i = 0)" using eq [OF \<open>j < n\<close> j(2)] by simp
    then show ?thesis using j(1) by (auto intro: less_trans)
  qed
  have same: "t k = s k" if "k < n" "\<not> (\<exists>j<k. s j = 0)" for k
    using t [OF that(1)] that(2) by (auto simp: le_less)
  have tz: "t j = 0" if "j < n" "s j = 0" for j using t [OF that(1)] that(2) by auto
  have "(\<forall>k<n. p k = t k \<or> (\<exists>j<k. p j = 0)) \<longleftrightarrow> (\<forall>k<n. p k = s k \<or> (\<exists>j<k. p j = 0))" (is "?L \<longleftrightarrow> ?R")
  proof
    assume L: ?L
    show ?R
    proof (intro allI impI)
      fix k assume k: "k < n"
      show "p k = s k \<or> (\<exists>j<k. p j = 0)"
      proof (cases "\<exists>j<k. s j = 0")
        case True
        from zero [OF L k True tz] show ?thesis ..
      next
        case False
        from same [OF k False] L k show ?thesis by metis
      qed
    qed
  next
    assume R: ?R
    show ?L
    proof (intro allI impI)
      fix k assume k: "k < n"
      show "p k = t k \<or> (\<exists>j<k. p j = 0)"
      proof (cases "\<exists>j<k. s j = 0")
        case True
        have "\<exists>j<k. p j = 0" by (rule zero [OF R k True])
        then show ?thesis ..
      next
        case False
        from same [OF k False] R k show ?thesis by metis
      qed
    qed
  qed
  then show ?thesis by (simp add: strncmp_def strncmp_at_zero t_def)
qed

text \<open>\<open>atoi\<close> reads back every \<open>int\<close> written in decimal, with or without sign.\<close>

theorem atoi_dec:
  assumes "n < 2147483648"
  shows "atoi (cstr (dec n)) = Some (int n) \<and> atoi (cstr (45 # dec n)) = Some (- int n)"
proof -
  have d: "atoi_from (cstr (xs @ dec n)) (length xs) 0 = Some (int n)" for xs
    using atoi_from_digits [OF dec_digits_less, of xs n 0] foldl_dec [OF assms] by (simp add: dec_digits)
  have "cstr (dec n) 0 \<noteq> 45"
  proof -
    have "dec_digits n \<noteq> []" by (subst dec_digits.simps) simp
    then obtain e es where e: "dec_digits n = e # es" by (cases "dec_digits n") auto
    then have "e < 10" using dec_digits_less [of n] by simp
    then have "48 \<le> digit e" by (rule digit_range [THEN conjunct1])
    then have "digit e \<noteq> 45" by auto
    then show ?thesis using e by (simp add: dec_digits cstr_def)
  qed
  moreover have "cstr (45 # dec n) 0 = 45" by (simp add: cstr_def)
  ultimately show ?thesis using d [of "[]"] d [of "[45]"] assms by (simp add: atoi_def)
qed

theorem atoi_dec_witness: "atoi (cstr (dec 1984)) = Some 1984 \<and> atoi (cstr (45 # dec 7)) = Some (- 7)"
  using atoi_dec [of 1984] atoi_dec [of 7] by simp

end
