(* ===== verification/Log.thy ===== *)
theory Log
  imports Bio
begin

text \<open>
  The write-ahead log of \<open>log.c\<close>, on top of the buffer cache.

  \<open>log_st\<close> extends the state by \<open>struct log\<close>: \<open>log_start\<close> is the bit pattern of \<open>log.start\<close>
  (block numbers are \<open>uint\<close>s wherever it is used), \<open>log_size\<close> and \<open>lh_n\<close> are signed.  The array
  \<open>log.lh.sector\<close> is a function; the theorems keep its index below \<open>LOGSIZE\<close>.

  Shown: what each operation does to the disk, that \<open>log_write\<close> keeps the invariant of a
  transaction and leaves every home block on the disk alone, that \<open>commit_trans\<close> returns, and that
  after a crash at any point the code that runs at boot gives all or nothing of a transaction.
\<close>

section \<open>The superblock\<close>

record superblock =
  sb_size :: nat
  sb_nblocks :: nat
  sb_ninodes :: nat
  sb_nlog :: nat

definition decode_sb :: "bytes \<Rightarrow> superblock" where
  "decode_sb d = \<lparr>sb_size = get32 d 0, sb_nblocks = get32 d 4, sb_ninodes = get32 d 8, sb_nlog = get32 d 12\<rparr>"

definition readsb :: "nat \<Rightarrow> ('z bio_scheme, superblock) kern" where
  "readsb dev =
    kbind (bread dev 1) (\<lambda>bp.
    kbind (buf_data bp) (\<lambda>d.
    kthen (brelse bp) (
    kret (decode_sb d))))"

section \<open>log.c\<close>

definition LOGSIZE :: nat where "LOGSIZE = 10"

record log_st = bio +
  log_start :: nat
  log_size :: int
  log_busy :: bool
  log_dev :: nat
  lh_n :: int
  lh_sector :: "nat \<Rightarrow> nat"

fun install_trans_from :: "nat list \<Rightarrow> ('z log_st_scheme, unit) kern" where
  "install_trans_from [] = kret ()"
| "install_trans_from (tail # ts) =
    kbind (kget (\<lambda>s. s)) (\<lambda>s.
    kbind (bread (log_dev s) (u32 (log_start s + tail + 1))) (\<lambda>lbuf.
    kbind (bread (log_dev s) (lh_sector s tail)) (\<lambda>dbuf.
    kbind (buf_data lbuf) (\<lambda>d.
    kthen (set_data dbuf (\<lambda>_. d)) (
    kthen (bwrite dbuf) (
    kthen (brelse lbuf) (
    kthen (brelse dbuf) (
    install_trans_from ts))))))))"

definition install_trans :: "('z log_st_scheme, unit) kern" where
  "install_trans = kbind (kget lh_n) (\<lambda>n. install_trans_from [0..<nat n])"

text \<open>The two loops that copy \<open>sector[i]\<close> between the header block and memory.\<close>

fun head_get :: "nat list \<Rightarrow> bytes \<Rightarrow> (nat \<Rightarrow> nat) \<Rightarrow> (nat \<Rightarrow> nat)" where
  "head_get [] d sec = sec"
| "head_get (i # is) d sec = head_get is d (sec(i := get32 d (4 + 4 * i)))"

fun head_put :: "nat list \<Rightarrow> (nat \<Rightarrow> nat) \<Rightarrow> bytes \<Rightarrow> bytes" where
  "head_put [] sec d = d"
| "head_put (i # is) sec d = head_put is sec (put32 d (4 + 4 * i) (sec i))"

definition read_head :: "('z log_st_scheme, unit) kern" where
  "read_head =
    kbind (kget (\<lambda>s. s)) (\<lambda>s.
    kbind (bread (log_dev s) (log_start s)) (\<lambda>b.
    kbind (buf_data b) (\<lambda>d.
    kthen (kmod (\<lambda>s. s\<lparr>lh_n := s32 (int (get32 d 0))\<rparr>)) (
    kthen (kmod (\<lambda>s. s\<lparr>lh_sector := head_get [0..<nat (lh_n s)] d (lh_sector s)\<rparr>)) (
    brelse b)))))"

definition write_head :: "('z log_st_scheme, unit) kern" where
  "write_head =
    kbind (kget (\<lambda>s. s)) (\<lambda>s.
    kbind (bread (log_dev s) (log_start s)) (\<lambda>b.
    kthen (set_data b (\<lambda>d. put32 d 0 (nat (lh_n s mod 4294967296)))) (
    kthen (set_data b (head_put [0..<nat (lh_n s)] (lh_sector s))) (
    kthen (bwrite b) (
    brelse b)))))"

definition recover_from_log :: "('z log_st_scheme, unit) kern" where
  "recover_from_log =
    kthen read_head (
    kthen install_trans (
    kthen (kmod (\<lambda>s. s\<lparr>lh_n := 0\<rparr>)) (
    write_head)))"

text \<open>\<open>sizeof(struct logheader)\<close> is 44, so the first \<open>panic\<close> of \<open>initlog\<close> is never taken.\<close>

definition initlog :: "('z log_st_scheme, unit) kern" where
  "initlog =
    (if 4 + 4 * LOGSIZE \<ge> BSIZE then kpanic ''initlog: too big logheader''
     else
       kbind (readsb ROOTDEV) (\<lambda>sb.
       kthen (kmod (\<lambda>s. s\<lparr>log_start := u32 (sb_size sb + 4294967296 - sb_nlog sb)\<rparr>)) (
       kthen (kmod (\<lambda>s. s\<lparr>log_size := s32 (int (sb_nlog sb))\<rparr>)) (
       kthen (kmod (\<lambda>s. s\<lparr>log_dev := ROOTDEV\<rparr>)) (
       recover_from_log)))))"

definition begin_trans :: "('z log_st_scheme, unit) kern" where
  "begin_trans =
    kthen (acquire_lk LK_log) (
    kbind (kget log_busy) (\<lambda>busy.
    if busy then sleep Ch_log LK_log
    else
      kthen (kmod (\<lambda>s. s\<lparr>log_busy := True\<rparr>)) (
      release_lk LK_log)))"

definition commit_trans :: "('z log_st_scheme, unit) kern" where
  "commit_trans =
    kbind (kget lh_n) (\<lambda>n.
    kthen (kwhen (n > 0) (
      kthen write_head (
      kthen install_trans (
      kthen (kmod (\<lambda>s. s\<lparr>lh_n := 0\<rparr>)) (
      write_head))))) (
    kthen (acquire_lk LK_log) (
    kthen (kmod (\<lambda>s. s\<lparr>log_busy := False\<rparr>)) (
    kthen (wakeup Ch_log) (
    release_lk LK_log)))))"

text \<open>The search for a block already logged: the index where the loop of \<open>log_write\<close> stops.\<close>

fun log_index :: "nat \<Rightarrow> (nat \<Rightarrow> nat) \<Rightarrow> nat list \<Rightarrow> nat \<Rightarrow> nat" where
  "log_index sec sector [] n = n"
| "log_index sec sector (i # is) n = (if sector i = sec then i else log_index sec sector is n)"

definition log_write :: "nat \<Rightarrow> ('z log_st_scheme, unit) kern" where
  "log_write b =
    kbind (kget (\<lambda>s. s)) (\<lambda>s.
    if lh_n s \<ge> int LOGSIZE \<or> lh_n s \<ge> log_size s - 1 then kpanic ''too big a transaction''
    else if \<not> log_busy s then kpanic ''write outside of trans''
    else
      kbind (kget (\<lambda>s. bufs s b)) (\<lambda>bp.
      kbind (kret (log_index (b_sector bp) (lh_sector s) [0..<nat (lh_n s)] (nat (lh_n s)))) (\<lambda>i.
      kthen (kmod (\<lambda>s. s\<lparr>lh_sector := (lh_sector s)(i := b_sector bp)\<rparr>)) (
      kbind (bread (b_dev bp) (u32 (log_start s + i + 1))) (\<lambda>lbuf.
      kbind (buf_data b) (\<lambda>d.
      kthen (set_data lbuf (\<lambda>_. d)) (
      kthen (bwrite lbuf) (
      kthen (brelse lbuf) (
      kthen (kwhen (int i = lh_n s) (kmod (\<lambda>s. s\<lparr>lh_n := lh_n s + 1\<rparr>))) (
      set_buf b (\<lambda>x. x\<lparr>b_dirty := True\<rparr>)))))))))))"

section \<open>Weakest preconditions\<close>

lemma log_frame_fields:
  assumes "bio_frame s t"
  shows "log_start t = log_start s" and "log_size t = log_size s" and "log_busy t = log_busy s"
    and "log_dev t = log_dev s" and "lh_n t = lh_n s" and "lh_sector t = lh_sector s"
  using assms [unfolded bio_frame_def, THEN arg_cong, of log_start]
    assms [unfolded bio_frame_def, THEN arg_cong, of log_size]
    assms [unfolded bio_frame_def, THEN arg_cong, of log_busy]
    assms [unfolded bio_frame_def, THEN arg_cong, of log_dev]
    assms [unfolded bio_frame_def, THEN arg_cong, of lh_n]
    assms [unfolded bio_frame_def, THEN arg_cong, of lh_sector]
  by (simp_all add: bio_erase_def)

lemma wp_readsb:
  assumes "can_read s 1" and "\<And>t. ro_post s t \<Longrightarrow> Q (decode_sb (view s 1)) t"
  shows "wp (readsb ROOTDEV) Q s"
  unfolding readsb_def using assms by (intro wp_read_block) simp_all

text \<open>The header block written for the header in memory.\<close>

definition head_block :: "int \<Rightarrow> (nat \<Rightarrow> nat) \<Rightarrow> bytes \<Rightarrow> bytes" where
  "head_block n sec d = head_put [0..<nat n] sec (put32 d 0 (nat (n mod 4294967296)))"

lemma wp_write_head:
  assumes "can_read s (log_start s)" and "log_dev s = ROOTDEV"
    and "\<And>t. wr_post s (log_start s) (head_block (lh_n s) (lh_sector s) (view s (log_start s))) t \<Longrightarrow> Q () t"
  shows "wp write_head Q s"
proof -
  have "wp (kbind (bread ROOTDEV (log_start s)) (\<lambda>b. kthen (set_data b (head_block (lh_n s) (lh_sector s)))
    (kthen (bwrite b) (kthen (brelse b) (kret ()))))) Q s"
    using assms by (intro wp_write_block) simp_all
  then show ?thesis
    using assms(2) by (simp add: write_head_def set_data_twice head_block_def [abs_def] del: wp_kthen)
      (simp add: wp_iff)
qed

lemma head_get_apply: "head_get is d sec i = (if i \<in> set is then get32 d (4 + 4 * i) else sec i)"
  by (induction "is" arbitrary: sec) auto

lemma get32_head_put:
  assumes "\<And>j. j \<in> set is \<Longrightarrow> sec j < 4294967296"
  shows "get32 (head_put is sec d) (4 + 4 * i) = (if i \<in> set is then sec i else get32 d (4 + 4 * i))"
  using assms
proof (induction "is" sec d rule: head_put.induct)
  case (2 j js sec d)
  then show ?case
    by (cases "j = i") (auto simp: nat_neq_iff)
qed simp

lemma get32_head_put_n: "get32 (head_put is sec d) 0 = get32 d 0"
  by (induction "is" sec d rule: head_put.induct) simp_all

lemma head_block_n: "0 \<le> n \<Longrightarrow> n < 2147483648 \<Longrightarrow> get32 (head_block n sec d) 0 = nat n"
  by (simp add: head_block_def get32_head_put_n nat_less_iff)

lemma head_block_sec:
  "(\<And>j. j < nat n \<Longrightarrow> sec j < 4294967296) \<Longrightarrow> i < nat n \<Longrightarrow> get32 (head_block n sec d) (4 + 4 * i) = sec i"
  using get32_head_put [of "[0..<nat n]" sec "put32 d 0 (nat (n mod 4294967296))" i] by (simp add: head_block_def)

text \<open>The cache does not depend on the fields of \<open>struct log\<close>.\<close>

lemmas cache_log_start [simp] = cache_cong [of "s\<lparr>log_start := x\<rparr>" s, simplified]
  can_read_cong [of "s\<lparr>log_start := x\<rparr>" s, simplified] for s x
lemmas cache_log_size [simp] = cache_cong [of "s\<lparr>log_size := x\<rparr>" s, simplified]
  can_read_cong [of "s\<lparr>log_size := x\<rparr>" s, simplified] for s x
lemmas cache_log_busy [simp] = cache_cong [of "s\<lparr>log_busy := x\<rparr>" s, simplified]
  can_read_cong [of "s\<lparr>log_busy := x\<rparr>" s, simplified] for s x
lemmas cache_log_dev [simp] = cache_cong [of "s\<lparr>log_dev := x\<rparr>" s, simplified]
  can_read_cong [of "s\<lparr>log_dev := x\<rparr>" s, simplified] for s x
lemmas cache_lh_n [simp] = cache_cong [of "s\<lparr>lh_n := x\<rparr>" s, simplified]
  can_read_cong [of "s\<lparr>lh_n := x\<rparr>" s, simplified] for s x
lemmas cache_lh_sector [simp] = cache_cong [of "s\<lparr>lh_sector := x\<rparr>" s, simplified]
  can_read_cong [of "s\<lparr>lh_sector := x\<rparr>" s, simplified] for s x

lemma bio_frame_log:
  assumes "bio_frame s t"
  shows "bio_frame (s\<lparr>lh_n := z\<rparr>) (t\<lparr>lh_n := z\<rparr>)" and "bio_frame (s\<lparr>lh_sector := f\<rparr>) (t\<lparr>lh_sector := f\<rparr>)"
    and "bio_frame (s\<lparr>lh_n := z, lh_sector := f\<rparr>) (t\<lparr>lh_n := z, lh_sector := f\<rparr>)"
proof -
  have e: "bio_erase (x\<lparr>lh_n := z\<rparr>) = (bio_erase x)\<lparr>lh_n := z\<rparr>"
    "bio_erase (x\<lparr>lh_sector := f\<rparr>) = (bio_erase x)\<lparr>lh_sector := f\<rparr>" for x :: "'a log_st_scheme" and z f
    by (simp_all add: bio_erase_def)
  show "bio_frame (s\<lparr>lh_n := z\<rparr>) (t\<lparr>lh_n := z\<rparr>)" "bio_frame (s\<lparr>lh_sector := f\<rparr>) (t\<lparr>lh_sector := f\<rparr>)"
    "bio_frame (s\<lparr>lh_n := z, lh_sector := f\<rparr>) (t\<lparr>lh_n := z, lh_sector := f\<rparr>)"
    using assms by (simp_all add: bio_frame_def e)
qed

lemma wp_read_head:
  assumes c: "can_read s (log_start s)" and dev: "log_dev s = ROOTDEV"
    and n: "n = s32 (int (get32 (view s (log_start s)) 0))"
    and Q: "\<And>u. ro_post (s\<lparr>lh_n := n,
      lh_sector := head_get [0..<nat n] (view s (log_start s)) (lh_sector s)\<rparr>) u \<Longrightarrow> Q () u"
  shows "wp read_head Q s"
proof -
  let ?sec = "log_start s" and ?d = "view s (log_start s)"
  let ?f = "\<lambda>t :: 'a log_st_scheme. t\<lparr>lh_n := n, lh_sector := head_get [0..<nat n] ?d (lh_sector s)\<rparr>"
  from c have s: "bio_inv s" "LK_bcache \<notin> held s" "LK_ptable \<notin> held s" "?sec \<notin> busy_secs s"
    by (simp_all add: can_read_def)
  have "wp (brelse b) Q (?f t)" if p: "bread_post s ?sec b t" for b t
  proof (rule wp_brelse)
    show "bio_inv (?f t)" "owns (?f t) b ?sec" using p by (simp_all add: bread_post_def)
    show "LK_bcache \<notin> held (?f t)" "LK_ptable \<notin> held (?f t)"
      using p s bio_frame_fields(1) [of s t] by (auto simp: bread_post_def)
    show "?sec \<in> dirty_secs (?f t) \<or> view (?f t) ?sec = disk (?f t) ?sec"
      using view_clean [OF s(1), of ?sec] s(4) p by (auto simp: bread_post_def)
    fix u assume u: "brelse_post (?f t) ?sec u"
    have "owns u b' sec'" if "owns s b' sec'" for b' sec'
    proof -
      have "sec' \<noteq> ?sec" using owns_busy [OF that] s(4) by auto
      moreover have "owns t b' sec'" using p that by (simp add: bread_post_def)
      ultimately show ?thesis using u by (simp add: brelse_post_def keeps_owned_def)
    qed
    then have "keeps_owned (?f s) u {}" by (simp add: keeps_owned_def)
    moreover have "bio_frame (?f s) u"
      using p u bio_frame_log(3) [of s t] by (auto simp: bread_post_def brelse_post_def bio_frame_def)
    ultimately have "ro_post (?f s) u"
      using p u s(4) by (auto simp: ro_post_def bread_post_def brelse_post_def)
    then show "Q () u" by (rule Q)
  qed
  moreover have "b_data (bufs t b) = ?d" "lh_sector t = lh_sector s" if "bread_post s ?sec b t" for b t
    using that owns_data [of t b ?sec] log_frame_fields(6) [of s t] by (auto simp: bread_post_def)
  ultimately have "wp (bread ROOTDEV ?sec) (\<lambda>b t. wp (brelse b) Q
      (t\<lparr>lh_n := s32 (int (get32 (b_data (bufs t b)) 0)),
         lh_sector := head_get [0..<nat (s32 (int (get32 (b_data (bufs t b)) 0)))] (b_data (bufs t b)) (lh_sector t)\<rparr>)) s"
    using c n by (intro wp_bread) (auto simp: can_read_def)
  then show ?thesis
    using dev by (simp add: read_head_def buf_data_def)
qed

text \<open>One round of \<open>install_trans\<close>: the log block goes to its home block.\<close>

lemma wp_install_step:
  assumes l: "can_read s l" and h: "h < disksize s" "h \<notin> busy_secs s" "h \<noteq> l"
    and cap: "h \<in> dirty_secs s \<or> card (insert l (dirty_secs s \<union> busy_secs s)) < NBUF"
    and m: "\<And>t. wr_post s h (view s l) t \<Longrightarrow> wp m Q t"
  shows "wp (kbind (bread ROOTDEV l) (\<lambda>lbuf.
    kbind (bread ROOTDEV h) (\<lambda>dbuf.
    kbind (buf_data lbuf) (\<lambda>d.
    kthen (set_data dbuf (\<lambda>_. d)) (kthen (bwrite dbuf) (kthen (brelse lbuf) (kthen (brelse dbuf) m))))))) Q s"
proof -
  from l have s: "bio_inv s" "LK_bcache \<notin> held s" "LK_ptable \<notin> held s" "l < disksize s" "l \<notin> busy_secs s"
    "l \<in> dirty_secs s \<or> card (dirty_secs s \<union> busy_secs s) < NBUF"
    by (simp_all add: can_read_def)
  have hl: "l \<in> dirty_secs s \<or> view s l = disk s l" using view_clean [OF s(1)] s(5) by blast
  show ?thesis
    unfolding wp_kbind wp_kthen
  proof (rule wp_bread [OF s(1,2,4,5,6)], rule wp_bread)
    fix b1 t1 assume p1: "bread_post s l b1 t1"
    note p1' = p1 [unfolded bread_post_def]
    have h1: "held t1 = held s" "disksize t1 = disksize s" using p1' bio_frame_fields [of s t1] by auto
    show "bio_inv t1" "LK_bcache \<notin> held t1" "h < disksize t1" "h \<notin> busy_secs t1"
      using p1' h1 s h by auto
    show "h \<in> dirty_secs t1 \<or> card (dirty_secs t1 \<union> busy_secs t1) < NBUF"
      using p1' cap by auto
    fix b2 t2 assume p2: "bread_post t1 h b2 t2"
    note p2' = p2 [unfolded bread_post_def]
    have o: "owns t2 b1 l" "owns t2 b2 h" using p1' p2' by auto
    have d: "b_data (bufs t2 b1) = view s l" using owns_data [of t2 b1 l] o p1' p2' by auto
    have "wp (set_data b2 (\<lambda>_. view s l)) (\<lambda>_. wp (bwrite b2) (\<lambda>_. wp (brelse b1) (\<lambda>_. wp (brelse b2) (\<lambda>_. wp m Q)))) t2"
    proof (rule wp_set_data, use o p2' in blast, use o in blast, rule wp_bwrite)
      fix t3 assume p3: "set_data_post t2 h (\<lambda>_. view s l) t3"
      note p3' = p3 [unfolded set_data_post_def keeps_owned_def]
      show "bio_inv t3" "owns t3 b2 h" using p3' o by auto
      fix t4 assume p4: "bwrite_post t3 h t4"
      note p4' = p4 [unfolded bwrite_post_def keeps_owned_def]
      have f4: "bio_frame s t4" using p1' p2' p3' p4' by (auto simp: bio_frame_def)
      have v4: "view t4 = (view s)(h := view s l)" "disk t4 = (disk s)(h := view s l)"
        "disk_writes t4 = disk_writes s @ [(h, view s l)]" "dirty_secs t4 = dirty_secs s - {h}"
        "busy_secs t4 = insert h (insert l (busy_secs s))"
        using p1' p2' p3' p4' by auto
      show "wp (brelse b1) (\<lambda>_. wp (brelse b2) (\<lambda>_. wp m Q)) t4"
      proof (rule wp_brelse)
        show "bio_inv t4" "owns t4 b1 l" using p4' p3' o by auto
        show "LK_bcache \<notin> held t4" "LK_ptable \<notin> held t4"
          using s bio_frame_fields(1) [OF f4] by auto
        show "l \<in> dirty_secs t4 \<or> view t4 l = disk t4 l" using v4 hl h(3) by auto
        fix t5 assume p5: "brelse_post t4 l t5"
        note p5' = p5 [unfolded brelse_post_def keeps_owned_def]
        have f5: "bio_frame s t5" using f4 p5' by (auto simp: bio_frame_def)
        show "wp (brelse b2) (\<lambda>_. wp m Q) t5"
        proof (rule wp_brelse)
          show "bio_inv t5" "owns t5 b2 h" using p5' p4' p3' o h(3) by auto
          show "LK_bcache \<notin> held t5" "LK_ptable \<notin> held t5"
            using s bio_frame_fields(1) [OF f5] by auto
          show "h \<in> dirty_secs t5 \<or> view t5 h = disk t5 h" using v4 p5' by auto
          fix t6 assume p6: "brelse_post t5 h t6"
          note p6' = p6 [unfolded brelse_post_def keeps_owned_def]
          have "owns t6 b sec" if own: "owns s b sec" for b sec
          proof -
            have "sec \<noteq> l" "sec \<noteq> h" using owns_busy [OF own] s(5) h(2) by auto
            then show ?thesis using own p1' p2' p3' p4' p5' p6' by simp
          qed
          then have "wr_post s h (view s l) t6"
            using p6' p5' v4 f5 s(5) h by (auto simp: wr_post_def keeps_owned_def bio_frame_def)
          then show "wp m Q t6" by (rule m)
        qed
      qed
    qed
    then show "wp (buf_data b1) (\<lambda>d. wp (set_data b2 (\<lambda>_. d))
      (\<lambda>_. wp (bwrite b2) (\<lambda>_. wp (brelse b1) (\<lambda>_. wp (brelse b2) (\<lambda>_. wp m Q))))) t2"
      using d by (simp add: buf_data_def)
  qed
qed

section \<open>Sequences of disk writes\<close>

fun apply_writes :: "(nat \<times> bytes) list \<Rightarrow> (nat \<Rightarrow> bytes) \<Rightarrow> nat \<Rightarrow> bytes" where
  "apply_writes [] D = D"
| "apply_writes ((b, d) # ws) D = apply_writes ws (D(b := d))"

lemma apply_writes_append [simp]: "apply_writes (v @ w) D = apply_writes w (apply_writes v D)"
  by (induction v arbitrary: D) (auto split: prod.split)

lemma apply_writes_other: "b \<notin> fst ` set ws \<Longrightarrow> apply_writes ws D b = D b"
  by (induction ws arbitrary: D) auto

lemma apply_writes_last:
  assumes "b \<in> fst ` set ws" and "\<And>d. (b, d) \<in> set ws \<Longrightarrow> d = x"
  shows "apply_writes ws D b = x"
  using assms
proof (induction ws arbitrary: D)
  case (Cons w ws)
  then show ?case by (cases w; cases "b \<in> fst ` set ws") (auto simp: apply_writes_other)
qed simp

definition wrs_post :: "'z bio_scheme \<Rightarrow> (nat \<times> bytes) list \<Rightarrow> 'z bio_scheme \<Rightarrow> bool" where
  "wrs_post s W t \<longleftrightarrow> bio_inv t \<and> bio_frame s t \<and> view t = apply_writes W (view s) \<and>
     disk t = apply_writes W (disk s) \<and> disk_writes t = disk_writes s @ W \<and>
     dirty_secs t = dirty_secs s - fst ` set W \<and> busy_secs t = busy_secs s \<and> keeps_owned s t {}"

lemma wrs_post_wr: "wr_post s b d t \<longleftrightarrow> wrs_post s [(b, d)] t"
  by (simp add: wr_post_def wrs_post_def)

lemma wrs_post_nil: "bio_inv s \<Longrightarrow> wrs_post s [] s"
  by (simp add: wrs_post_def keeps_owned_def)

lemma wrs_post_trans: "wrs_post s V t \<Longrightarrow> wrs_post t W u \<Longrightarrow> wrs_post s (V @ W) u"
  by (auto simp: wrs_post_def keeps_owned_def bio_frame_def)

section \<open>The invariant of the log\<close>

definition in_log :: "'z log_st_scheme \<Rightarrow> nat \<Rightarrow> bool" where
  "in_log s sec \<longleftrightarrow> log_start s \<le> sec \<and> sec < log_start s + nat (log_size s)"

definition log_layout :: "'z log_st_scheme \<Rightarrow> bool" where
  "log_layout s \<longleftrightarrow> log_dev s = ROOTDEV \<and> 2 \<le> log_size s \<and> log_size s \<le> int LOGSIZE \<and> 1 < log_start s \<and>
     log_start s + nat (log_size s) \<le> disksize s \<and> disksize s < 4294967296 \<and>
     sb_nlog (decode_sb (disk s 1)) = nat (log_size s) \<and>
     sb_size (decode_sb (disk s 1)) = log_start s + nat (log_size s)"

text \<open>The blocks a header may name: home blocks other than the superblock.\<close>

definition loggable :: "'z log_st_scheme \<Rightarrow> nat \<Rightarrow> bool" where
  "loggable s sec \<longleftrightarrow> \<not> in_log s sec \<and> sec < disksize s \<and> sec \<noteq> 1"

definition heads :: "'z log_st_scheme \<Rightarrow> nat list" where
  "heads s = [0..<nat (lh_n s)]"

text \<open>The writes that install the transaction described by the header in memory.\<close>

definition installs :: "'z log_st_scheme \<Rightarrow> nat list \<Rightarrow> (nat \<times> bytes) list" where
  "installs s is = map (\<lambda>i. (lh_sector s i, view s (log_start s + i + 1))) is"

lemma fst_installs [simp]: "fst ` set (installs s is) = lh_sector s ` set is"
  by (auto simp: installs_def image_iff)

lemma wp_install_from:
  assumes "log_layout s" "bio_inv s" "LK_bcache \<notin> held s" "LK_ptable \<notin> held s" "busy_secs s = {}"
    and "card (dirty_secs s) < NBUF" and "inj_on (lh_sector s) (set is)" and "distinct is"
    and "\<And>i. i \<in> set is \<Longrightarrow> int i + 1 < log_size s \<and> loggable s (lh_sector s i)"
    and "\<And>sec. sec \<in> dirty_secs s \<Longrightarrow> \<not> in_log s sec"
    and "card (dirty_secs s) + 1 < NBUF \<or> lh_sector s ` set is \<subseteq> dirty_secs s"
    and "\<And>t. wrs_post s (installs s is) t \<Longrightarrow> Q () t"
  shows "wp (install_trans_from is) Q s"
  using assms
proof (induction "is" arbitrary: s)
  case Nil
  then show ?case by (simp add: installs_def wrs_post_nil)
next
  case (Cons i "is")
  let ?l = "log_start s + i + 1" and ?h = "lh_sector s i"
  note A = Cons.prems
  have i: "int i + 1 < log_size s" "loggable s ?h" using A(9) [of i] by auto
  have l: "in_log s ?l" "?l < disksize s" "u32 ?l = ?l"
    using i A(1) by (auto simp: in_log_def log_layout_def)
  have fin: "finite (dirty_secs s)" by (rule finite_dirty)
  have "wp (install_trans_from is) Q t" if w: "wr_post s ?h (view s ?l) t" for t
  proof -
    note w' = w [unfolded wr_post_def]
    have f: "log_start t = log_start s" "log_size t = log_size s" "log_dev t = log_dev s"
      "lh_sector t = lh_sector s" "held t = held s" "disksize t = disksize s"
      using w' log_frame_fields [of s t] bio_frame_fields [of s t] by auto
    have lt: "in_log t = in_log s" "loggable t = loggable s"
      by (auto simp: in_log_def loggable_def f fun_eq_iff)
    have ll: "log_layout t"
      using A(1) w' i(2) by (auto simp: log_layout_def f loggable_def)
    have "log_start s + j + 1 \<noteq> ?h" if "j \<in> set is" for j
      using A(9) [of j] that i(2) by (auto simp: loggable_def in_log_def)
    then have inst: "installs t is = installs s is"
      using w' by (auto simp: installs_def f)
    have cd: "card (dirty_secs t) \<le> card (dirty_secs s)"
      using w' fin by (auto intro: card_mono)
    show ?thesis
    proof (rule Cons.IH)
      show "log_layout t" "bio_inv t" "LK_bcache \<notin> held t" "LK_ptable \<notin> held t" "busy_secs t = {}"
        using ll w' A f by auto
      show "card (dirty_secs t) < NBUF" using cd A(6) by simp
      show "inj_on (lh_sector t) (set is)" "distinct is" using A(7,8) by (auto simp: f)
      show "int j + 1 < log_size t \<and> loggable t (lh_sector t j)" if "j \<in> set is" for j
        using A(9) [of j] that by (simp add: f lt)
      show "\<not> in_log t sec" if "sec \<in> dirty_secs t" for sec using that A(10) w' by (auto simp: lt)
      show "card (dirty_secs t) + 1 < NBUF \<or> lh_sector t ` set is \<subseteq> dirty_secs t"
        using A(7,8,11) w' cd by (auto simp: f inj_on_def)
      show "Q () u" if "wrs_post t (installs t is) u" for u
        using A(12) wrs_post_trans [OF w [unfolded wrs_post_wr] that]
        by (simp add: inst) (simp add: installs_def)
    qed
  qed
  moreover have "can_read s ?l"
    using A(2-6) l by (auto simp: can_read_def)
  moreover have "?h \<noteq> ?l" "?h < disksize s" using i(2) l(1) by (auto simp: loggable_def)
  moreover have "?h \<in> dirty_secs s \<or> card (insert ?l (dirty_secs s \<union> busy_secs s)) < NBUF"
    using A(5,11) fin by (auto simp: card_insert_if)
  ultimately show ?case
    using A(1,5) l(3) wp_install_step [of s ?l ?h "install_trans_from is" Q]
    by (simp add: log_layout_def add.assoc del: wp_kthen)
qed

text \<open>
  The log between two operations of the file system.  In memory the header lists the blocks the
  open transaction has changed, in the cache exactly these are dirty, their new contents are in
  the log blocks on the disk, and the header on the disk says that nothing is committed.
\<close>

definition log_inv :: "'z log_st_scheme \<Rightarrow> bool" where
  "log_inv s \<longleftrightarrow> bio_inv s \<and> log_layout s \<and> 0 \<le> lh_n s \<and> lh_n s < log_size s \<and>
     inj_on (lh_sector s) (set (heads s)) \<and>
     (\<forall>i \<in> set (heads s). loggable s (lh_sector s i) \<and> disk s (log_start s + i + 1) = view s (lh_sector s i)) \<and>
     dirty_secs s = lh_sector s ` set (heads s) \<and>
     (\<forall>sec. sec \<notin> dirty_secs s \<longrightarrow> view s sec = disk s sec) \<and>
     (\<forall>sec \<in> busy_secs s. \<not> in_log s sec) \<and>
     get32 (disk s (log_start s)) 0 = 0 \<and> (\<not> log_busy s \<longrightarrow> lh_n s = 0)"

definition locks_free :: "'z kst_scheme \<Rightarrow> bool" where
  "locks_free s \<longleftrightarrow> held s \<inter> {LK_bcache, LK_ptable, LK_log} = {}"

lemma log_invD:
  assumes "log_inv s"
  shows "bio_inv s" "log_layout s" "0 \<le> lh_n s" "lh_n s < log_size s"
    and "inj_on (lh_sector s) (set (heads s))"
    and "\<And>i. i \<in> set (heads s) \<Longrightarrow> loggable s (lh_sector s i)"
    and "\<And>i. i \<in> set (heads s) \<Longrightarrow> disk s (log_start s + i + 1) = view s (lh_sector s i)"
    and "dirty_secs s = lh_sector s ` set (heads s)"
    and "\<And>sec. sec \<notin> dirty_secs s \<Longrightarrow> view s sec = disk s sec"
    and "\<And>sec. sec \<in> busy_secs s \<Longrightarrow> \<not> in_log s sec"
    and "get32 (disk s (log_start s)) 0 = 0" "\<not> log_busy s \<Longrightarrow> lh_n s = 0"
  using assms by (simp_all add: log_inv_def)

lemma log_inv_dirty: "log_inv s \<Longrightarrow> sec \<in> dirty_secs s \<Longrightarrow> loggable s sec"
  by (auto simp: log_invD)

lemma log_inv_in_log: "log_inv s \<Longrightarrow> in_log s sec \<Longrightarrow> sec \<notin> dirty_secs s"
  using log_inv_dirty [of s sec] by (auto simp: loggable_def)

lemma log_inv_card: "log_inv s \<Longrightarrow> card (dirty_secs s) \<le> nat (lh_n s)"
  using card_image_le [of "set (heads s)" "lh_sector s"] by (simp add: log_invD(8) heads_def)

lemma log_inv_card_NBUF:
  assumes "log_inv s" shows "card (dirty_secs s) < NBUF"
proof -
  have "lh_n s < 10" using log_invD(2,4) [OF assms] by (simp add: log_layout_def LOGSIZE_def)
  then show ?thesis using log_inv_card [OF assms] by (simp add: NBUF_def)
qed

lemma log_inv_head_block:
  assumes "log_inv s"
  shows "in_log s (log_start s)" "log_start s < disksize s" "log_start s \<notin> dirty_secs s"
  using assms log_inv_in_log [OF assms, of "log_start s"] log_invD(2) [OF assms]
  by (auto simp: in_log_def log_layout_def)

lemma log_inv_log_block:
  assumes "log_inv s" "i \<in> set (heads s)"
  shows "in_log s (log_start s + i + 1)" "view s (log_start s + i + 1) = view s (lh_sector s i)"
proof -
  show l: "in_log s (log_start s + i + 1)"
    using assms log_invD(4) [OF assms(1)] by (auto simp: heads_def in_log_def)
  show "view s (log_start s + i + 1) = view s (lh_sector s i)"
    using log_invD(7) [OF assms] log_invD(9) [OF assms(1) log_inv_in_log [OF assms(1) l]] by simp
qed

text \<open>The disk writes of a commit.\<close>

definition commit_head :: "'z log_st_scheme \<Rightarrow> bytes" where
  "commit_head s = head_block (lh_n s) (lh_sector s) (disk s (log_start s))"

definition commit_writes :: "'z log_st_scheme \<Rightarrow> (nat \<times> bytes) list" where
  "commit_writes s = (if lh_n s > 0 then
     (log_start s, commit_head s) # map (\<lambda>i. (lh_sector s i, view s (lh_sector s i))) (heads s) @
     [(log_start s, put32 (commit_head s) 0 0)] else [])"

definition log_erase :: "'z log_st_scheme \<Rightarrow> 'z log_st_scheme" where
  "log_erase s = (bio_erase s)\<lparr>log_busy := False, lh_n := 0, lh_sector := undefined\<rparr>"

definition log_frame :: "'z log_st_scheme \<Rightarrow> 'z log_st_scheme \<Rightarrow> bool" where
  "log_frame s t \<longleftrightarrow> log_erase s = log_erase t"

lemma log_frame_refl [simp]: "log_frame s s" by (simp add: log_frame_def)

lemma log_frame_trans: "log_frame s t \<Longrightarrow> log_frame t u \<Longrightarrow> log_frame s u" by (simp add: log_frame_def)

lemma bio_log_frame: "bio_frame s t \<Longrightarrow> log_frame s t"
  by (simp add: bio_frame_def log_frame_def log_erase_def)

lemma log_frame_upd [simp]:
  "log_frame s (t\<lparr>log_busy := c\<rparr>) = log_frame s t" "log_frame s (t\<lparr>lh_n := z\<rparr>) = log_frame s t"
  "log_frame s (t\<lparr>lh_sector := f\<rparr>) = log_frame s t" "log_frame s (t\<lparr>ptable := pt\<rparr>) = log_frame s t"
  by (simp_all add: log_frame_def log_erase_def bio_erase_def)

lemma log_frame_fieldsD:
  assumes "log_frame s t"
  shows "log_start t = log_start s" and "log_size t = log_size s" and "log_dev t = log_dev s"
    and "held t = held s" and "disksize t = disksize s" and "curproc t = curproc s"
    and "initproc t = initproc s" and "nextpid t = nextpid s"
  using assms [unfolded log_frame_def, THEN arg_cong, of log_start]
    assms [unfolded log_frame_def, THEN arg_cong, of log_size]
    assms [unfolded log_frame_def, THEN arg_cong, of log_dev]
    assms [unfolded log_frame_def, THEN arg_cong, of held]
    assms [unfolded log_frame_def, THEN arg_cong, of disksize]
    assms [unfolded log_frame_def, THEN arg_cong, of curproc]
    assms [unfolded log_frame_def, THEN arg_cong, of initproc]
    assms [unfolded log_frame_def, THEN arg_cong, of nextpid]
  by (simp_all add: log_erase_def bio_erase_def)

section \<open>Commit and recovery\<close>

lemma wrs_post_lh_n: "wrs_post s W t \<Longrightarrow> wrs_post (s\<lparr>lh_n := z\<rparr>) W (t\<lparr>lh_n := z\<rparr>)"
  by (auto simp: wrs_post_def keeps_owned_def bio_frame_log)

lemma head_block_0: "head_block 0 sec d = put32 d 0 0"
  by (simp add: head_block_def)

text \<open>What commit and recovery share: install the header's blocks and clear the header.\<close>

definition install_ready :: "'z log_st_scheme \<Rightarrow> bool" where
  "install_ready s \<longleftrightarrow> bio_inv s \<and> log_layout s \<and> lh_n s < log_size s \<and> inj_on (lh_sector s) (set (heads s)) \<and>
     (\<forall>i \<in> set (heads s). loggable s (lh_sector s i)) \<and>
     (dirty_secs s = {} \<or> dirty_secs s = lh_sector s ` set (heads s)) \<and>
     LK_bcache \<notin> held s \<and> LK_ptable \<notin> held s \<and> busy_secs s = {}"

definition clear_writes :: "'z log_st_scheme \<Rightarrow> (nat \<times> bytes) list" where
  "clear_writes s = installs s (heads s) @ [(log_start s, put32 (view s (log_start s)) 0 0)]"

lemma wp_install_clear:
  assumes r: "install_ready s" and Q: "\<And>t. wrs_post (s\<lparr>lh_n := 0\<rparr>) (clear_writes s) t \<Longrightarrow> Q () t"
  shows "wp (kthen install_trans (kthen (kmod (\<lambda>s. s\<lparr>lh_n := 0\<rparr>)) write_head)) Q s"
proof -
  note r' = r [unfolded install_ready_def]
  have n: "nat (lh_n s) < 10" using r' by (auto simp: log_layout_def LOGSIZE_def)
  have c: "card (dirty_secs s) < NBUF"
    using r' n card_image_le [of "set (heads s)" "lh_sector s"] by (auto simp: heads_def NBUF_def)
  have lo: "\<not> in_log s sec" if "sec \<in> dirty_secs s" for sec
    using r' that by (auto simp: loggable_def)
  have ls: "in_log s (log_start s)" "log_start s < disksize s"
    using r' by (auto simp: log_layout_def in_log_def)
  have "wp write_head Q (t\<lparr>lh_n := 0\<rparr>)" if w: "wrs_post s (installs s (heads s)) t" for t
  proof -
    note w' = w [unfolded wrs_post_def]
    have f: "log_start t = log_start s" "log_dev t = log_dev s" "held t = held s" "disksize t = disksize s"
      using w' log_frame_fields [of s t] bio_frame_fields [of s t] by auto
    have "log_start s \<notin> fst ` set (installs s (heads s))"
      unfolding fst_installs using r' ls(1) by (auto simp: loggable_def)
    then have "view t (log_start s) = view s (log_start s)"
      using w' by (simp add: apply_writes_other)
    moreover have "can_read (t\<lparr>lh_n := 0\<rparr>) (log_start t)"
      using w' r' ls c card_mono [OF finite_dirty [of s], of "dirty_secs t"]
      by (auto simp: can_read_def f)
    ultimately show ?thesis
    proof (intro wp_write_head)
      fix u assume "view t (log_start s) = view s (log_start s)" and
        "wr_post (t\<lparr>lh_n := 0\<rparr>) (log_start (t\<lparr>lh_n := 0\<rparr>)) (head_block (lh_n (t\<lparr>lh_n := 0\<rparr>))
          (lh_sector (t\<lparr>lh_n := 0\<rparr>)) (view (t\<lparr>lh_n := 0\<rparr>) (log_start (t\<lparr>lh_n := 0\<rparr>)))) u"
      then have "wrs_post (t\<lparr>lh_n := 0\<rparr>) [(log_start s, put32 (view s (log_start s)) 0 0)] u"
        by (simp add: wrs_post_wr head_block_0 f)
      from wrs_post_trans [OF wrs_post_lh_n [OF w] this] show "Q () u"
        unfolding clear_writes_def [symmetric] by (rule Q)
    qed (use r' f in \<open>auto simp: log_layout_def\<close>)
  qed
  moreover have "int i + 1 < log_size s" if "i \<in> set (heads s)" for i
    using that r' by (auto simp: heads_def)
  moreover have "card (dirty_secs s) + 1 < NBUF \<or> lh_sector s ` set (heads s) \<subseteq> dirty_secs s"
    using r' by (auto simp: NBUF_def)
  ultimately have "wp (install_trans_from (heads s)) (\<lambda>_ t. wp write_head Q (t\<lparr>lh_n := 0\<rparr>)) s"
    using r' c lo by (intro wp_install_from) (auto simp: heads_def)
  then show ?thesis by (simp add: install_trans_def heads_def)
qed

definition home_writes :: "'z log_st_scheme \<Rightarrow> (nat \<times> bytes) list" where
  "home_writes s = map (\<lambda>i. (lh_sector s i, view s (lh_sector s i))) (heads s)"

lemma fst_home_writes [simp]: "fst ` set (home_writes s) = lh_sector s ` set (heads s)"
  by (force simp: home_writes_def)

lemma home_writes_apply:
  assumes "sec \<in> lh_sector s ` set (heads s)"
  shows "apply_writes (home_writes s) D sec = view s sec"
proof (rule apply_writes_last)
  show "sec \<in> fst ` set (home_writes s)" using assms by simp
qed (auto simp: home_writes_def)

lemma commit_apply:
  assumes inv: "log_inv s" and n: "lh_n s > 0" and sec: "sec \<noteq> log_start s"
    and D: "sec \<notin> dirty_secs s \<Longrightarrow> D sec = disk s sec"
  shows "apply_writes (commit_writes s) D sec = view s sec"
proof -
  have "apply_writes (home_writes s) (D(log_start s := d)) sec = view s sec" for d
  proof (cases "sec \<in> dirty_secs s")
    case True
    then show ?thesis by (simp add: home_writes_apply log_invD(8) [OF inv])
  next
    case False
    then have "sec \<notin> fst ` set (home_writes s)" by (simp add: log_invD(8) [OF inv])
    then show ?thesis using False sec D log_invD(9) [OF inv] by (simp add: apply_writes_other)
  qed
  then show ?thesis using n sec by (simp add: commit_writes_def home_writes_def [symmetric])
qed

lemma commit_apply_head: "lh_n s > 0 \<Longrightarrow> get32 (apply_writes (commit_writes s) D (log_start s)) 0 = 0"
  by (simp add: commit_writes_def)

lemma install_ready_committed:
  assumes inv: "log_inv s" and lk: "locks_free s" and b: "busy_secs s = {}"
    and w: "wr_post s (log_start s) (commit_head s) t"
  shows "install_ready t" and "clear_writes t = home_writes s @ [(log_start s, put32 (commit_head s) 0 0)]"
proof -
  note w' = w [unfolded wr_post_def]
  have f: "log_start t = log_start s" "log_size t = log_size s" "log_dev t = log_dev s" "lh_n t = lh_n s"
    "lh_sector t = lh_sector s" "held t = held s" "disksize t = disksize s"
    using w' log_frame_fields [of s t] bio_frame_fields [of s t] by auto
  have h: "heads t = heads s" "loggable t = loggable s"
    by (simp_all add: heads_def f loggable_def in_log_def fun_eq_iff)
  have "log_layout t"
    using w' log_invD(2) [OF inv] by (auto simp: log_layout_def f)
  then show "install_ready t"
    using w' log_invD(1-8) [OF inv] lk b log_inv_head_block(3) [OF inv]
    by (auto simp: install_ready_def f h locks_free_def)
  have "view t (log_start s + i + 1) = view s (lh_sector s i)" if "i \<in> set (heads s)" for i
    using log_inv_log_block(2) [OF inv that] w' by simp
  then show "clear_writes t = home_writes s @ [(log_start s, put32 (commit_head s) 0 0)]"
    using w' by (simp add: clear_writes_def installs_def home_writes_def f h)
qed

definition commit_post :: "'z log_st_scheme \<Rightarrow> 'z log_st_scheme \<Rightarrow> bool" where
  "commit_post s t \<longleftrightarrow> log_inv t \<and> log_frame s t \<and> lh_n t = 0 \<and> \<not> log_busy t \<and> busy_secs t = {} \<and>
     dirty_secs t = {} \<and> disk_writes t = disk_writes s @ commit_writes s \<and>
     disk t = apply_writes (commit_writes s) (disk s) \<and>
     (\<forall>sec. sec \<noteq> log_start s \<longrightarrow> disk t sec = view s sec \<and> view t sec = view s sec)"

lemma commit_post_intro:
  assumes inv: "log_inv s" and b: "busy_secs s = {}" and n: "lh_n s > 0"
    and w: "wrs_post (s\<lparr>lh_n := 0\<rparr>) (commit_writes s) t"
  shows "commit_post s (t\<lparr>log_busy := False, ptable := pt\<rparr>)"
proof -
  note w' = w [unfolded wrs_post_def]
  have f: "log_start t = log_start s" "log_size t = log_size s" "log_dev t = log_dev s" "lh_n t = 0"
    "lh_sector t = lh_sector s" "held t = held s" "disksize t = disksize s"
    using w' log_frame_fields [of "s\<lparr>lh_n := 0\<rparr>" t] bio_frame_fields [of "s\<lparr>lh_n := 0\<rparr>" t] by auto
  have d: "disk t sec = view s sec" "view t sec = view s sec" if "sec \<noteq> log_start s" for sec
    using w' commit_apply [OF inv n that] log_invD(9) [OF inv, of sec] by auto
  have vd: "view t sec = disk t sec" for sec
    using d [of sec] w' n by (cases "sec = log_start s") (auto simp: commit_writes_def)
  have dirty: "dirty_secs t = {}"
    using w' n by (auto simp: commit_writes_def home_writes_def [symmetric] log_invD(8) [OF inv] image_Un)
  have hn: "get32 (disk t (log_start s)) 0 = 0"
    using w' n by (auto simp: commit_apply_head)
  have "disk t 1 = disk s 1"
    using log_invD(2,9) [OF inv] d [of 1] log_inv_dirty [OF inv, of 1] by (auto simp: log_layout_def loggable_def)
  then have "log_layout t" using log_invD(2) [OF inv] by (simp add: log_layout_def f)
  then have "log_inv (t\<lparr>log_busy := False, ptable := pt\<rparr>)"
    using w' vd dirty hn b log_invD(2) [OF inv]
    by (auto simp: log_inv_def f heads_def log_layout_def)
  moreover have "log_frame s t"
    using w' bio_log_frame [of "s\<lparr>lh_n := 0\<rparr>" t] by (auto simp: log_frame_def log_erase_def bio_erase_def)
  ultimately show ?thesis
    using w' d dirty b by (simp add: commit_post_def f)
qed

lemma wp_commit_trans:
  assumes inv: "log_inv s" and lk: "locks_free s" and b: "busy_secs s = {}"
    and Q: "\<And>t. commit_post s t \<Longrightarrow> Q () t"
  shows "wp commit_trans Q s"
proof -
  have l: "LK_bcache \<notin> held s" "LK_ptable \<notin> held s" "LK_log \<notin> held s"
    using lk by (auto simp: locks_free_def)
  define R where "R t = (LK_log \<notin> held t \<and> LK_ptable \<notin> held t \<and>
    Q () (t\<lparr>log_busy := False, ptable := wakeup_tab Ch_log (ptable t)\<rparr>))" for t
  have main: "wp commit_trans Q s" if "wp (kwhen (lh_n s > 0) (kthen write_head (kthen install_trans
      (kthen (kmod (\<lambda>s. s\<lparr>lh_n := 0\<rparr>)) write_head)))) (\<lambda>_. R) s"
  proof -
    have e: "wp (acquire_lk LK_log) (\<lambda>_. wp (kmod (\<lambda>s. s\<lparr>log_busy := False\<rparr>)) (\<lambda>_. wp (wakeup Ch_log)
       (\<lambda>_. wp (release_lk LK_log) Q))) = R"
      by (auto simp: R_def fun_eq_iff cong: conj_cong)
    show ?thesis using that unfolding commit_trans_def wp_kbind wp_kthen wp_kget e by simp
  qed
  show ?thesis
  proof (rule main, cases "lh_n s > 0")
    case True
    have "wp write_head (\<lambda>_. wp (kthen install_trans (kthen (kmod (\<lambda>s. s\<lparr>lh_n := 0\<rparr>)) write_head)) (\<lambda>_. R)) s"
    proof (rule wp_write_head)
      show "can_read s (log_start s)"
        using log_invD(1) [OF inv] l b log_inv_head_block [OF inv] log_inv_card_NBUF [OF inv] by (simp add: can_read_def)
      show "log_dev s = ROOTDEV" using log_invD(2) [OF inv] by (simp add: log_layout_def)
      fix t assume "wr_post s (log_start s) (head_block (lh_n s) (lh_sector s) (view s (log_start s))) t"
      then have w: "wr_post s (log_start s) (commit_head s) t"
        using log_invD(9) [OF inv log_inv_head_block(3) [OF inv]] by (simp add: commit_head_def)
      note r = install_ready_committed [OF inv lk b w]
      show "wp (kthen install_trans (kthen (kmod (\<lambda>s. s\<lparr>lh_n := 0\<rparr>)) write_head)) (\<lambda>_. R) t"
      proof (rule wp_install_clear [OF r(1)])
        fix u assume u: "wrs_post (t\<lparr>lh_n := 0\<rparr>) (clear_writes t) u"
        have "wrs_post (s\<lparr>lh_n := 0\<rparr>) (commit_writes s) u"
          using wrs_post_trans [OF wrs_post_lh_n [OF w [unfolded wrs_post_wr]] u] True
          by (simp add: r(2) commit_writes_def home_writes_def)
        then show "R u"
          using commit_post_intro [OF inv b True, of u] Q l bio_frame_fields(1) [of "s\<lparr>lh_n := 0\<rparr>" u]
          by (auto simp: R_def wrs_post_def)
      qed
    qed
    with True show "wp (kwhen (lh_n s > 0) (kthen write_head (kthen install_trans
      (kthen (kmod (\<lambda>s. s\<lparr>lh_n := 0\<rparr>)) write_head)))) (\<lambda>_. R) s" by simp
  next
    case False
    then have n: "lh_n s = 0" "dirty_secs s = {}"
      using log_invD(3,8) [OF inv] by (auto simp: heads_def)
    have "log_inv (s\<lparr>log_busy := False, ptable := pt\<rparr>)" for pt
      using inv n by (simp add: log_inv_def log_layout_def heads_def in_log_def)
    then have "commit_post s (s\<lparr>log_busy := False, ptable := pt\<rparr>)" for pt
      using n b log_invD(9) [OF inv] by (simp add: commit_post_def commit_writes_def)
    then show "wp (kwhen (lh_n s > 0) (kthen write_head (kthen install_trans
      (kthen (kmod (\<lambda>s. s\<lparr>lh_n := 0\<rparr>)) write_head)))) (\<lambda>_. R) s"
      using False l Q by (simp add: R_def)
  qed
qed

section \<open>Recovery\<close>

text \<open>The log on a disk: where the superblock puts it, and what its header says.\<close>

definition d_start :: "(nat \<Rightarrow> bytes) \<Rightarrow> nat" where
  "d_start D = sb_size (decode_sb (D 1)) - sb_nlog (decode_sb (D 1))"

definition d_nlog :: "(nat \<Rightarrow> bytes) \<Rightarrow> nat" where
  "d_nlog D = sb_nlog (decode_sb (D 1))"

definition d_n :: "(nat \<Rightarrow> bytes) \<Rightarrow> nat" where
  "d_n D = get32 (D (d_start D)) 0"

definition d_sector :: "(nat \<Rightarrow> bytes) \<Rightarrow> nat \<Rightarrow> nat" where
  "d_sector D i = get32 (D (d_start D)) (4 + 4 * i)"

definition d_home :: "(nat \<Rightarrow> bytes) \<Rightarrow> nat \<Rightarrow> bool" where
  "d_home D sec \<longleftrightarrow> \<not> (d_start D \<le> sec \<and> sec < d_start D + d_nlog D)"

definition valid_disk :: "nat \<Rightarrow> (nat \<Rightarrow> bytes) \<Rightarrow> bool" where
  "valid_disk N D \<longleftrightarrow> 2 \<le> d_nlog D \<and> d_nlog D \<le> LOGSIZE \<and> 1 < d_start D \<and> d_start D + d_nlog D \<le> N \<and>
     N < 4294967296 \<and> d_n D < d_nlog D \<and> inj_on (d_sector D) {..<d_n D} \<and>
     (\<forall>i<d_n D. d_home D (d_sector D i) \<and> d_sector D i < N \<and> d_sector D i \<noteq> 1)"

definition recover_writes :: "(nat \<Rightarrow> bytes) \<Rightarrow> (nat \<times> bytes) list" where
  "recover_writes D = map (\<lambda>i. (d_sector D i, D (d_start D + i + 1))) [0..<d_n D] @
     [(d_start D, put32 (D (d_start D)) 0 0)]"

definition recovered_post :: "'z log_st_scheme \<Rightarrow> 'z log_st_scheme \<Rightarrow> bool" where
  "recovered_post s t \<longleftrightarrow> log_inv t \<and> lh_n t = 0 \<and> \<not> log_busy t \<and> dirty_secs t = {} \<and> busy_secs t = {} \<and>
     held t = held s \<and> disksize t = disksize s \<and> log_start t = d_start (disk s) \<and>
     log_size t = int (d_nlog (disk s)) \<and> disk t = apply_writes (recover_writes (disk s)) (disk s) \<and>
     disk_writes t = disk_writes s @ recover_writes (disk s)"

definition clean :: "'z bio_scheme \<Rightarrow> bool" where
  "clean s \<longleftrightarrow> bio_inv s \<and> view s = disk s \<and> dirty_secs s = {} \<and> busy_secs s = {}"

lemma sub32: "b \<le> a \<Longrightarrow> a < 4294967296 \<Longrightarrow> u32 (a + 4294967296 - b) = a - b"
proof -
  assume "b \<le> a" "a < 4294967296"
  then have e: "a + 4294967296 - b = (a - b) + 4294967296" "a - b < 4294967296" by auto
  show ?thesis unfolding u32_def e(1) using e(2) by simp
qed

lemma d_start_sub: "valid_disk N D \<Longrightarrow>
    u32 (sb_size (decode_sb (D 1)) + 4294967296 - sb_nlog (decode_sb (D 1))) = d_start D"
proof -
  assume v: "valid_disk N D"
  have "sb_nlog (decode_sb (D 1)) \<le> sb_size (decode_sb (D 1))"
    using v unfolding valid_disk_def d_start_def by linarith
  moreover have "sb_size (decode_sb (D 1)) < 4294967296" by (simp add: decode_sb_def get32_less)
  ultimately show ?thesis unfolding d_start_def by (rule sub32)
qed

lemma recover_writes_other:
  "valid_disk N D \<Longrightarrow> sec \<noteq> d_start D \<Longrightarrow> sec \<notin> d_sector D ` {..<d_n D} \<Longrightarrow>
   apply_writes (recover_writes D) D' sec = D' sec"
  by (rule apply_writes_other) (auto simp: recover_writes_def)

lemma recover_writes_sb: "valid_disk N D \<Longrightarrow> apply_writes (recover_writes D) D 1 = D 1"
  by (rule recover_writes_other) (auto simp: valid_disk_def)

lemma recover_writes_head: "apply_writes (recover_writes D) D' (d_start D) = put32 (D (d_start D)) 0 0"
  by (simp add: recover_writes_def)

lemma wp_recover:
  assumes c: "clean s" and lk: "LK_bcache \<notin> held s" "LK_ptable \<notin> held s" and nb: "\<not> log_busy s"
    and v: "valid_disk (disksize s) (disk s)"
    and f: "log_start s = d_start (disk s)" "log_size s = int (d_nlog (disk s))" "log_dev s = ROOTDEV"
    and Q: "\<And>t. recovered_post s t \<Longrightarrow> Q () t"
  shows "wp recover_from_log Q s"
proof -
  let ?D = "disk s" and ?L = "log_start s"
  note c' = c [unfolded clean_def]
  note v' = v [unfolded valid_disk_def]
  have n: "s32 (int (get32 (view s ?L) 0)) = int (d_n ?D)"
    using c' v' f by (auto simp: d_n_def LOGSIZE_def)
  define g where "g = s\<lparr>lh_n := int (d_n ?D), lh_sector := head_get [0..<d_n ?D] (?D ?L) (lh_sector s)\<rparr>"
  have "wp (kthen install_trans (kthen (kmod (\<lambda>s. s\<lparr>lh_n := 0\<rparr>)) write_head)) Q t" if r: "ro_post g t" for t
  proof -
    note r' = r [unfolded ro_post_def]
    have ft: "log_start t = ?L" "log_size t = int (d_nlog ?D)" "log_dev t = ROOTDEV" "lh_n t = int (d_n ?D)"
      "lh_sector t = head_get [0..<d_n ?D] (?D ?L) (lh_sector s)" "held t = held s" "disksize t = disksize s"
      "\<not> log_busy t" "disk t = ?D" "view t = ?D" "dirty_secs t = {}" "busy_secs t = {}" "disk_writes t = disk_writes s"
      using r' log_frame_fields [of g t] bio_frame_fields [of g t] f nb c' by (auto simp: g_def)
    have sec: "lh_sector t i = d_sector ?D i" if "i < d_n ?D" for i
      using that f(1) by (simp add: ft head_get_apply d_sector_def)
    have h: "heads t = [0..<d_n ?D]" by (simp add: heads_def ft)
    have lay: "log_layout t"
      using v' by (auto simp: log_layout_def ft f d_start_def d_nlog_def)
    have lg: "loggable t (d_sector ?D i)" if "i < d_n ?D" for i
      using v' that by (simp add: loggable_def in_log_def ft f d_home_def)
    have inj: "inj_on (lh_sector t) (set (heads t))"
      using v' sec by (simp add: h inj_on_def)
    have "\<forall>i \<in> set (heads t). loggable t (lh_sector t i)"
      using lg sec by (simp add: h)
    then have "install_ready t"
      using r' lay v' lk inj by (simp add: install_ready_def ft(2,4,6,11,12))
    moreover have "clear_writes t = recover_writes ?D"
      using f(1) sec by (simp add: clear_writes_def recover_writes_def installs_def h ft(1,10))
    moreover have "Q () u" if w: "wrs_post (t\<lparr>lh_n := 0\<rparr>) (recover_writes ?D) u" for u
    proof -
      note w' = w [unfolded wrs_post_def]
      have fu: "log_start u = ?L" "log_size u = int (d_nlog ?D)" "log_dev u = ROOTDEV" "lh_n u = 0"
        "held u = held s" "disksize u = disksize s" "\<not> log_busy u" "dirty_secs u = {}" "busy_secs u = {}"
        "disk u = apply_writes (recover_writes ?D) ?D" "view u = disk u" "disk_writes u = disk_writes s @ recover_writes ?D"
        using w' log_frame_fields [of "t\<lparr>lh_n := 0\<rparr>" u] bio_frame_fields [of "t\<lparr>lh_n := 0\<rparr>" u] by (auto simp: ft)
      have "log_layout u"
        using lay recover_writes_sb [OF v] by (simp add: log_layout_def fu ft)
      then have "log_inv u"
        using w' v' recover_writes_head [of ?D ?D] f(1) by (auto simp: log_inv_def fu heads_def)
      then show ?thesis using f by (intro Q) (simp add: recovered_post_def fu)
    qed
    ultimately show ?thesis by (intro wp_install_clear) simp_all
  qed
  moreover have "can_read s ?L"
    using c' lk v' f by (auto simp: can_read_def NBUF_def)
  ultimately have "wp read_head (\<lambda>_. wp (kthen install_trans (kthen (kmod (\<lambda>s. s\<lparr>lh_n := 0\<rparr>)) write_head)) Q) s"
    using c' f(3) by (intro wp_read_head [OF _ _ n [symmetric]]) (auto simp: g_def)
  then show ?thesis by (simp add: recover_from_log_def)
qed

lemma wp_initlog:
  assumes c: "clean s" and lk: "LK_bcache \<notin> held s" "LK_ptable \<notin> held s" and nb: "\<not> log_busy s"
    and v: "valid_disk (disksize s) (disk s)" and Q: "\<And>t. recovered_post s t \<Longrightarrow> Q () t"
  shows "wp initlog Q s"
proof -
  note c' = c [unfolded clean_def]
  let ?g = "\<lambda>t :: 'a log_st_scheme. t\<lparr>log_start := d_start (disk s), log_size := int (d_nlog (disk s)), log_dev := ROOTDEV\<rparr>"
  have "wp recover_from_log Q (?g t)" if r: "ro_post s t" for t
  proof -
    note r' = r [unfolded ro_post_def]
    have t: "disk t = disk s" "disksize t = disksize s" "held t = held s" "\<not> log_busy t" "disk_writes t = disk_writes s"
      "clean t"
      using r' bio_frame_fields [of s t] log_frame_fields [of s t] nb c' by (auto simp: clean_def)
    then show ?thesis
      using lk v by (intro wp_recover Q) (auto simp: clean_def recovered_post_def)
  qed
  moreover have "s32 (int (sb_nlog (decode_sb (view s 1)))) = int (d_nlog (disk s))"
    using v c' by (auto simp: valid_disk_def d_nlog_def LOGSIZE_def)
  moreover have "u32 (sb_size (decode_sb (view s 1)) + 4294967296 - sb_nlog (decode_sb (view s 1))) = d_start (disk s)"
    using d_start_sub [OF v] c' by simp
  moreover have "can_read s 1"
    using c' lk v by (auto simp: can_read_def valid_disk_def NBUF_def)
  ultimately have "wp (readsb ROOTDEV) (\<lambda>sb t. wp recover_from_log Q (t\<lparr>log_start := u32 (sb_size sb + 4294967296 - sb_nlog sb),
      log_size := s32 (int (sb_nlog sb)), log_dev := ROOTDEV\<rparr>)) s"
    by (intro wp_readsb) auto
  then show ?thesis by (simp add: initlog_def LOGSIZE_def BSIZE_def)
qed

section \<open>Crashes\<close>

definition recovered :: "(nat \<Rightarrow> bytes) \<Rightarrow> nat \<Rightarrow> bytes" where
  "recovered D = apply_writes (recover_writes D) D"

lemma recovered_home:
  assumes "inj_on (d_sector D) {..<d_n D}" "i < d_n D" "d_sector D i \<noteq> d_start D"
  shows "recovered D (d_sector D i) = D (d_start D + i + 1)"
  unfolding recovered_def
proof (rule apply_writes_last)
  show "d_sector D i \<in> fst ` set (recover_writes D)"
    using assms(2) by (force simp: recover_writes_def)
qed (use assms in \<open>auto simp: recover_writes_def dest: inj_onD\<close>)

lemma recovered_other:
  "sec \<noteq> d_start D \<Longrightarrow> sec \<notin> d_sector D ` {..<d_n D} \<Longrightarrow> recovered D sec = D sec"
  unfolding recovered_def by (rule apply_writes_other) (auto simp: recover_writes_def)

lemma log_inv_d_start:
  assumes inv: "log_inv s" and sb: "D 1 = disk s 1"
  shows "d_start D = log_start s" "d_nlog D = nat (log_size s)"
  using log_invD(2) [OF inv] sb by (simp_all add: d_start_def d_nlog_def log_layout_def)

lemma valid_uncommitted:
  assumes inv: "log_inv s" and sb: "D 1 = disk s 1" and n: "get32 (D (log_start s)) 0 = 0"
  shows "valid_disk (disksize s) D" and "sec \<noteq> log_start s \<Longrightarrow> recovered D sec = D sec"
  using log_invD(2) [OF inv] n recovered_other [of sec D]
  by (auto simp: valid_disk_def log_inv_d_start [OF inv, of D, OF sb] d_n_def log_layout_def)

lemma committed_head:
  assumes inv: "log_inv s" and sb: "D 1 = disk s 1" and h: "D (log_start s) = commit_head s"
  shows "d_n D = nat (lh_n s)" and "i < nat (lh_n s) \<Longrightarrow> d_sector D i = lh_sector s i"
proof -
  have "lh_sector s j < 4294967296" if "j < nat (lh_n s)" for j
    using log_invD(2) [OF inv] log_invD(6) [OF inv, of j] that
    by (auto simp: heads_def loggable_def log_layout_def)
  then show "i < nat (lh_n s) \<Longrightarrow> d_sector D i = lh_sector s i"
    using h by (simp add: d_sector_def log_inv_d_start [OF inv, of D, OF sb] commit_head_def head_block_sec)
  have "lh_n s < 2147483648" using log_invD(2,4) [OF inv] by (simp add: log_layout_def LOGSIZE_def)
  then show "d_n D = nat (lh_n s)"
    using h log_invD(3) [OF inv] by (simp add: d_n_def log_inv_d_start [OF inv, of D, OF sb] commit_head_def head_block_n)
qed

text \<open>Once the header is on the disk, recovery gives the new contents of every block, however many
  of the home blocks have been written.\<close>

lemma valid_committed:
  assumes inv: "log_inv s" and sb: "D 1 = disk s 1" and h: "D (log_start s) = commit_head s"
    and lb: "\<And>i. i \<in> set (heads s) \<Longrightarrow> D (log_start s + i + 1) = disk s (log_start s + i + 1)"
    and ot: "\<And>sec. sec \<notin> dirty_secs s \<Longrightarrow> sec \<noteq> log_start s \<Longrightarrow> D sec = disk s sec"
  shows "valid_disk (disksize s) D" and "sec \<noteq> log_start s \<Longrightarrow> recovered D sec = view s sec"
proof -
  note st = log_inv_d_start [OF inv, of D, OF sb]
  note c = committed_head [OF inv, of D, OF sb h]
  have hs: "set (heads s) = {..<nat (lh_n s)}" by (auto simp: heads_def)
  have inj: "inj_on (d_sector D) {..<d_n D}"
    using log_invD(5) [OF inv] c by (simp add: hs inj_on_def)
  have lg: "loggable s (lh_sector s i)" if "i < nat (lh_n s)" for i
    using log_invD(6) [OF inv] that by (simp add: hs)
  show "valid_disk (disksize s) D"
    using log_invD(2-4) [OF inv] inj lg
    by (auto simp: valid_disk_def log_layout_def st c d_home_def loggable_def in_log_def)
  assume sec: "sec \<noteq> log_start s"
  show "recovered D sec = view s sec"
  proof (cases "sec \<in> dirty_secs s")
    case True
    then obtain i where i: "i < nat (lh_n s)" "sec = lh_sector s i"
      by (auto simp: log_invD(8) [OF inv] hs)
    then have "recovered D sec = D (log_start s + i + 1)"
      using recovered_home [OF inj, of i] sec by (simp add: c st)
    also have "\<dots> = view s sec" using lb [of i] log_invD(7) [OF inv, of i] i by (simp add: hs)
    finally show ?thesis .
  next
    case False
    then have "recovered D sec = D sec"
      using sec c by (intro recovered_other) (auto simp: st log_invD(8) [OF inv] hs image_iff)
    then show ?thesis using False sec ot log_invD(9) [OF inv] by simp
  qed
qed

lemma crash_commit:
  assumes inv: "log_inv s" and D: "D = apply_writes (take k (commit_writes s)) (disk s)"
  shows "valid_disk (disksize s) D" and "d_start D = log_start s"
    and "sec \<noteq> log_start s \<Longrightarrow> recovered D sec = (if k = 0 then disk s sec else view s sec)"
proof -
  have "valid_disk (disksize s) D \<and> D 1 = disk s 1 \<and>
    (sec \<noteq> log_start s \<longrightarrow> recovered D sec = (if k = 0 then disk s sec else view s sec))"
  proof (cases "k = 0 \<or> \<not> lh_n s > 0")
    case True
    then have "D = disk s" "\<not> lh_n s > 0 \<Longrightarrow> view s sec = disk s sec"
      using D log_invD(8,9) [OF inv] by (auto simp: commit_writes_def heads_def)
    then show ?thesis
      using True valid_uncommitted [OF inv, of D] log_invD(11) [OF inv] by auto
  next
    case False
    then obtain j where k: "k = Suc j" by (cases k) auto
    have n1: "1 \<noteq> log_start s" "1 \<notin> lh_sector s ` set (heads s)"
      using log_invD(2) [OF inv] log_inv_dirty [OF inv, of 1]
      by (simp_all add: log_layout_def loggable_def log_invD(8) [OF inv, symmetric]) auto
    show ?thesis
    proof (cases "j < length (home_writes s) + 1")
      case True
      then have D': "D = apply_writes (take j (home_writes s)) ((disk s)(log_start s := commit_head s))"
        using D False k by (simp add: commit_writes_def home_writes_def [symmetric])
      have sub: "fst ` set (take j (home_writes s)) \<subseteq> dirty_secs s"
        using image_mono [OF set_take_subset [of j "home_writes s"], of fst] by (simp add: log_invD(8) [OF inv])
      then have ot: "D sec = ((disk s)(log_start s := commit_head s)) sec" if "sec \<notin> dirty_secs s" for sec
        using that unfolding D' by (intro apply_writes_other) blast
      have "D 1 = disk s 1" "D (log_start s) = commit_head s"
        using ot [of 1] ot [of "log_start s"] n1 log_inv_head_block(3) [OF inv] by (auto simp: log_invD(8) [OF inv])
      moreover have "D (log_start s + i + 1) = disk s (log_start s + i + 1)" if "i \<in> set (heads s)" for i
        using ot [OF log_inv_in_log [OF inv log_inv_log_block(1) [OF inv that]]] by simp
      ultimately show ?thesis
        using valid_committed [OF inv, of D] ot k by auto
    next
      case False
      then have D': "D = apply_writes (commit_writes s) (disk s)"
        using D k by (simp add: commit_writes_def home_writes_def)
      have n: "lh_n s > 0" using \<open>\<not> (k = 0 \<or> \<not> lh_n s > 0)\<close> by simp
      have v: "D sec = view s sec" if "sec \<noteq> log_start s" for sec
        unfolding D' by (rule commit_apply [OF inv n that]) simp
      have "D 1 = disk s 1"
        using v [of 1] n1 log_invD(9) [OF inv, of 1] by (simp add: log_invD(8) [OF inv])
      moreover have "get32 (D (log_start s)) 0 = 0"
        unfolding D' by (rule commit_apply_head [OF n])
      ultimately show ?thesis
        using valid_uncommitted [OF inv, of D] v k by auto
    qed
  qed
  then show "valid_disk (disksize s) D" "d_start D = log_start s"
    "sec \<noteq> log_start s \<Longrightarrow> recovered D sec = (if k = 0 then disk s sec else view s sec)"
    using log_inv_d_start(1) [OF inv, of D] by auto
qed

text \<open>Recovery that is itself interrupted can be run again.\<close>

lemma crash_recover:
  assumes v: "valid_disk N D" and D': "D' = apply_writes (take k (recover_writes D)) D"
  shows "valid_disk N D'" and "d_start D' = d_start D"
    and "sec \<noteq> d_start D \<Longrightarrow> recovered D' sec = recovered D sec"
proof -
  note v' = v [unfolded valid_disk_def]
  let ?H = "map (\<lambda>i. (d_sector D i, D (d_start D + i + 1))) [0..<d_n D]"
  have fH: "fst ` set (take k ?H) \<subseteq> d_sector D ` {..<d_n D}"
    using image_mono [OF set_take_subset [of k ?H], of fst] by (auto simp: image_image lessThan_atLeast0)
  have "valid_disk N D' \<and> d_start D' = d_start D \<and> (sec \<noteq> d_start D \<longrightarrow> recovered D' sec = recovered D sec)"
  proof (cases "k \<le> d_n D")
    case True
    then have D1: "D' = apply_writes (take k ?H) D" using D' by (simp add: recover_writes_def)
    have ot: "D' x = D x" if "x \<notin> d_sector D ` {..<d_n D}" for x
      using that fH unfolding D1 by (intro apply_writes_other) blast
    have "D' 1 = D 1" using v' by (intro ot) auto
    then have st: "d_start D' = d_start D" "d_nlog D' = d_nlog D" by (simp_all add: d_start_def d_nlog_def)
    have lb: "x \<notin> d_sector D ` {..<d_n D}" if "\<not> d_home D x" for x using v' that by auto
    have "D' (d_start D) = D (d_start D)" using v' by (intro ot lb) (auto simp: d_home_def)
    then have hd: "d_n D' = d_n D" "d_sector D' = d_sector D" by (auto simp: d_n_def d_sector_def st)
    have vd: "valid_disk N D'" using v' by (simp add: valid_disk_def st hd d_home_def)
    have "recovered D' sec = recovered D sec" if sec: "sec \<noteq> d_start D"
    proof (cases "sec \<in> d_sector D ` {..<d_n D}")
      case True
      then obtain i where i: "i < d_n D" "sec = d_sector D i" by auto
      have "D' (d_start D + i + 1) = D (d_start D + i + 1)"
        using v' i by (intro ot lb) (auto simp: d_home_def)
      then show ?thesis
        using recovered_home [of D i] recovered_home [of D' i] v' sec i by (simp add: hd st)
    next
      case False
      then show ?thesis using sec ot recovered_other [of sec D] recovered_other [of sec D'] by (simp add: hd st)
    qed
    with vd st show ?thesis by simp
  next
    case False
    then have D1: "D' = recovered D" using D' by (simp add: recover_writes_def recovered_def)
    have "D' 1 = D 1" using recover_writes_sb [OF v] by (simp add: D1 recovered_def)
    then have st: "d_start D' = d_start D" "d_nlog D' = d_nlog D" by (simp_all add: d_start_def d_nlog_def)
    have "d_n D' = 0" by (simp add: d_n_def st) (simp add: D1 recovered_def recover_writes_head)
    then show ?thesis
      using v' recovered_other [of sec D'] by (auto simp: valid_disk_def st) (simp add: D1)
  qed
  then show "valid_disk N D'" "d_start D' = d_start D" "sec \<noteq> d_start D \<Longrightarrow> recovered D' sec = recovered D sec"
    by auto
qed

text \<open>Power on: memory is zero, \<open>binit\<close> and \<open>initlog\<close> run.\<close>

definition boot_log :: "nat \<Rightarrow> (nat \<Rightarrow> bytes) \<Rightarrow> log_st" where
  "boot_log N D = \<lparr>ptable = (\<lambda>_. idle_proc), curproc = None, initproc = None, nextpid = 1, held = {},
     bufs = (\<lambda>_. zero_buf), lru = [], disk = D, disksize = N, disk_writes = [],
     log_start = 0, log_size = 0, log_busy = False, log_dev = 0, lh_n = 0, lh_sector = (\<lambda>_. 0)\<rparr>"

definition mount :: "nat \<Rightarrow> (nat \<Rightarrow> bytes) \<Rightarrow> (log_st, unit) kres" where
  "mount N D = kthen binit initlog (boot_log N D)"

lemma mount_Ok:
  assumes "valid_disk N D"
  shows "\<exists>t. mount N D = Ok () t \<and> disk t = recovered D \<and> disk_writes t = recover_writes D \<and> log_inv t"
proof -
  have "wp binit (\<lambda>_. wp initlog (\<lambda>_ t. disk t = recovered D \<and> disk_writes t = recover_writes D \<and> log_inv t)) (boot_log N D)"
  proof (rule wp_binit)
    fix t assume b: "binit_post (boot_log N D) t"
    note b' = b [unfolded binit_post_def]
    have "held t = {}" "disksize t = N" "disk t = D" "\<not> log_busy t" "disk_writes t = []"
      using b' bio_frame_fields [of "boot_log N D" t] log_frame_fields [of "boot_log N D" t]
      by (auto simp: boot_log_def)
    then show "wp initlog (\<lambda>_ t. disk t = recovered D \<and> disk_writes t = recover_writes D \<and> log_inv t) t"
      using b' assms by (intro wp_initlog) (auto simp: clean_def recovered_post_def recovered_def)
  qed (simp add: boot_log_def)
  then have "wp (kthen binit initlog) (\<lambda>_ t. disk t = recovered D \<and> disk_writes t = recover_writes D \<and> log_inv t) (boot_log N D)"
    by simp
  then show ?thesis unfolding mount_def wp_iff by auto
qed

text \<open>Any number of boots, each interrupted after some of its disk writes.\<close>

inductive reboots :: "nat \<Rightarrow> (nat \<Rightarrow> bytes) \<Rightarrow> (nat \<Rightarrow> bytes) \<Rightarrow> bool" for N where
  power_on: "reboots N D D"
| interrupted: "reboots N D D' \<Longrightarrow> mount N D' = Ok () t \<Longrightarrow>
    reboots N D (apply_writes (take k (disk_writes t)) D')"

lemma reboots_recovered:
  assumes "reboots N D D'" and "valid_disk N D"
  shows "valid_disk N D' \<and> d_start D' = d_start D \<and> (\<forall>sec. sec \<noteq> d_start D \<longrightarrow> recovered D' sec = recovered D sec)"
  using assms
proof (induction rule: reboots.induct)
  case (interrupted D D' t k)
  then have v: "valid_disk N D'" and st: "d_start D' = d_start D" by auto
  have "disk_writes t = recover_writes D'" using mount_Ok [OF v] interrupted.hyps(2) by auto
  then show ?case
    using crash_recover [OF v, of _ k, OF refl] interrupted st by auto
qed simp

section \<open>Writing inside a transaction\<close>

lemma log_index_cases:
  assumes i: "i = log_index sec f [0..<n] n" and inj: "inj_on f {..<n}"
  shows "(i < n \<and> f i = sec) \<or> (i = n \<and> sec \<notin> f ` {..<n})"
proof -
  have "(log_index sec f l n \<in> set l \<and> f (log_index sec f l n) = sec) \<or> (log_index sec f l n = n \<and> sec \<notin> f ` set l)" for l
    by (induction l) auto
  from this [of "[0..<n]"] show ?thesis using i by (auto simp: lessThan_atLeast0)
qed

text \<open>The home blocks, as the kernel sees them and as they are on the disk; what the log itself holds
  is left out.\<close>

definition fsview :: "'z log_st_scheme \<Rightarrow> nat \<Rightarrow> bytes" where
  "fsview s sec = (if in_log s sec then zero_bytes else view s sec)"

definition fsdisk :: "'z log_st_scheme \<Rightarrow> nat \<Rightarrow> bytes" where
  "fsdisk s sec = (if in_log s sec then zero_bytes else disk s sec)"

text \<open>Change a block and hand it to the log: afterwards the block belongs to the transaction, the
  disk differs only inside the log, and the invariant holds again.\<close>

definition logged_post :: "'z log_st_scheme \<Rightarrow> nat \<Rightarrow> bytes \<Rightarrow> 'z log_st_scheme \<Rightarrow> bool" where
  "logged_post s sec d t \<longleftrightarrow> log_inv t \<and> log_frame s t \<and> log_busy t \<and> fsview t = (fsview s)(sec := d) \<and>
     fsdisk t = fsdisk s \<and> dirty_secs t = insert sec (dirty_secs s) \<and>
     busy_secs t = busy_secs s \<and> keeps_owned s t {} \<and>
     lh_n t = (if sec \<in> dirty_secs s then lh_n s else lh_n s + 1)"

lemma log_inv_logged:
  assumes inv: "log_inv s" and busy: "log_busy s" and room: "lh_n s + 1 < log_size s"
    and sec: "loggable s sec" and i: "i = log_index sec (lh_sector s) [0..<nat (lh_n s)] (nat (lh_n s))"
    and f: "log_frame s t" "log_busy t" "lh_sector t = (lh_sector s)(i := sec)"
      "lh_n t = (if int i = lh_n s then lh_n s + 1 else lh_n s)"
    and v: "bio_inv t" "view t = (view s)(sec := d, log_start s + i + 1 := d)"
      "disk t = (disk s)(log_start s + i + 1 := d)" "dirty_secs t = insert sec (dirty_secs s)" "busy_secs t = busy_secs s"
  shows "log_inv t" and "lh_n t = (if sec \<in> dirty_secs s then lh_n s else lh_n s + 1)"
    and "in_log s (log_start s + i + 1)"
proof -
  let ?n = "nat (lh_n s)" and ?l = "log_start s + i + 1"
  note I = log_invD [OF inv]
  note F = log_frame_fieldsD [OF f(1)]
  have hs: "set (heads s) = {..<?n}" and ht: "set (heads t) = {..<nat (lh_n t)}" by (auto simp: heads_def)
  have ic: "(i < ?n \<and> lh_sector s i = sec) \<or> (i = ?n \<and> sec \<notin> lh_sector s ` {..<?n})"
    by (rule log_index_cases [OF i]) (use I(5) in \<open>simp add: hs\<close>)
  have hset: "set (heads t) = insert i (set (heads s))"
    using ic I(3) f(4) by (auto simp: hs ht)
  show n: "lh_n t = (if sec \<in> dirty_secs s then lh_n s else lh_n s + 1)"
    using ic I(3) f(4) by (auto simp: I(8) hs)
  have lt: "in_log t = in_log s" "loggable t = loggable s" by (auto simp: in_log_def loggable_def F fun_eq_iff)
  show l: "in_log s ?l" using ic room I(3) by (auto simp: in_log_def)
  have dis: "lh_sector s j \<noteq> sec" if "j < ?n" "j \<noteq> i" for j
    using ic that inj_onD [OF I(5), of j i] by (auto simp: hs)
  have lay: "log_layout t" using I(2) v(3) l by (auto simp: log_layout_def F in_log_def)
  have inj: "inj_on (lh_sector t) (set (heads t))"
    using I(5) dis unfolding hset f(3) by (auto simp: inj_on_def hs)
  have nl: "x \<noteq> ?l" if "loggable s x" for x using that l by (auto simp: loggable_def)
  have "loggable t (lh_sector t j) \<and> disk t (log_start t + j + 1) = view t (lh_sector t j)" if j: "j \<in> set (heads t)" for j
  proof (cases "j = i")
    case True
    then show ?thesis using sec nl [OF sec] by (simp add: f(3) lt v F)
  next
    case False
    then have js: "j \<in> set (heads s)" using j by (simp add: hset)
    then show ?thesis
      using False I(6) [OF js] I(7) [OF js] dis [of j] nl [OF I(6) [OF js]] by (simp add: f(3) lt v F hs)
  qed
  moreover have "dirty_secs t = lh_sector t ` set (heads t)"
  proof -
    have "i < ?n \<Longrightarrow> lh_sector s i = sec" using ic by auto
    then show ?thesis by (auto simp: v(4) I(8) f(3) hset hs image_iff)
  qed
  moreover have "view t x = disk t x" if "x \<notin> dirty_secs t" for x
    using that I(9) [of x] by (auto simp: v)
  moreover have "get32 (disk t (log_start t)) 0 = 0" using I(11) by (simp add: v F)
  moreover have "0 \<le> lh_n t" "lh_n t < log_size t" using n I(3,4) room by (auto simp: F)
  ultimately show "log_inv t"
    unfolding log_inv_def using v(1) lay inj f(2) I(10) v(5) by (auto simp: lt)
qed

definition log_room :: "'z log_st_scheme \<Rightarrow> bool" where
  "log_room s \<longleftrightarrow> log_busy s \<and> lh_n s + 1 < log_size s \<and> card (dirty_secs s \<union> busy_secs s) < NBUF \<and>
     LK_bcache \<notin> held s \<and> LK_ptable \<notin> held s"

lemma wp_log_update:
  assumes inv: "log_inv s" and room: "log_room s" and o: "owns s b sec" and sec: "loggable s sec"
    and m: "\<And>t. logged_post s sec (f (view s sec)) t \<Longrightarrow> wp m Q t"
  shows "wp (kthen (set_data b f) (kthen (log_write b) m)) Q s"
proof -
  note I = log_invD [OF inv]
  note R = room [unfolded log_room_def]
  define i where "i = log_index sec (lh_sector s) [0..<nat (lh_n s)] (nat (lh_n s))"
  let ?l = "log_start s + i + 1" and ?d = "f (view s sec)"
  have "i \<le> nat (lh_n s)"
    using log_index_cases [OF i_def] I(5) by (auto simp: heads_def lessThan_atLeast0)
  then have l: "in_log s ?l" "?l < disksize s" "u32 ?l = ?l"
    using R I(2,3) by (auto simp: in_log_def log_layout_def)
  have sl: "sec \<noteq> ?l" using sec l(1) by (auto simp: loggable_def)
  have fin: "wp (set_buf b (\<lambda>x. x\<lparr>b_dirty := True\<rparr>)) (\<lambda>_. wp m Q)
      (if int i = lh_n s then v\<lparr>lh_n := lh_n v + 1\<rparr> else v)" (is "wp _ _ ?v")
    if v: "bio_inv v" "owns v b sec" "bio_frame (s\<lparr>lh_sector := (lh_sector s)(i := sec)\<rparr>) v"
      "view v = (view s)(sec := ?d, ?l := ?d)" "disk v = (disk s)(?l := ?d)"
      "dirty_secs v = dirty_secs s" "busy_secs v = busy_secs s" "keeps_owned s v {}" for v
  proof (rule wp_mark_dirty)
    show "bio_inv ?v" "owns ?v b sec" using v by auto
    fix t assume t: "mark_dirty_post ?v sec t"
    note t' = t [unfolded mark_dirty_post_def]
    have lf: "log_frame s v"
      using bio_log_frame [OF v(3)] by (simp add: log_frame_def log_erase_def bio_erase_def)
    moreover have "log_frame v t"
      using t' bio_log_frame [of ?v t] by (auto simp: log_frame_def log_erase_def bio_erase_def split: if_splits)
    ultimately have fr: "log_frame s t" by (rule log_frame_trans)
    have vf: "log_busy v = log_busy s" "lh_sector v = (lh_sector s)(i := sec)" "lh_n v = lh_n s"
      using log_frame_fields [OF v(3)] by simp_all
    have tf: "log_busy t" "lh_sector t = (lh_sector s)(i := sec)" "lh_n t = (if int i = lh_n s then lh_n s + 1 else lh_n s)"
      using t' log_frame_fields [of ?v t] vf R by (auto split: if_splits)
    have tv: "bio_inv t" "view t = (view s)(sec := ?d, ?l := ?d)" "disk t = (disk s)(?l := ?d)"
      "dirty_secs t = insert sec (dirty_secs s)" "busy_secs t = busy_secs s"
      using t' v by (auto split: if_splits)
    have room': "log_busy s" "lh_n s + 1 < log_size s" using R by auto
    note L = log_inv_logged [OF inv room' sec i_def fr tf tv]
    have "keeps_owned s t {}" using t' v(8) by (auto simp: keeps_owned_def split: if_splits)
    moreover have "in_log t = in_log s"
      using log_frame_fieldsD [OF fr] by (simp add: in_log_def fun_eq_iff)
    then have "fsview t = (fsview s)(sec := ?d)" "fsdisk t = fsdisk s"
      using l(1) sec tv(2,3) sl by (auto simp: fsview_def fsdisk_def fun_eq_iff loggable_def)
    ultimately have "logged_post s sec ?d t"
      using L(1,2) fr tf(1) tv by (simp add: logged_post_def)
    then show "wp m Q t" by (rule m)
  qed
  have rest: "wp (bread ROOTDEV ?l) (\<lambda>lbuf. wp (buf_data b) (\<lambda>d. wp (kthen (set_data lbuf (\<lambda>_. d))
      (kthen (bwrite lbuf) (kthen (brelse lbuf) (kthen (kwhen (int i = lh_n s) (kmod (\<lambda>s. s\<lparr>lh_n := lh_n s + 1\<rparr>)))
       (set_buf b (\<lambda>x. x\<lparr>b_dirty := True\<rparr>)))))) (\<lambda>_. wp m Q)))
      (u\<lparr>lh_sector := (lh_sector s)(i := sec)\<rparr>)" if u: "set_data_post s sec f u" for u
  proof -
    let ?u = "u\<lparr>lh_sector := (lh_sector s)(i := sec)\<rparr>"
    note u' = u [unfolded set_data_post_def]
    have uf: "held u = held s" "disksize u = disksize s" using u' bio_frame_fields [of s u] by auto
    have fu: "bio_frame (s\<lparr>lh_sector := (lh_sector s)(i := sec)\<rparr>) ?u"
      using u' bio_frame_log(2) [of s u] by simp
    show ?thesis
    proof (rule wp_bread)
      show "bio_inv ?u" "LK_bcache \<notin> held ?u" "?l < disksize ?u" using u' uf R l by auto
      show "?l \<notin> busy_secs ?u" using u' I(10) l(1) by auto
      show "?l \<in> dirty_secs ?u \<or> card (dirty_secs ?u \<union> busy_secs ?u) < NBUF" using u' R by auto
      fix lb t assume t: "bread_post ?u ?l lb t"
      note t' = t [unfolded bread_post_def]
      have ob: "owns t b sec" using t' u' o by (auto simp: keeps_owned_def)
      then have d: "b_data (bufs t b) = ?d" using owns_data [of t b sec] t' u' by auto
      have "wp (kthen (set_data lb (\<lambda>_. ?d)) (kthen (bwrite lb) (kthen (brelse lb)
        (kthen (kwhen (int i = lh_n s) (kmod (\<lambda>s. s\<lparr>lh_n := lh_n s + 1\<rparr>))) (set_buf b (\<lambda>x. x\<lparr>b_dirty := True\<rparr>))))))
         (\<lambda>_. wp m Q) t"
      proof (rule wp_update_release)
        show "bio_inv t" "owns t lb ?l" using t' by auto
        show "LK_bcache \<notin> held t" "LK_ptable \<notin> held t" using t' R uf bio_frame_fields(1) [of ?u t] by auto
        fix v assume v: "bio_inv v" "bio_frame t v" "view v = (view t)(?l := ?d)" "disk v = (disk t)(?l := ?d)"
          "dirty_secs v = dirty_secs t - {?l}" "busy_secs v = busy_secs t - {?l}" "keeps_owned t v {?l}"
        have own: "owns v b' sec'" if "owns s b' sec'" for b' sec'
        proof -
          have "sec' \<noteq> ?l" using owns_busy [OF that] I(10) l(1) by auto
          then show ?thesis using that v(7) t' u' by (simp add: keeps_owned_def)
        qed
        have "wp (set_buf b (\<lambda>x. x\<lparr>b_dirty := True\<rparr>)) (\<lambda>_. wp m Q) (if int i = lh_n s then v\<lparr>lh_n := lh_n v + 1\<rparr> else v)"
        proof (rule fin)
          show "bio_frame (s\<lparr>lh_sector := (lh_sector s)(i := sec)\<rparr>) v" using fu t' v(2) by (simp add: bio_frame_def)
          show "view v = (view s)(sec := ?d, ?l := ?d)" "disk v = (disk s)(?l := ?d)" using v t' u' by auto
          show "dirty_secs v = dirty_secs s" using v t' u' log_inv_in_log [OF inv l(1)] by auto
          show "busy_secs v = busy_secs s" using v t' u' I(10) l(1) by auto
        qed (use v own o in \<open>auto simp: keeps_owned_def\<close>)
        then show "wp (kthen (kwhen (int i = lh_n s) (kmod (\<lambda>s. s\<lparr>lh_n := lh_n s + 1\<rparr>))) (set_buf b (\<lambda>x. x\<lparr>b_dirty := True\<rparr>)))
          (\<lambda>_. wp m Q) v" by (cases "int i = lh_n s") simp_all
      qed
      then show "wp (buf_data b) (\<lambda>d. wp (kthen (set_data lb (\<lambda>_. d)) (kthen (bwrite lb) (kthen (brelse lb)
        (kthen (kwhen (int i = lh_n s) (kmod (\<lambda>s. s\<lparr>lh_n := lh_n s + 1\<rparr>))) (set_buf b (\<lambda>x. x\<lparr>b_dirty := True\<rparr>)))))) (\<lambda>_. wp m Q)) t"
        using d by (simp only: buf_data_def wp_kget)
    qed
  qed
  have "wp (set_data b f) (\<lambda>_. wp (log_write b) (\<lambda>_. wp m Q)) s"
  proof (rule wp_set_data [OF I(1) o])
    fix u assume u: "set_data_post s sec f u"
    have uf: "log_start u = log_start s" "log_size u = log_size s" "log_busy u = log_busy s"
      "lh_n u = lh_n s" "lh_sector u = lh_sector s"
      using u log_frame_fields [of s u] by (auto simp: set_data_post_def)
    have "owns u b sec" using u o by (auto simp: set_data_post_def keeps_owned_def)
    then show "wp (log_write b) (\<lambda>_. wp m Q) u"
      using rest [OF u] R I(2) l(3) owns_simps(2,3) [of u b sec]
      by (simp add: log_write_def uf i_def [symmetric] log_layout_def add.assoc)
  qed
  then show ?thesis by simp
qed

text \<open>Reading and releasing home blocks inside or outside a transaction.\<close>

lemma log_inv_cong:
  assumes inv: "log_inv s" and b: "bio_inv t" and fr: "bio_frame s t" and e: "view t = view s" "disk t = disk s"
    "dirty_secs t = dirty_secs s" and busy: "\<And>x. x \<in> busy_secs t \<Longrightarrow> \<not> in_log s x"
  shows "log_inv t" and "in_log t = in_log s" and "fsview t = fsview s" and "fsdisk t = fsdisk s"
    and "loggable t = loggable s"
proof -
  note F = log_frame_fields [OF fr] bio_frame_fields [OF fr]
  show i: "in_log t = in_log s" by (simp add: in_log_def F fun_eq_iff)
  show l: "loggable t = loggable s" by (simp add: loggable_def i F fun_eq_iff)
  show "fsview t = fsview s" "fsdisk t = fsdisk s" by (simp_all add: fsview_def fsdisk_def i e fun_eq_iff)
  show "log_inv t"
    using inv b busy by (simp add: log_inv_def log_layout_def heads_def e F i l)
qed

lemma log_inv_ro_post:
  assumes inv: "log_inv s" and r: "ro_post s t"
  shows "log_inv t" "in_log t = in_log s" "fsview t = fsview s" "fsdisk t = fsdisk s" "loggable t = loggable s"
  using log_inv_cong [OF inv, of t] r log_invD(10) [OF inv] by (auto simp: ro_post_def)

lemma log_inv_bread_post:
  assumes inv: "log_inv s" and r: "bread_post s sec b t" and l: "\<not> in_log s sec"
  shows "log_inv t" "in_log t = in_log s" "fsview t = fsview s" "fsdisk t = fsdisk s" "loggable t = loggable s"
  using log_inv_cong [OF inv, of t] r l log_invD(10) [OF inv] by (auto simp: bread_post_def)

lemma log_inv_brelse_post:
  assumes inv: "log_inv s" and r: "brelse_post s sec t"
  shows "log_inv t" "in_log t = in_log s" "fsview t = fsview s" "fsdisk t = fsdisk s" "loggable t = loggable s"
  using log_inv_cong [OF inv, of t] r log_invD(10) [OF inv] by (auto simp: brelse_post_def)

lemma log_inv_releasable: "log_inv s \<Longrightarrow> sec \<in> dirty_secs s \<or> view s sec = disk s sec"
  using log_invD(9) [of s sec] by blast

lemma log_inv_busy_flag: "log_inv s \<Longrightarrow> log_inv (s\<lparr>log_busy := True\<rparr>)"
  by (simp add: log_inv_def log_layout_def heads_def loggable_def in_log_def)

lemma fsview_upd [simp]:
  "fsview (s\<lparr>log_busy := c\<rparr>) = fsview s" "fsdisk (s\<lparr>log_busy := c\<rparr>) = fsdisk s"
  "in_log (s\<lparr>log_busy := c\<rparr>) = in_log s"
  by (simp_all add: fsview_def fsdisk_def in_log_def fun_eq_iff)

lemma wp_begin_trans:
  assumes "LK_log \<notin> held s" "\<not> log_busy s" "Q () (s\<lparr>log_busy := True\<rparr>)"
  shows "wp begin_trans Q s"
  using assms by (simp add: begin_trans_def)

text \<open>The complete change of one block: \<open>bread\<close>, change, \<open>log_write\<close>, \<open>brelse\<close>.\<close>

definition can_log :: "'z log_st_scheme \<Rightarrow> nat \<Rightarrow> bool" where
  "can_log s sec \<longleftrightarrow> log_inv s \<and> log_room s \<and> loggable s sec \<and> sec \<notin> busy_secs s \<and>
     card (insert sec (dirty_secs s \<union> busy_secs s)) < NBUF"

lemma wp_log_block:
  assumes c: "can_log s sec" and m: "\<And>t. logged_post s sec (f (view s sec)) t \<Longrightarrow> wp m Q t"
  shows "wp (kbind (bread ROOTDEV sec) (\<lambda>b. kthen (set_data b f) (kthen (log_write b) (kthen (brelse b) m)))) Q s"
proof -
  note C = c [unfolded can_log_def]
  have inv: "log_inv s" using C by simp
  have lg: "\<not> in_log s sec" "sec < disksize s" using C by (auto simp: loggable_def)
  have "wp (kthen (set_data b f) (kthen (log_write b) (kthen (brelse b) m))) Q t" if t: "bread_post s sec b t" for b t
  proof -
    note t' = t [unfolded bread_post_def]
    note L = log_inv_bread_post [OF inv t lg(1)]
    have tf: "held t = held s" "log_busy t = log_busy s" "lh_n t = lh_n s" "log_size t = log_size s"
      using t' bio_frame_fields [of s t] log_frame_fields [of s t] by auto
    have room: "log_room t" using C t' by (auto simp: log_room_def tf)
    show ?thesis
    proof (rule wp_log_update [OF L(1) room])
      show "owns t b sec" "loggable t sec" using t' C L by auto
      fix u assume u: "logged_post t sec (f (view t sec)) u"
      note u' = u [unfolded logged_post_def]
      have "wp (brelse b) (\<lambda>_. wp m Q) u"
      proof (rule wp_brelse)
        show "bio_inv u" using u' by (simp add: log_invD)
        show "owns u b sec" using u' t' by (auto simp: keeps_owned_def)
        show "LK_bcache \<notin> held u" "LK_ptable \<notin> held u"
          using u' room log_frame_fieldsD(4) [of t u] by (auto simp: log_room_def)
        show "sec \<in> dirty_secs u \<or> view u sec = disk u sec" using u' by simp
        fix v assume v: "brelse_post u sec v"
        note v' = v [unfolded brelse_post_def]
        have uinv: "log_inv u" using u' by simp
        note V = log_inv_brelse_post [OF uinv v]
        have "owns v b' sec'" if "owns s b' sec'" for b' sec'
        proof -
          have "sec' \<noteq> sec" using owns_busy [OF that] C by auto
          then show ?thesis using that t' u' v' by (simp add: keeps_owned_def)
        qed
        moreover have "log_frame s v"
          using bio_log_frame [of s t] bio_log_frame [of u v] t' u' v' by (auto simp: log_frame_def)
        moreover have "log_busy v" "lh_n v = lh_n u" using v' u' log_frame_fields [of u v] by auto
        ultimately have "logged_post s sec (f (view s sec)) v"
          using V L u' v' t' C tf by (auto simp: logged_post_def keeps_owned_def)
        then show "wp m Q v" by (rule m)
      qed
      then show "wp (kthen (brelse b) m) Q u" by simp
    qed
  qed
  moreover have "card (dirty_secs s \<union> busy_secs s) < NBUF" using C by (simp add: log_room_def)
  ultimately show ?thesis
    using C lg log_invD(1) [OF inv] unfolding wp_kbind by (intro wp_bread) (auto simp: log_room_def)
qed

section \<open>Properties\<close>

text \<open>C1. Crash atomicity.  \<open>commit_trans\<close> returns; and if the machine stops after any number \<open>k\<close> of
  the disk writes it makes, and any number of later boots stop in the middle of recovery too, then
  the next boot mounts the disk, and every block other than the log header is as before the
  transaction if no write was made, and else as the transaction left it.\<close>

theorem commit_crash_atomic:
  assumes inv: "log_inv s" and lk: "locks_free s" and b: "busy_secs s = {}"
  shows "\<exists>t W. commit_trans s = Ok () t \<and> disk_writes t = disk_writes s @ W \<and>
    disk t = apply_writes W (disk s) \<and>
    (\<forall>k D. reboots (disksize s) (apply_writes (take k W) (disk s)) D \<longrightarrow>
      (\<exists>u. mount (disksize s) D = Ok () u \<and>
        (\<forall>sec. sec \<noteq> log_start s \<longrightarrow> disk u sec = (if k = 0 then disk s sec else view s sec))))"
proof -
  have "wp commit_trans (\<lambda>_. commit_post s) s"
    using inv lk b by (rule wp_commit_trans)
  then obtain t where t: "commit_trans s = Ok () t" "commit_post s t" by (auto simp: wp_iff)
  have "\<exists>u. mount (disksize s) D = Ok () u \<and>
      (\<forall>sec. sec \<noteq> log_start s \<longrightarrow> disk u sec = (if k = 0 then disk s sec else view s sec))"
    if r: "reboots (disksize s) (apply_writes (take k (commit_writes s)) (disk s)) D" for k D
  proof -
    note C = crash_commit [OF inv, of _ k, OF refl]
    note R = reboots_recovered [OF r C(1)]
    obtain u where "mount (disksize s) D = Ok () u" "disk u = recovered D" using mount_Ok R by blast
    then show ?thesis using R C(2,3) by auto
  qed
  with t show ?thesis by (auto simp: commit_post_def)
qed

text \<open>A disk of 40 blocks with a log of ten and the first four blocks marked in use, and the state of a transaction that has changed the
  first byte of block 5.\<close>

definition wit_disk :: "nat \<Rightarrow> bytes" where
  "wit_disk = (\<lambda>b i. if b = 1 \<and> i = 0 then 40 else if b = 1 \<and> i = 12 then 10 else if b = 3 \<and> i = 0 then 15 else 0)"

definition wit_tx :: "(log_st, unit) kern" where
  "wit_tx = kthen binit (kthen initlog (kthen begin_trans (
     kbind (bread ROOTDEV 5) (\<lambda>b. kthen (set_data b (\<lambda>d. d(0 := 7))) (kthen (log_write b) (kthen (brelse b) (kret ())))))))"

definition wit_log :: log_st where
  "wit_log = (case wit_tx (boot_log 40 wit_disk) of Ok _ t \<Rightarrow> t | _ \<Rightarrow> boot_log 40 wit_disk)"

lemma wit_disk_log [simp]: "d_start wit_disk = 30" "d_nlog wit_disk = 10" "d_n wit_disk = 0"
  by (simp_all add: d_start_def d_nlog_def d_n_def decode_sb_def get32_def wit_disk_def)

lemma valid_wit_disk: "valid_disk 40 wit_disk"
  by (simp add: valid_disk_def LOGSIZE_def)

lemma recovered_wit_disk: "sec \<noteq> 30 \<Longrightarrow> recovered wit_disk sec = wit_disk sec"
  by (rule recovered_other) simp_all

definition wit_tx_post :: "log_st \<Rightarrow> bool" where
  "wit_tx_post t \<longleftrightarrow> log_inv t \<and> locks_free t \<and> busy_secs t = {} \<and> dirty_secs t = {5} \<and> lh_n t = 1 \<and> log_busy t \<and>
     log_start t = 30 \<and> log_size t = 10 \<and> disksize t = 40 \<and> fsview t 5 0 = 7 \<and> fsdisk t 5 0 = 0 \<and> held t = {} \<and>
     (\<forall>x<30. x \<noteq> 5 \<longrightarrow> fsview t x = wit_disk x)"

lemma wit_log_post: "wit_tx_post wit_log"
proof -
  let ?tx = "kbind (bread ROOTDEV 5) (\<lambda>b. kthen (set_data b (\<lambda>d. d(0 := 7))) (kthen (log_write b) (kthen (brelse b) (kret ()))))"
  have "wp binit (\<lambda>_. wp initlog (\<lambda>_. wp begin_trans (\<lambda>_. wp ?tx (\<lambda>_. wit_tx_post)))) (boot_log 40 wit_disk)"
  proof (rule wp_binit)
    fix s assume b: "binit_post (boot_log 40 wit_disk) s"
    note b' = b [unfolded binit_post_def]
    have s: "held s = {}" "disksize s = 40" "disk s = wit_disk" "\<not> log_busy s"
      using b' bio_frame_fields [of "boot_log 40 wit_disk" s] log_frame_fields [of "boot_log 40 wit_disk" s]
      by (auto simp: boot_log_def)
    show "wp initlog (\<lambda>_. wp begin_trans (\<lambda>_. wp ?tx (\<lambda>_. wit_tx_post))) s"
    proof (rule wp_initlog)
      fix t assume "recovered_post s t"
      note t = this [unfolded recovered_post_def s wit_disk_log recovered_def [symmetric]]
      let ?t = "t\<lparr>log_busy := True\<rparr>"
      have ti: "log_inv ?t" using t by (intro log_inv_busy_flag) simp
      have il: "in_log t = (\<lambda>x. 30 \<le> x \<and> x < 40)" using t by (simp add: in_log_def fun_eq_iff)
      have d0: "fsdisk t 5 0 = 0"
        using t recovered_wit_disk [of 5] by (simp add: fsdisk_def il) (simp add: wit_disk_def)
      have vt: "fsview t x = wit_disk x" if "x < 30" for x
        using t that recovered_wit_disk [of x] log_invD(9) [of t x] by (auto simp: fsview_def il)
      have lg: "can_log ?t 5"
        using t ti by (auto simp: can_log_def log_room_def loggable_def il NBUF_def)
      show "wp begin_trans (\<lambda>_. wp ?tx (\<lambda>_. wit_tx_post)) t"
      proof (rule wp_begin_trans, use t in simp, use t in simp, rule wp_log_block [OF lg])
        fix u assume "logged_post ?t 5 ((view ?t 5)(0 := 7)) u"
        then show "wp (kret ()) (\<lambda>_. wit_tx_post) u"
          using t d0 vt log_frame_fieldsD [of ?t u] by (auto simp: logged_post_def wit_tx_post_def locks_free_def)
      qed
    qed (use b' s valid_wit_disk in \<open>auto simp: clean_def\<close>)
  qed (simp add: boot_log_def)
  then have "wp wit_tx (\<lambda>_. wit_tx_post) (boot_log 40 wit_disk)" by (simp add: wit_tx_def)
  then show ?thesis by (auto simp: wp_iff wit_log_def)
qed

theorem commit_crash_atomic_witness:
  "\<exists>t W. commit_trans wit_log = Ok () t \<and> disk t = apply_writes W (disk wit_log) \<and> disk wit_log 5 0 = 0 \<and>
    (\<exists>u. mount 40 (apply_writes (take 0 W) (disk wit_log)) = Ok () u \<and> disk u 5 0 = 0) \<and>
    (\<exists>u. mount 40 (apply_writes (take 1 W) (disk wit_log)) = Ok () u \<and> disk u 5 0 = 7)"
proof -
  have w: "log_inv wit_log" "locks_free wit_log" "busy_secs wit_log = {}" "log_start wit_log = 30" "disksize wit_log = 40"
    "view wit_log 5 0 = 7" "disk wit_log 5 0 = 0"
    using wit_log_post by (auto simp: wit_tx_post_def fsview_def fsdisk_def in_log_def)
  from commit_crash_atomic [OF w(1-3)] obtain t W where
    c: "commit_trans wit_log = Ok () t" "disk t = apply_writes W (disk wit_log)"
    and r: "\<And>k D. reboots 40 (apply_writes (take k W) (disk wit_log)) D \<Longrightarrow>
      (\<exists>u. mount 40 D = Ok () u \<and> (\<forall>sec. sec \<noteq> 30 \<longrightarrow> disk u sec = (if k = 0 then disk wit_log sec else view wit_log sec)))"
    unfolding w(4,5) by blast
  show ?thesis
    using c w r [OF power_on, of 0] r [OF power_on, of 1] by (intro exI [of _ t] exI [of _ W]) auto
qed

text \<open>C2. Changing a home block inside a transaction (\<open>bread\<close>, change, \<open>log_write\<close>, \<open>brelse\<close>) returns;
  the kernel then sees the new contents of that block and the old contents of every other home
  block, no home block has changed on the disk, and a crash now is recovered to the disk as it was
  before the change.\<close>

theorem log_write_block:
  assumes c: "can_log s sec"
  shows "\<exists>t. kbind (bread ROOTDEV sec) (\<lambda>b. kthen (set_data b f) (kthen (log_write b) (brelse b))) s = Ok () t \<and>
    log_inv t \<and> fsview t = (fsview s)(sec := f (fsview s sec)) \<and> fsdisk t = fsdisk s \<and>
    (\<exists>u. mount (disksize s) (disk t) = Ok () u \<and> (\<forall>x. \<not> in_log s x \<longrightarrow> disk u x = disk s x))"
proof -
  have lg: "loggable s sec" using c by (simp add: can_log_def)
  have "wp (kbind (bread ROOTDEV sec) (\<lambda>b. kthen (set_data b f) (kthen (log_write b) (kthen (brelse b) (kret ())))))
    (\<lambda>_. logged_post s sec (f (view s sec))) s"
    by (rule wp_log_block [OF c]) simp
  then have "wp (kbind (bread ROOTDEV sec) (\<lambda>b. kthen (set_data b f) (kthen (log_write b) (brelse b))))
    (\<lambda>_. logged_post s sec (f (view s sec))) s" by simp
  then obtain t where t: "kbind (bread ROOTDEV sec) (\<lambda>b. kthen (set_data b f) (kthen (log_write b) (brelse b))) s = Ok () t"
    and p: "logged_post s sec (f (view s sec)) t" unfolding wp_iff by auto
  have inv: "log_inv t" and fr: "log_frame s t" using p by (simp_all add: logged_post_def)
  note F = log_frame_fieldsD [OF fr]
  have il: "in_log t = in_log s" by (simp add: in_log_def F fun_eq_iff)
  have dt: "disk t x = disk s x" if "\<not> in_log s x" for x
  proof -
    have "fsdisk t x = fsdisk s x" using p by (simp add: logged_post_def)
    then show ?thesis using that il by (simp add: fsdisk_def)
  qed
  note V = valid_uncommitted [OF inv refl log_invD(11) [OF inv]]
  obtain u where u: "mount (disksize s) (disk t) = Ok () u" "disk u = recovered (disk t)"
    using mount_Ok [OF V(1)] F by auto
  have "disk u x = disk s x" if "\<not> in_log s x" for x
  proof -
    have "x \<noteq> log_start t" using that log_inv_head_block(1) [OF inv] il by auto
    then show ?thesis using V(2) dt [OF that] u(2) by simp
  qed
  moreover have "view s sec = fsview s sec" using lg by (simp add: fsview_def loggable_def)
  ultimately show ?thesis using t p u(1) by (auto simp: logged_post_def)
qed

lemma wit_can_log: "can_log wit_log 6"
  using wit_log_post by (auto simp: can_log_def wit_tx_post_def log_room_def loggable_def in_log_def NBUF_def)

theorem log_write_block_witness:
  "\<exists>t. kbind (bread ROOTDEV 6) (\<lambda>b. kthen (set_data b (\<lambda>d. d(1 := 9))) (kthen (log_write b) (brelse b))) wit_log = Ok () t \<and>
    fsview t 6 1 = 9 \<and> fsview t 5 0 = 7 \<and> fsdisk t 5 0 = 0"
  using log_write_block [OF wit_can_log, of "\<lambda>d. d(1 := 9)"] wit_log_post by (auto simp: wit_tx_post_def)

text \<open>C3. Recovery.  Booting on any disk with a well-formed log returns with a usable file system:
  every block named by a committed header has its logged contents, every other block outside the
  header is untouched, and the header is cleared.\<close>

theorem mount_recovers:
  assumes v: "valid_disk N D"
  shows "\<exists>t. mount N D = Ok () t \<and> log_inv t \<and> d_n (disk t) = 0 \<and>
    (\<forall>i<d_n D. disk t (d_sector D i) = D (d_start D + i + 1)) \<and>
    (\<forall>sec. sec \<noteq> d_start D \<and> sec \<notin> d_sector D ` {..<d_n D} \<longrightarrow> disk t sec = D sec)"
proof -
  note v' = v [unfolded valid_disk_def]
  obtain t where t: "mount N D = Ok () t" "disk t = recovered D" "log_inv t" using mount_Ok [OF v] by auto
  have "d_start (recovered D) = d_start D"
    using recover_writes_sb [OF v] by (simp add: d_start_def recovered_def)
  then have "d_n (recovered D) = 0" by (simp add: d_n_def) (simp add: recovered_def recover_writes_head)
  moreover have "recovered D (d_sector D i) = D (d_start D + i + 1)" if "i < d_n D" for i
    using v' that by (intro recovered_home) (auto simp: d_home_def)
  ultimately show ?thesis using t recovered_other [of _ D] by auto
qed

text \<open>A disk whose header says that log block 31 belongs at block 5.\<close>

definition wit_committed :: "nat \<Rightarrow> bytes" where
  "wit_committed = wit_disk(30 := (\<lambda>i. if i = 0 then 1 else if i = 4 then 5 else 0), 31 := (\<lambda>_. 170))"

theorem mount_recovers_witness: "\<exists>t. mount 40 wit_committed = Ok () t \<and> disk t 5 = (\<lambda>_. 170) \<and> d_n (disk t) = 0"
proof -
  have w: "d_start wit_committed = 30" "d_nlog wit_committed = 10"
    by (simp_all add: d_start_def d_nlog_def wit_committed_def decode_sb_def get32_def wit_disk_def)
  have n: "d_n wit_committed = 1" and d: "d_sector wit_committed 0 = 5"
    unfolding d_n_def d_sector_def w(1) by (simp_all add: wit_committed_def get32_def)
  have "valid_disk 40 wit_committed"
    by (simp add: valid_disk_def w n d d_home_def LOGSIZE_def inj_on_def)
  from mount_recovers [OF this] show ?thesis by (auto simp: n d w) (auto simp: wit_committed_def)
qed

lemma log_write_panics:
  "lh_n s \<ge> int LOGSIZE \<or> lh_n s \<ge> log_size s - 1 \<Longrightarrow> log_write b s = Panic ''too big a transaction''"
  "lh_n s < int LOGSIZE \<Longrightarrow> lh_n s < log_size s - 1 \<Longrightarrow> \<not> log_busy s \<Longrightarrow> log_write b s = Panic ''write outside of trans''"
  by (auto simp: log_write_def kern_defs)

end
