(* ===== verification/Balloc.thy ===== *)
theory Balloc
  imports Log
begin

unbundle bit_operations_syntax

text \<open>
  The lowest layer of \<open>fs.c\<close>: the layout of the disk and the block allocator (\<open>bzero\<close>, \<open>balloc\<close>,
  \<open>bfree\<close>), with the rules for changing blocks inside a transaction on which the inode layer
  rests.

  \<open>tx s S\<close> says that a transaction is open whose changed and locked blocks lie in the set \<open>S\<close> of at
  most eight home blocks.  Under it no operation on blocks of \<open>S\<close> runs out of log space or of
  buffers, so the budget of a system call is a bound on the size of one set.

  Shown: \<open>balloc\<close> returns the first free block, marks it and zeroes it and touches no other block,
  \<open>bfree\<close> undoes the mark and panics on a free block; and, because \<open>mkfs\<close> leaves the bits of the log
  blocks clear, \<open>balloc\<close> on a full disk picks the header block of the log.
\<close>

section \<open>Layout\<close>

definition IPB :: nat where "IPB = 8"
definition BPB :: nat where "BPB = 4096"

definition IBLOCK :: "nat \<Rightarrow> nat" where
  "IBLOCK i = i div IPB + 2"

definition BBLOCK :: "nat \<Rightarrow> nat \<Rightarrow> nat" where
  "BBLOCK b ninodes = b div BPB + ninodes div IPB + 3"

section \<open>The block allocator\<close>

definition bzero :: "nat \<Rightarrow> nat \<Rightarrow> ('z log_st_scheme, unit) kern" where
  "bzero dev bno =
    kbind (bread dev bno) (\<lambda>bp.
    kthen (set_data bp (\<lambda>_. zero_bytes)) (
    kthen (log_write bp) (
    brelse bp)))"

definition bit_of :: "bytes \<Rightarrow> nat \<Rightarrow> bool" where
  "bit_of d bi \<longleftrightarrow> d (bi div 8) AND push_bit (bi mod 8) 1 \<noteq> 0"

definition mark_bit :: "nat \<Rightarrow> bytes \<Rightarrow> bytes" where
  "mark_bit bi d = d(bi div 8 := d (bi div 8) OR push_bit (bi mod 8) 1)"

definition clear_bit :: "nat \<Rightarrow> bytes \<Rightarrow> bytes" where
  "clear_bit bi d = d(bi div 8 := d (bi div 8) AND NOT (push_bit (bi mod 8) 1))"

text \<open>The inner loop: the first clear bit.\<close>

fun find_free :: "bytes \<Rightarrow> nat list \<Rightarrow> nat option" where
  "find_free d [] = None"
| "find_free d (bi # l) = (if \<not> bit_of d bi then Some bi else find_free d l)"

fun balloc_from :: "nat \<Rightarrow> superblock \<Rightarrow> nat list \<Rightarrow> ('z log_st_scheme, nat) kern" where
  "balloc_from dev sb [] = kpanic ''balloc: out of blocks''"
| "balloc_from dev sb (b # bs) =
    kbind (bread dev (BBLOCK b (sb_ninodes sb))) (\<lambda>bp.
    kbind (buf_data bp) (\<lambda>d.
    case find_free d [0..<min BPB (sb_size sb - b)] of
      Some bi \<Rightarrow>
        kthen (set_data bp (mark_bit bi)) (
        kthen (log_write bp) (
        kthen (brelse bp) (
        kthen (bzero dev (b + bi)) (
        kret (b + bi)))))
    | None \<Rightarrow>
        kthen (brelse bp) (
        balloc_from dev sb bs)))"

text \<open>The values of \<open>b\<close> in the outer loop.\<close>

definition bitmap_starts :: "nat \<Rightarrow> nat list" where
  "bitmap_starts sz = map (\<lambda>k. k * BPB) [0..<(sz + BPB - 1) div BPB]"

definition balloc :: "nat \<Rightarrow> ('z log_st_scheme, nat) kern" where
  "balloc dev =
    kbind (readsb dev) (\<lambda>sb.
    balloc_from dev sb (bitmap_starts (sb_size sb)))"

definition bfree :: "nat \<Rightarrow> nat \<Rightarrow> ('z log_st_scheme, unit) kern" where
  "bfree dev b =
    kbind (readsb dev) (\<lambda>sb.
    kbind (bread dev (BBLOCK b (sb_ninodes sb))) (\<lambda>bp.
    kbind (buf_data bp) (\<lambda>d.
    if \<not> bit_of d (b mod BPB) then kpanic ''freeing free block''
    else
      kthen (set_data bp (clear_bit (b mod BPB))) (
      kthen (log_write bp) (
      brelse bp)))))"

section \<open>Bits\<close>

lemma bit_of_iff: "bit_of d bi \<longleftrightarrow> bit (d (bi div 8)) (bi mod 8)"
  unfolding bit_of_def by (simp add: and_exp_eq_0_iff_not_bit push_bit_of_1)

lemma bit_of_mark: "bit_of (mark_bit bi d) bj \<longleftrightarrow> bj = bi \<or> bit_of d bj"
proof -
  have "bj = bi \<longleftrightarrow> bj div 8 = bi div 8 \<and> bj mod 8 = bi mod 8" by (metis div_mod_decomp)
  then show ?thesis
    by (auto simp: bit_of_iff mark_bit_def bit_simps)
qed

lemma bit_of_clear: "bit_of (clear_bit bi d) bj \<longleftrightarrow> bj \<noteq> bi \<and> bit_of d bj"
proof -
  have "bj = bi \<longleftrightarrow> bj div 8 = bi div 8 \<and> bj mod 8 = bi mod 8" by (metis div_mod_decomp)
  then show ?thesis
    by (auto simp: bit_of_iff clear_bit_def bit_simps)
qed

lemma find_free_Some:
  "find_free d l = Some bi \<Longrightarrow> sorted l \<Longrightarrow>
     bi \<in> set l \<and> \<not> bit_of d bi \<and> (\<forall>x \<in> set l. x < bi \<longrightarrow> bit_of d x)"
  by (induction l) (auto split: if_splits)

lemma find_free_None: "find_free d l = None \<longleftrightarrow> (\<forall>x \<in> set l. bit_of d x)"
  by (induction l) auto

section \<open>Transactions with a budget of blocks\<close>

definition tx :: "'z log_st_scheme \<Rightarrow> nat set \<Rightarrow> bool" where
  "tx s S \<longleftrightarrow> log_inv s \<and> log_busy s \<and> locks_free s \<and> log_size s = int LOGSIZE \<and> finite S \<and> card S \<le> 8 \<and>
     dirty_secs s \<union> busy_secs s \<subseteq> S \<and> (\<forall>x \<in> S. loggable s x)"

text \<open>What every step inside a transaction keeps.\<close>

definition fs_step :: "'z log_st_scheme \<Rightarrow> 'z log_st_scheme \<Rightarrow> bool" where
  "fs_step s t \<longleftrightarrow> log_frame s t \<and> log_busy t = log_busy s \<and> fsdisk t = fsdisk s \<and> busy_secs t = busy_secs s \<and>
     keeps_owned s t {}"

lemma fs_step_refl [simp]: "fs_step s s"
  by (simp add: fs_step_def keeps_owned_def)

lemma fs_step_trans: "fs_step s t \<Longrightarrow> fs_step t u \<Longrightarrow> fs_step s u"
  by (auto simp: fs_step_def keeps_owned_def intro: log_frame_trans)

lemma fs_step_fields:
  assumes "fs_step s t"
  shows "log_start t = log_start s" "log_size t = log_size s" "log_dev t = log_dev s" "held t = held s"
    "disksize t = disksize s" "in_log t = in_log s" "loggable t = loggable s" "locks_free t = locks_free s"
    "log_busy t = log_busy s" "busy_secs t = busy_secs s"
proof -
  note F = log_frame_fieldsD [of s t]
  have fr: "log_frame s t" using assms by (simp add: fs_step_def)
  show "log_start t = log_start s" "log_size t = log_size s" "log_dev t = log_dev s" "held t = held s"
    "disksize t = disksize s" using F [OF fr] by simp_all
  show "in_log t = in_log s" using F [OF fr] by (simp add: in_log_def fun_eq_iff)
  then show "loggable t = loggable s" using F [OF fr] by (simp add: loggable_def fun_eq_iff)
  show "locks_free t = locks_free s" using F [OF fr] by (simp add: locks_free_def)
  show "log_busy t = log_busy s" "busy_secs t = busy_secs s" using assms by (simp_all add: fs_step_def)
qed

lemma fs_step_ro:
  assumes "log_inv s" "ro_post s t" shows "fs_step s t" "fsview t = fsview s"
  using log_inv_ro_post [OF assms] assms(2) bio_log_frame [of s t] log_frame_fields(3) [of s t]
  by (auto simp: fs_step_def ro_post_def)

lemma fs_step_logged:
  assumes "log_busy s" "logged_post s sec d t" shows "fs_step s t" "fsview t = (fsview s)(sec := d)"
  using assms by (auto simp: fs_step_def logged_post_def)

lemma txD:
  assumes "tx s S"
  shows "log_inv s" "log_busy s" "locks_free s" "finite S" "card S \<le> 8" "dirty_secs s \<subseteq> S" "busy_secs s \<subseteq> S"
    "\<And>x. x \<in> S \<Longrightarrow> loggable s x" "lh_n s + 1 < log_size s" "LK_bcache \<notin> held s" "LK_ptable \<notin> held s"
    "card (dirty_secs s \<union> busy_secs s) \<le> 8"
proof -
  show I: "log_inv s" "log_busy s" "locks_free s" "finite S" "card S \<le> 8" "dirty_secs s \<subseteq> S" "busy_secs s \<subseteq> S"
    "\<And>x. x \<in> S \<Longrightarrow> loggable s x" using assms by (auto simp: tx_def)
  then show "LK_bcache \<notin> held s" "LK_ptable \<notin> held s" by (auto simp: locks_free_def)
  have "card (dirty_secs s) \<le> 8" using card_mono [OF I(4,6)] I(5) by simp
  moreover have "card (dirty_secs s) = nat (lh_n s)"
    using log_invD(5,8) [OF I(1)] by (simp add: card_image heads_def)
  ultimately show "lh_n s + 1 < log_size s" using assms by (simp add: tx_def LOGSIZE_def)
  show "card (dirty_secs s \<union> busy_secs s) \<le> 8"
    using card_mono [OF I(4), of "dirty_secs s \<union> busy_secs s"] I(5-7) by simp
qed

lemma tx_can_log:
  assumes x: "tx s S" and sec: "sec \<in> S" "sec \<notin> busy_secs s" shows "can_log s sec"
proof -
  note T = txD [OF x]
  have "card (insert sec (dirty_secs s \<union> busy_secs s)) \<le> card S"
    using T(4,6,7) sec by (intro card_mono) auto
  then have c: "card (insert sec (dirty_secs s \<union> busy_secs s)) < NBUF" "card (dirty_secs s \<union> busy_secs s) < NBUF"
    using T(5,12) by (simp_all only: NBUF_def)
  show ?thesis
    unfolding can_log_def log_room_def using T(1,2,9-11) T(8) [OF sec(1)] sec(2) c by blast
qed

lemma tx_can_read:
  assumes x: "tx s S" and sec: "sec < disksize s" "sec \<notin> busy_secs s" shows "can_read s sec"
proof -
  have "card (dirty_secs s \<union> busy_secs s) < NBUF" using txD(12) [OF x] by (simp only: NBUF_def)
  then show ?thesis
    unfolding can_read_def using log_invD(1) [OF txD(1) [OF x]] txD(10,11) [OF x] sec by blast
qed

lemma tx_step:
  assumes "tx s S" "fs_step s t" "log_inv t" "dirty_secs t \<subseteq> S" shows "tx t S"
  using assms fs_step_fields [OF assms(2)] by (auto simp: tx_def)

lemma tx_ro: "tx s S \<Longrightarrow> ro_post s t \<Longrightarrow> tx t S"
  by (rule tx_step [of s S t])
    (use fs_step_ro [of s t] log_inv_ro_post(1) [of s t] txD(1,6) [of s S] in \<open>simp_all add: ro_post_def\<close>)

lemma tx_logged: "tx s S \<Longrightarrow> logged_post s sec d t \<Longrightarrow> sec \<in> S \<Longrightarrow> tx t S"
  by (rule tx_step [of s S t])
    (use fs_step_logged [of s sec d t] txD(2,6) [of s S] in \<open>simp_all add: logged_post_def\<close>)

lemma tx_mono: "tx s S \<Longrightarrow> S \<subseteq> S' \<Longrightarrow> finite S' \<Longrightarrow> card S' \<le> 8 \<Longrightarrow> (\<And>x. x \<in> S' \<Longrightarrow> loggable s x) \<Longrightarrow> tx s S'"
  by (auto simp: tx_def)

text \<open>The two rules all proofs about \<open>fs.c\<close> use: reading a block and changing a block.\<close>

lemma wp_tx_read:
  assumes x: "tx s S" and sec: "sec < disksize s" "sec \<notin> busy_secs s" "\<not> in_log s sec"
    and m: "\<And>t. tx t S \<Longrightarrow> fs_step s t \<Longrightarrow> fsview t = fsview s \<Longrightarrow> wp (m (fsview s sec)) Q t"
  shows "wp (kbind (bread ROOTDEV sec) (\<lambda>b. kbind (buf_data b) (\<lambda>d. kthen (brelse b) (m d)))) Q s"
proof (rule wp_read_block)
  show "can_read s sec" using x sec by (simp add: tx_can_read)
  fix t assume t: "ro_post s t"
  have "view s sec = fsview s sec" using sec(3) by (simp add: fsview_def)
  then show "wp (m (view s sec)) Q t"
    using m [OF tx_ro [OF x t] fs_step_ro [OF txD(1) [OF x] t]] by simp
qed

lemma wp_tx_log:
  assumes x: "tx s S" and sec: "sec \<in> S" "sec \<notin> busy_secs s"
    and m: "\<And>t. tx t S \<Longrightarrow> fs_step s t \<Longrightarrow> fsview t = (fsview s)(sec := f (fsview s sec)) \<Longrightarrow> wp m Q t"
  shows "wp (kbind (bread ROOTDEV sec) (\<lambda>b. kthen (set_data b f) (kthen (log_write b) (kthen (brelse b) m)))) Q s"
proof (rule wp_log_block)
  show "can_log s sec" using x sec by (rule tx_can_log)
  fix t assume t: "logged_post s sec (f (view s sec)) t"
  have "view s sec = fsview s sec" using txD(8) [OF x sec(1)] by (simp add: fsview_def loggable_def)
  then show "wp m Q t"
    using m [OF tx_logged [OF x t sec(1)] fs_step_logged(1) [OF txD(2) [OF x] t]]
      fs_step_logged(2) [OF txD(2) [OF x] t] by simp
qed

section \<open>What the allocator does\<close>

definition fs_sb :: "'z log_st_scheme \<Rightarrow> superblock" where
  "fs_sb s = decode_sb (fsview s 1)"

definition bmap_blk :: "'z log_st_scheme \<Rightarrow> nat \<Rightarrow> nat" where
  "bmap_blk s b = BBLOCK b (sb_ninodes (fs_sb s))"

definition data_start :: "'z log_st_scheme \<Rightarrow> nat" where
  "data_start s = sb_ninodes (fs_sb s) div IPB + 3 + sb_size (fs_sb s) div BPB + 1"

definition fs_layout :: "'z log_st_scheme \<Rightarrow> bool" where
  "fs_layout s \<longleftrightarrow> data_start s \<le> log_start s \<and> sb_size (fs_sb s) = log_start s + nat (log_size s) \<and>
     log_start s + nat (log_size s) \<le> disksize s"

definition block_used :: "'z log_st_scheme \<Rightarrow> nat \<Rightarrow> bool" where
  "block_used s b \<longleftrightarrow> bit_of (fsview s (bmap_blk s b)) (b mod BPB)"

lemma fs_sb_step: "fs_step s t \<Longrightarrow> fsview t 1 = fsview s 1 \<Longrightarrow>
    fs_sb t = fs_sb s \<and> bmap_blk t = bmap_blk s \<and> data_start t = data_start s \<and> fs_layout t = fs_layout s"
proof -
  assume st: "fs_step s t" and v: "fsview t 1 = fsview s 1"
  have sb: "fs_sb t = fs_sb s" using v by (simp only: fs_sb_def)
  have "bmap_blk t = bmap_blk s" by (rule ext) (simp only: bmap_blk_def sb)
  moreover have "data_start t = data_start s" by (simp only: data_start_def sb)
  ultimately show ?thesis using sb fs_step_fields(1,2,5) [OF st] by (simp add: fs_layout_def)
qed

lemma bmap_blk_range:
  assumes l: "fs_layout s" and b: "b < sb_size (fs_sb s)"
  shows "bmap_blk s b < data_start s" "1 < bmap_blk s b" "bmap_blk s b < disksize s" "\<not> in_log s (bmap_blk s b)"
proof -
  show d: "bmap_blk s b < data_start s"
    using div_le_mono [of b "sb_size (fs_sb s)" BPB] b by (simp add: bmap_blk_def data_start_def BBLOCK_def)
  show "1 < bmap_blk s b" by (simp add: bmap_blk_def BBLOCK_def)
  show "bmap_blk s b < disksize s" "\<not> in_log s (bmap_blk s b)"
    using d l by (auto simp: fs_layout_def in_log_def)
qed

lemma tx_sb: "tx s S \<Longrightarrow> 1 \<notin> busy_secs s \<and> \<not> in_log s 1 \<and> 1 < disksize s"
  using txD(7,8) [of s S] log_invD(2) [OF txD(1), of s S]
  by (auto simp: loggable_def in_log_def log_layout_def)

lemma wp_readsb_tx:
  assumes x: "tx s S" and m: "\<And>t. tx t S \<Longrightarrow> fs_step s t \<Longrightarrow> fsview t = fsview s \<Longrightarrow> Q (fs_sb s) t"
  shows "wp (readsb ROOTDEV) Q s"
  unfolding readsb_def using tx_sb [OF x] m by (intro wp_tx_read [OF x]) (simp_all add: fs_sb_def)

lemma wp_bzero:
  assumes x: "tx s S" and b: "b \<in> S" "b \<notin> busy_secs s"
    and m: "\<And>t. tx t S \<Longrightarrow> fs_step s t \<Longrightarrow> fsview t = (fsview s)(b := zero_bytes) \<Longrightarrow> wp m Q t"
  shows "wp (kthen (bzero ROOTDEV b) m) Q s"
proof -
  have "wp (kbind (bread ROOTDEV b) (\<lambda>bp. kthen (set_data bp (\<lambda>_. zero_bytes)) (kthen (log_write bp) (kthen (brelse bp) m)))) Q s"
    using m by (intro wp_tx_log [OF x b]) simp_all
  then show ?thesis by (simp add: bzero_def)
qed

lemma bread_post_data: "bread_post s sec b t \<Longrightarrow> b_data (bufs t b) = view s sec"
  using owns_data [of t b sec] by (simp add: bread_post_def)

text \<open>The bitmap scan reads a block, and then either writes it or goes on.\<close>

lemma wp_tx_scan:
  assumes x: "tx s S" and sec: "sec < disksize s" "sec \<notin> busy_secs s" "\<not> in_log s sec"
    and go: "\<And>t. c (fsview s sec) = None \<Longrightarrow> tx t S \<Longrightarrow> fs_step s t \<Longrightarrow> fsview t = fsview s \<Longrightarrow> wp go Q t"
    and found: "\<And>v t. c (fsview s sec) = Some v \<Longrightarrow> tx t S \<Longrightarrow> fs_step s t \<Longrightarrow>
      fsview t = (fsview s)(sec := f v (fsview s sec)) \<Longrightarrow> sec \<in> S \<Longrightarrow> wp (m v) Q t"
    and inS: "c (fsview s sec) \<noteq> None \<Longrightarrow> sec \<in> S"
  shows "wp (kbind (bread ROOTDEV sec) (\<lambda>bp. kbind (buf_data bp) (\<lambda>d.
    case c d of Some v \<Rightarrow> kthen (set_data bp (f v)) (kthen (log_write bp) (kthen (brelse bp) (m v)))
    | None \<Rightarrow> kthen (brelse bp) go))) Q s"
proof -
  have vs: "view s sec = fsview s sec" using sec(3) by (simp add: fsview_def)
  have same: "wp (kbind (bread ROOTDEV sec) (\<lambda>bp. kbind (buf_data bp) (\<lambda>d.
      case c d of Some v \<Rightarrow> kthen (set_data bp (f v)) (kthen (log_write bp) (kthen (brelse bp) (m v)))
      | None \<Rightarrow> kthen (brelse bp) go))) Q s"
    if "wp (kbind (bread ROOTDEV sec) (\<lambda>bp. case c (fsview s sec) of
        Some v \<Rightarrow> kthen (set_data bp (f v)) (kthen (log_write bp) (kthen (brelse bp) (m v)))
      | None \<Rightarrow> kthen (brelse bp) go)) Q s"
  proof -
    have "wp (bread ROOTDEV sec) (\<lambda>b t. b_data (bufs t b) = fsview s sec) s"
      using tx_can_read [OF x sec(1,2)] vs by (intro wp_bread) (auto simp: can_read_def bread_post_data)
    from wp_conj [OF this that [unfolded wp_kbind]] show ?thesis
      by (auto simp: buf_data_def elim!: wp_mono)
  qed
  show ?thesis
  proof (rule same, cases "c (fsview s sec)")
    case None
    have "wp (kbind (bread ROOTDEV sec) (\<lambda>b. kbind (buf_data b) (\<lambda>d. kthen (brelse b) go))) Q s"
      using go [OF None] by (intro wp_tx_read [OF x sec])
    with None show "wp (kbind (bread ROOTDEV sec) (\<lambda>bp. case c (fsview s sec) of
        Some v \<Rightarrow> kthen (set_data bp (f v)) (kthen (log_write bp) (kthen (brelse bp) (m v)))
      | None \<Rightarrow> kthen (brelse bp) go)) Q s" by (simp add: buf_data_def)
  next
    case (Some v)
    then have S: "sec \<in> S" using inS by simp
    have "wp (kbind (bread ROOTDEV sec) (\<lambda>b. kthen (set_data b (f v)) (kthen (log_write b) (kthen (brelse b) (m v))))) Q s"
      using found [OF Some] S by (intro wp_tx_log [OF x S sec(2)])
    with Some show "wp (kbind (bread ROOTDEV sec) (\<lambda>bp. case c (fsview s sec) of
        Some v \<Rightarrow> kthen (set_data bp (f v)) (kthen (log_write bp) (kthen (brelse bp) (m v)))
      | None \<Rightarrow> kthen (brelse bp) go)) Q s" by simp
  qed
qed

lemma wp_balloc_scan:
  assumes "tx s S" "fs_layout s" "b < sb_size (fs_sb s)"
    and "\<And>y. y < sb_size (fs_sb s) \<Longrightarrow> bmap_blk s y \<notin> busy_secs s"
    and "\<forall>y \<in> set pre. y < sb_size (fs_sb s) \<and> find_free (fsview s (bmap_blk s y)) [0..<min BPB (sb_size (fs_sb s) - y)] = None"
    and "find_free (fsview s (bmap_blk s b)) [0..<min BPB (sb_size (fs_sb s) - b)] = Some bi"
    and "bmap_blk s b \<in> S"
    and "\<And>t. tx t S \<Longrightarrow> fs_step s t \<Longrightarrow> fsview t = (fsview s)(bmap_blk s b := mark_bit bi (fsview s (bmap_blk s b))) \<Longrightarrow>
      wp (kthen (bzero ROOTDEV (b + bi)) (kret (b + bi))) Q t"
  shows "wp (balloc_from ROOTDEV (fs_sb s) (pre @ b # post)) Q s"
  using assms
proof (induction pre arbitrary: s)
  case Nil
  note A = Nil.prems
  show ?case
    using A(4) [OF A(3)] A(6,7,8) bmap_blk_range [OF A(2,3)]
    by (simp only: append.simps balloc_from.simps bmap_blk_def [symmetric])
      (rule wp_tx_scan [OF A(1)], auto)
next
  case (Cons y pre)
  note A = Cons.prems
  have y: "y < sb_size (fs_sb s)" and no: "find_free (fsview s (bmap_blk s y)) [0..<min BPB (sb_size (fs_sb s) - y)] = None"
    using A(5) by auto
  note r = bmap_blk_range [OF A(2) y]
  have "wp (balloc_from ROOTDEV (fs_sb s) (pre @ b # post)) Q t"
    if t: "tx t S" "fs_step s t" "fsview t = fsview s" for t
  proof -
    note F = fs_step_fields [OF t(2)]
    have sb: "fs_sb t = fs_sb s" "bmap_blk t = bmap_blk s" "fs_layout t = fs_layout s"
      using fs_sb_step [OF t(2)] t(3) by simp_all
    have "wp (balloc_from ROOTDEV (fs_sb t) (pre @ b # post)) Q t"
      using A t fs_step_trans [OF t(2)] by (intro Cons.IH) (simp_all add: F sb)
    then show ?thesis by (simp add: sb)
  qed
  then show ?case
    using A(4) [OF y] no r
    by (simp only: append.simps balloc_from.simps bmap_blk_def [symmetric])
      (rule wp_tx_scan [OF A(1)], auto)
qed

definition first_free :: "'z log_st_scheme \<Rightarrow> nat \<Rightarrow> bool" where
  "first_free s b \<longleftrightarrow> b < sb_size (fs_sb s) \<and> \<not> block_used s b \<and> (\<forall>y<b. block_used s y)"

lemma find_free_eq: "bi < n \<Longrightarrow> \<not> bit_of d bi \<Longrightarrow> (\<And>x. x < bi \<Longrightarrow> bit_of d x) \<Longrightarrow> find_free d [0..<n] = Some bi"
proof (cases "find_free d [0..<n]")
  case (Some bj)
  assume "bi < n" "\<not> bit_of d bi" "\<And>x. x < bi \<Longrightarrow> bit_of d x"
  with find_free_Some [OF Some] Some show ?thesis by (metis atLeastLessThan_iff le0 linorder_neqE_nat set_upt sorted_upt)
qed (auto simp: find_free_None)

lemma block_used_at: "x < BPB \<Longrightarrow> block_used s (k * BPB + x) = bit_of (fsview s (bmap_blk s (k * BPB))) x"
proof -
  assume x: "x < BPB"
  have "(k * BPB + x) div BPB = k" using x by (simp add: BPB_def)
  moreover have "k * BPB div BPB = k" by (simp add: BPB_def)
  ultimately have "bmap_blk s (k * BPB + x) = bmap_blk s (k * BPB)" by (simp add: bmap_blk_def BBLOCK_def)
  moreover have "(k * BPB + x) mod BPB = x" using x by simp
  ultimately show ?thesis by (simp add: block_used_def)
qed

lemma upt_split:
  assumes "k < n" shows "[0..<n] = [0..<k] @ k # [Suc k..<n]"
proof -
  have "[0..<n] = [0..<k] @ [k..<n]" using upt_add_eq_append [of 0 k "n - k"] assms by simp
  then show ?thesis by (simp only: upt_conv_Cons [OF assms])
qed

lemma bitmap_starts_split:
  "b < sz \<Longrightarrow> bitmap_starts sz = map (\<lambda>k. k * BPB) [0..<b div BPB] @ (b div BPB * BPB) #
     map (\<lambda>k. k * BPB) [Suc (b div BPB)..<(sz + BPB - 1) div BPB]"
proof -
  assume "b < sz"
  have "b div BPB < (sz + BPB - 1) div BPB"
  proof -
    have "b div BPB * BPB < sz" using \<open>b < sz\<close> div_times_less_eq_dividend [of b BPB] by linarith
    then have "(b div BPB + 1) * BPB \<le> sz + BPB - 1" by simp
    then have "b div BPB + 1 \<le> (sz + BPB - 1) div BPB" by (simp add: less_eq_div_iff_mult_less_eq BPB_def)
    then show ?thesis by simp
  qed
  then have "[0..<(sz + BPB - 1) div BPB] = [0..<b div BPB] @ b div BPB # [Suc (b div BPB)..<(sz + BPB - 1) div BPB]"
    by (rule upt_split)
  then show ?thesis by (simp add: bitmap_starts_def)
qed

text \<open>The scan of \<open>balloc\<close> finds the first free block and marks it; what is left is \<open>bzero\<close>.\<close>

lemma wp_balloc_first:
  assumes x: "tx s S" and l: "fs_layout s" and f: "first_free s b" and bb: "bmap_blk s b \<in> S"
    and busy: "\<And>y. y < sb_size (fs_sb s) \<Longrightarrow> bmap_blk s y \<notin> busy_secs s"
    and Q: "\<And>t. tx t S \<Longrightarrow> fs_step s t \<Longrightarrow> fsview t = (fsview s)(bmap_blk s b :=
      mark_bit (b mod BPB) (fsview s (bmap_blk s b))) \<Longrightarrow> wp (kthen (bzero ROOTDEV b) (kret b)) Q t"
  shows "wp (balloc ROOTDEV) Q s"
proof -
  let ?q = "b div BPB" and ?bi = "b mod BPB" and ?sz = "sb_size (fs_sb s)"
  note F = f [unfolded first_free_def]
  have P: "BPB > 0" by (simp add: BPB_def)
  have b: "?q * BPB + ?bi = b" by simp
  have bq: "bmap_blk s (?q * BPB) = bmap_blk s b" by (simp add: bmap_blk_def BBLOCK_def P BPB_def)
  have ff: "find_free (fsview s (bmap_blk s (?q * BPB))) [0..<min BPB (?sz - ?q * BPB)] = Some ?bi"
  proof (rule find_free_eq)
    show "?bi < min BPB (?sz - ?q * BPB)" using F P b by (simp add: less_diff_conv add.commute)
    show "\<not> bit_of (fsview s (bmap_blk s (?q * BPB))) ?bi"
      using F block_used_at [of ?bi s ?q] P by simp
    show "bit_of (fsview s (bmap_blk s (?q * BPB))) y" if "y < ?bi" for y
    proof -
      have "y < BPB" "?q * BPB + y < b" using that b P mod_less_divisor [OF P, of b] by linarith+
      then show ?thesis using F block_used_at [of y s ?q] by blast
    qed
  qed
  have pre: "k * BPB < ?sz \<and> find_free (fsview s (bmap_blk s (k * BPB))) [0..<min BPB (?sz - k * BPB)] = None"
    if "k < ?q" for k
  proof -
    have "(k + 1) * BPB \<le> ?q * BPB" using that by (intro mult_right_mono) simp_all
    then have "k * BPB + BPB \<le> b div BPB * BPB" by simp
    also have "\<dots> \<le> b" by (rule div_times_less_eq_dividend)
    finally have kb: "k * BPB + BPB \<le> b" .
    have "bit_of (fsview s (bmap_blk s (k * BPB))) y" if "y < BPB" for y
      using F block_used_at [OF that, of s k] kb that by auto
    moreover have "k * BPB < ?sz" using kb F P by linarith
    ultimately show ?thesis by (auto simp: find_free_None)
  qed
  show ?thesis
    unfolding balloc_def wp_kbind
  proof (rule wp_readsb_tx [OF x])
    fix t assume t: "tx t S" "fs_step s t" "fsview t = fsview s"
    note G = fs_step_fields [OF t(2)]
    have sb: "fs_sb t = fs_sb s" "bmap_blk t = bmap_blk s" "fs_layout t = fs_layout s"
      using fs_sb_step [OF t(2)] t(3) by simp_all
    have sp: "bitmap_starts ?sz = map (\<lambda>k. k * BPB) [0..<?q] @ (?q * BPB) #
      map (\<lambda>k. k * BPB) [Suc ?q..<(?sz + BPB - 1) div BPB]"
      using F bitmap_starts_split [of b ?sz] by simp
    have "wp (balloc_from ROOTDEV (fs_sb t) (bitmap_starts ?sz)) Q t"
      unfolding sp
    proof (rule wp_balloc_scan [OF t(1)])
      show "\<forall>y\<in>set (map (\<lambda>k. k * BPB) [0..<?q]). y < sb_size (fs_sb t) \<and>
         find_free (fsview t (bmap_blk t y)) [0..<min BPB (sb_size (fs_sb t) - y)] = None"
        using pre by (simp add: sb t(3))
      show "?q * BPB < sb_size (fs_sb t)"
        unfolding sb using F div_times_less_eq_dividend [of b BPB] by linarith
      fix u assume u: "tx u S" "fs_step t u"
        "fsview u = (fsview t)(bmap_blk t (?q * BPB) := mark_bit ?bi (fsview t (bmap_blk t (?q * BPB))))"
      show "wp (kthen (bzero ROOTDEV (?q * BPB + ?bi)) (kret (?q * BPB + ?bi))) Q u"
        unfolding b by (rule Q) (use u fs_step_trans [OF t(2) u(2)] in \<open>simp_all only: b sb bq t(3)\<close>)
    qed (use l bb busy ff in \<open>simp_all only: sb bq t(3) G not_False_eq_True\<close>)
    then show "wp (balloc_from ROOTDEV (fs_sb s) (bitmap_starts ?sz)) Q t" by (simp only: sb)
  qed
qed

lemma wp_balloc:
  assumes x: "tx s S" and l: "fs_layout s" and f: "first_free s b" and bb: "bmap_blk s b \<in> S" "loggable s b"
    and busy: "b \<notin> busy_secs s" "\<And>y. y < sb_size (fs_sb s) \<Longrightarrow> bmap_blk s y \<notin> busy_secs s"
    and c: "card (insert b S) \<le> 8"
    and Q: "\<And>t. tx t (insert b S) \<Longrightarrow> fs_step s t \<Longrightarrow> fsview t = (fsview s)(bmap_blk s b :=
      mark_bit (b mod BPB) (fsview s (bmap_blk s b)), b := zero_bytes) \<Longrightarrow> Q b t"
  shows "wp (balloc ROOTDEV) Q s"
proof (rule wp_balloc_first [OF x l f bb(1) busy(2)])
  fix t assume t: "tx t S" "fs_step s t"
    "fsview t = (fsview s)(bmap_blk s b := mark_bit (b mod BPB) (fsview s (bmap_blk s b)))"
  note F = fs_step_fields [OF t(2)]
  show "wp (kthen (bzero ROOTDEV b) (kret b)) Q t"
  proof (rule wp_bzero)
    show "tx t (insert b S)"
      using bb c txD(4,8) [OF t(1)] by (intro tx_mono [OF t(1)]) (auto simp: F)
    show "b \<in> insert b S" "b \<notin> busy_secs t" using busy by (simp_all add: F)
    fix u assume u: "tx u (insert b S)" "fs_step t u" "fsview u = (fsview t)(b := zero_bytes)"
    have "Q b u" by (rule Q [OF u(1) fs_step_trans [OF t(2) u(2)]]) (simp only: u(3) t(3))
    then show "wp (kret b) Q u" by simp
  qed
qed

lemma wp_False: "wp m (\<lambda>_ _. False) s = False"
  by (simp add: wp_iff)

lemma wp_bfree:
  assumes x: "tx s S" and l: "fs_layout s" and b: "b < sb_size (fs_sb s)" "block_used s b" "bmap_blk s b \<in> S"
    and busy: "bmap_blk s b \<notin> busy_secs s"
    and m: "\<And>t. tx t S \<Longrightarrow> fs_step s t \<Longrightarrow>
      fsview t = (fsview s)(bmap_blk s b := clear_bit (b mod BPB) (fsview s (bmap_blk s b))) \<Longrightarrow> wp m Q t"
  shows "wp (kthen (bfree ROOTDEV b) m) Q s"
proof -
  let ?c = "\<lambda>d. if bit_of d (b mod BPB) then Some () else None"
  note r = bmap_blk_range [OF l b(1)]
  have "wp (kbind (bread ROOTDEV (bmap_blk s b)) (\<lambda>bp. kbind (buf_data bp) (\<lambda>d.
      case ?c d of Some _ \<Rightarrow> kthen (set_data bp (clear_bit (b mod BPB))) (kthen (log_write bp) (kthen (brelse bp) m))
      | None \<Rightarrow> kthen (brelse bp) (kpanic ''freeing free block'')))) Q t"
    if t: "tx t S" "fs_step s t" "fsview t = fsview s" for t
  proof (rule wp_tx_scan [OF t(1)])
    note G = fs_step_fields [OF t(2)]
    show "bmap_blk s b < disksize t" "bmap_blk s b \<notin> busy_secs t" "\<not> in_log t (bmap_blk s b)"
      using r busy by (simp_all add: G)
    show "wp m Q u" if "tx u S" "fs_step t u" "fsview u = (fsview t)(bmap_blk s b := clear_bit (b mod BPB) (fsview t (bmap_blk s b)))" for u
      by (rule m [OF that(1) fs_step_trans [OF t(2) that(2)]]) (simp only: that(3) t(3))
  qed (use b in \<open>auto simp: block_used_def t(3)\<close>)
  moreover have "wp (kbind (bread ROOTDEV (bmap_blk s b)) (\<lambda>bp. kbind (buf_data bp) (\<lambda>d.
      if \<not> bit_of d (b mod BPB) then kpanic ''freeing free block''
      else kthen (set_data bp (clear_bit (b mod BPB))) (kthen (log_write bp) (brelse bp))))) (\<lambda>_. wp m Q) t"
    if "wp (kbind (bread ROOTDEV (bmap_blk s b)) (\<lambda>bp. kbind (buf_data bp) (\<lambda>d.
      case ?c d of Some _ \<Rightarrow> kthen (set_data bp (clear_bit (b mod BPB))) (kthen (log_write bp) (kthen (brelse bp) m))
      | None \<Rightarrow> kthen (brelse bp) (kpanic ''freeing free block'')))) Q t" for t
    using that unfolding wp_kbind buf_data_def wp_kget by (rule wp_mono) (simp add: wp_False split: if_splits)
  ultimately show ?thesis
    unfolding bfree_def wp_kthen wp_kbind by (intro wp_readsb_tx [OF x]) (simp add: bmap_blk_def)
qed

section \<open>The log is not protected from the allocator\<close>

text \<open>Nothing stops \<open>log_write\<close> from logging the header block of the log itself.\<close>

lemma log_write_header_returns:
  assumes inv: "bio_inv s" and o: "owns s b sec" and lk: "LK_bcache \<notin> held s" "LK_ptable \<notin> held s"
    and n: "0 \<le> lh_n s" "lh_n s + 1 < log_size s" "log_size s \<le> int LOGSIZE" "log_busy s"
    and l: "log_start s + nat (log_size s) \<le> disksize s" "disksize s < 4294967296"
    and busy: "busy_secs s = {sec}" and c: "card (dirty_secs s \<union> busy_secs s) < NBUF"
    and sec: "sec = log_start s" and Q: "\<And>t. bio_inv t \<Longrightarrow> owns t b sec \<Longrightarrow> held t = held s \<Longrightarrow> sec \<in> dirty_secs t \<Longrightarrow> Q () t"
  shows "wp (log_write b) Q s"
proof -
  define i where "i = log_index sec (lh_sector s) [0..<nat (lh_n s)] (nat (lh_n s))"
  let ?l = "log_start s + i + 1"
  have il: "log_index sec (lh_sector s) js m = m \<or> log_index sec (lh_sector s) js m \<in> set js" for js m
    by (induction js) auto
  have "i \<le> nat (lh_n s)" using il [of "[0..<nat (lh_n s)]" "nat (lh_n s)"] by (auto simp: i_def)
  then have ll: "?l < disksize s" "u32 ?l = ?l" using n l by auto
  let ?s = "s\<lparr>lh_sector := (lh_sector s)(i := sec)\<rparr>"
  have "wp (bread ROOTDEV ?l) (\<lambda>lb. wp (buf_data b) (\<lambda>d. wp (kthen (set_data lb (\<lambda>_. d)) (kthen (bwrite lb) (kthen (brelse lb)
      (kthen (kwhen (int i = lh_n s) (kmod (\<lambda>s. s\<lparr>lh_n := lh_n s + 1\<rparr>))) (set_buf b (\<lambda>x. x\<lparr>b_dirty := True\<rparr>)))))) Q)) ?s"
  proof (rule wp_bread)
    show "bio_inv ?s" "LK_bcache \<notin> held ?s" "?l < disksize ?s" using inv lk ll by simp_all
    show "?l \<notin> busy_secs ?s" using busy sec by simp
    show "?l \<in> dirty_secs ?s \<or> card (dirty_secs ?s \<union> busy_secs ?s) < NBUF" using c by simp
    fix lb t assume t: "bread_post ?s ?l lb t"
    note t' = t [unfolded bread_post_def]
    have h: "held t = held s" using t' bio_frame_fields(1) [of ?s t] by auto
    have "wp (kthen (set_data lb (\<lambda>_. d)) (kthen (bwrite lb) (kthen (brelse lb)
      (kthen (kwhen (int i = lh_n s) (kmod (\<lambda>s. s\<lparr>lh_n := lh_n s + 1\<rparr>))) (set_buf b (\<lambda>x. x\<lparr>b_dirty := True\<rparr>)))))) Q t" for d
    proof (rule wp_update_release)
      show "bio_inv t" "owns t lb ?l" "LK_bcache \<notin> held t" "LK_ptable \<notin> held t" using t' lk h by auto
      fix v assume v: "bio_inv v" "bio_frame t v" "keeps_owned t v {?l}"
      have hv: "held v = held s" using bio_frame_fields(1) [OF v(2)] h by simp
      have ov: "owns v b sec" using v(3) t' o sec by (auto simp: keeps_owned_def)
      have "wp (set_buf b (\<lambda>x. x\<lparr>b_dirty := True\<rparr>)) Q w"
        if w: "bio_inv w" "owns w b sec" "held w = held s" for w
      proof (rule wp_mark_dirty [OF w(1,2)])
        fix u assume u: "mark_dirty_post w sec u"
        note u' = u [unfolded mark_dirty_post_def keeps_owned_def]
        show "Q () u" using u' w bio_frame_fields(1) [of w u] by (intro Q) auto
      qed
      then show "wp (kthen (kwhen (int i = lh_n s) (kmod (\<lambda>s. s\<lparr>lh_n := lh_n s + 1\<rparr>))) (set_buf b (\<lambda>x. x\<lparr>b_dirty := True\<rparr>))) Q v"
        using v(1) ov hv by (cases "int i = lh_n s") (simp_all del: wp_set_buf)
    qed
    then show "wp (buf_data b) (\<lambda>d. wp (kthen (set_data lb (\<lambda>_. d)) (kthen (bwrite lb) (kthen (brelse lb)
      (kthen (kwhen (int i = lh_n s) (kmod (\<lambda>s. s\<lparr>lh_n := lh_n s + 1\<rparr>))) (set_buf b (\<lambda>x. x\<lparr>b_dirty := True\<rparr>)))))) Q) t"
      by (simp only: buf_data_def wp_kget)
  qed
  then show ?thesis
    using n ll(2) owns_simps(2,3) [OF o]
    by (simp add: log_write_def i_def [symmetric] add.assoc)
qed

lemma bzero_header_returns:
  assumes x: "tx s S" and b: "busy_secs s = {}" shows "wp (bzero ROOTDEV (log_start s)) (\<lambda>_ _. True) s"
proof -
  note T = txD [OF x] and I = log_invD [OF txD(1) [OF x]]
  note H = log_inv_head_block [OF T(1)]
  have L: "log_size s \<le> int LOGSIZE" "log_start s + nat (log_size s) \<le> disksize s" "disksize s < 4294967296"
    using I(2) by (auto simp: log_layout_def)
  have c: "card (insert (log_start s) (dirty_secs s)) < NBUF"
    using T(12) finite_dirty [of s] b by (auto simp: NBUF_def card_insert_if)
  have cr: "can_read s (log_start s)" using tx_can_read [OF x H(2)] b by simp
  show ?thesis
    unfolding bzero_def wp_kbind wp_kthen
  proof (rule wp_bread, use cr in \<open>simp_all add: can_read_def\<close>)
    fix bp t assume t: "bread_post s (log_start s) bp t"
    note t' = t [unfolded bread_post_def]
    show "wp (set_data bp (\<lambda>_. zero_bytes)) (\<lambda>_. wp (log_write bp) (\<lambda>_. wp (brelse bp) (\<lambda>_ _. True))) t"
    proof (rule wp_set_data)
      show "bio_inv t" "owns t bp (log_start s)" using t' by auto
      fix u assume u: "set_data_post t (log_start s) (\<lambda>_. zero_bytes) u"
      note u' = u [unfolded set_data_post_def]
      have fr: "bio_frame s u" using t' u' by (auto intro: bio_frame_trans)
      note F = bio_frame_fields [OF fr] log_frame_fields [OF fr]
      have ou: "owns u bp (log_start s)" using t' u' by (auto simp: keeps_owned_def)
      show "wp (log_write bp) (\<lambda>_. wp (brelse bp) (\<lambda>_ _. True)) u"
      proof (rule log_write_header_returns)
        show "bio_inv u" "owns u bp (log_start s)" "busy_secs u = {log_start s}" using u' t' ou b by auto
        show "card (dirty_secs u \<union> busy_secs u) < NBUF" using u' t' c b by simp
        fix v assume "bio_inv v" "owns v bp (log_start s)" "held v = held u" "log_start s \<in> dirty_secs v"
        then show "wp (brelse bp) (\<lambda>_ _. True) v" using T(10,11) F by (intro wp_brelse) auto
      qed (use T(2,9-11) I(3) L in \<open>simp_all add: F\<close>)
    qed
  qed
qed

section \<open>Properties\<close>

text \<open>C11. \<open>balloc\<close> in a transaction with room for one more block returns the lowest free block: it is
  then marked in use and zeroed, every other block is marked as before, and every block other than
  that one and its bitmap block keeps its contents.\<close>

theorem balloc_first_free:
  assumes x: "tx s S" and l: "fs_layout s" and f: "first_free s b" and b: "data_start s \<le> b" "b < log_start s"
    and S: "bmap_blk s b \<in> S" "busy_secs s = {}" "card (insert b S) \<le> 8"
  shows "\<exists>t. balloc ROOTDEV s = Ok b t \<and> tx t (insert b S) \<and> fsview t b = zero_bytes \<and>
    (\<forall>y < sb_size (fs_sb s). block_used t y \<longleftrightarrow> y = b \<or> block_used s y) \<and>
    (\<forall>y. y \<noteq> b \<and> y \<noteq> bmap_blk s b \<longrightarrow> fsview t y = fsview s y)"
proof -
  have bs: "b < sb_size (fs_sb s)" using f by (simp add: first_free_def)
  have lg: "loggable s b" "b \<noteq> bmap_blk s b" "1 \<noteq> b" "1 \<noteq> bmap_blk s b"
    using l b bmap_blk_range [OF l bs] by (auto simp: loggable_def fs_layout_def in_log_def data_start_def)
  let ?P = "\<lambda>r t. r = b \<and> tx t (insert b S) \<and> fs_step s t \<and> fsview t = (fsview s)(bmap_blk s b :=
      mark_bit (b mod BPB) (fsview s (bmap_blk s b)), b := zero_bytes)"
  have "wp (balloc ROOTDEV) ?P s"
    using S lg by (intro wp_balloc [OF x l f]) simp_all
  then obtain t where ok: "balloc ROOTDEV s = Ok b t" and t: "tx t (insert b S)" "fs_step s t"
    "fsview t = (fsview s)(bmap_blk s b := mark_bit (b mod BPB) (fsview s (bmap_blk s b)), b := zero_bytes)"
    by (auto simp: wp_iff)
  have sb: "bmap_blk t = bmap_blk s" using fs_sb_step [OF t(2)] lg by (simp add: t(3))
  have "block_used t y \<longleftrightarrow> y = b \<or> block_used s y" if y: "y < sb_size (fs_sb s)" for y
  proof -
    have ne: "bmap_blk s y \<noteq> b" using bmap_blk_range(1) [OF l y] b by simp
    show ?thesis
    proof (cases "bmap_blk s y = bmap_blk s b")
      case True
      then have "y div BPB = b div BPB" by (simp add: bmap_blk_def BBLOCK_def)
      then have "y mod BPB = b mod BPB \<longleftrightarrow> y = b" by (metis div_mod_decomp)
      then show ?thesis using True ne by (simp add: block_used_def sb t(3) bit_of_mark)
    next
      case False
      then show ?thesis using ne by (auto simp: block_used_def sb t(3))
    qed
  qed
  then show ?thesis using ok t by auto
qed

lemma wit_log_tx: "tx wit_log {3, 5}" and wit_log_view: "x < 30 \<Longrightarrow> x \<noteq> 5 \<Longrightarrow> fsview wit_log x = wit_disk x"
  using wit_log_post by (auto simp: tx_def wit_tx_post_def LOGSIZE_def loggable_def in_log_def)

lemma wit_log_sb: "sb_size (fs_sb wit_log) = 40" "sb_ninodes (fs_sb wit_log) = 0"
  using wit_log_view [of 1] by (simp_all add: fs_sb_def) (simp_all add: wit_disk_def decode_sb_def get32_def)

lemma wit_log_layout: "fs_layout wit_log" "data_start wit_log = 4" "b < 40 \<Longrightarrow> bmap_blk wit_log b = 3" "log_start wit_log = 30"
  using wit_log_post
  by (auto simp: fs_layout_def data_start_def wit_log_sb wit_tx_post_def BPB_def IPB_def bmap_blk_def BBLOCK_def)

lemma wit_log_used: "b < 40 \<Longrightarrow> block_used wit_log b \<longleftrightarrow> b < 4"
proof -
  assume b: "b < 40"
  have "bit (15 :: byte) n \<longleftrightarrow> n < 4" if "n < 8" for n
    using that by (auto simp: less_Suc_eq numeral_eq_Suc bit_Suc simp flip: bit_0)
  moreover have "b mod BPB = b" using b by (simp add: BPB_def)
  ultimately show ?thesis
    using b wit_log_view [of 3] by (auto simp: block_used_def wit_log_layout bit_of_iff wit_disk_def)
qed

theorem balloc_first_free_witness:
  "\<exists>t. balloc ROOTDEV wit_log = Ok 4 t \<and> fsview t 4 = zero_bytes \<and> block_used t 4"
proof -
  have "first_free wit_log 4" by (simp add: first_free_def wit_log_sb wit_log_used)
  moreover have "busy_secs wit_log = {}" using wit_log_post by (simp add: wit_tx_post_def)
  ultimately show ?thesis
    using balloc_first_free [of wit_log "{3, 5}" 4] wit_log_tx
    by (auto simp: wit_log_layout wit_log_sb)
qed

text \<open>C22. Finding.  \<open>balloc\<close> takes every block below \<open>sb.size\<close> whose bit is clear, and the bits of the log
  blocks are clear on the disk \<open>mkfs\<close> makes.  When all blocks below the log are in use, \<open>balloc\<close>
  returns the header block of the log as a data block.\<close>

theorem balloc_returns_log_header:
  assumes x: "tx s S" and l: "fs_layout s" and f: "first_free s (log_start s)"
    and S: "bmap_blk s (log_start s) \<in> S" "busy_secs s = {}"
  shows "\<exists>t. balloc ROOTDEV s = Ok (log_start s) t \<and> in_log s (log_start s)"
proof -
  have "wp (balloc ROOTDEV) (\<lambda>r _. r = log_start s) s"
  proof (rule wp_balloc_first [OF x l f S(1)])
    fix t assume t: "tx t S" "fs_step s t"
    note F = fs_step_fields [OF t(2)]
    have "wp (bzero ROOTDEV (log_start t)) (\<lambda>_ _. True) t" using t S by (intro bzero_header_returns) (auto simp: F)
    then show "wp (kthen (bzero ROOTDEV (log_start s)) (kret (log_start s))) (\<lambda>r _. r = log_start s) t"
      by (simp add: F)
  qed (use S in simp)
  then show ?thesis using log_inv_head_block(1) [OF txD(1) [OF x]] by (auto simp: wp_iff)
qed

text \<open>The same disk with every block below the log in use.\<close>

definition wit_bitmap :: bytes where
  "wit_bitmap = (\<lambda>i. if i < 3 then 255 else if i = 3 then 63 else 0)"

definition wit_full :: log_st where
  "wit_full = (case kbind (bread ROOTDEV 3) (\<lambda>b. kthen (set_data b (\<lambda>_. wit_bitmap)) (kthen (log_write b) (brelse b))) wit_log of
     Ok _ t \<Rightarrow> t | _ \<Rightarrow> wit_log)"

lemma wit_full: "tx wit_full {3, 5}" "fs_step wit_log wit_full" "fsview wit_full = (fsview wit_log)(3 := wit_bitmap)"
proof -
  let ?m = "kbind (bread ROOTDEV 3) (\<lambda>b. kthen (set_data b (\<lambda>_. wit_bitmap)) (kthen (log_write b) (kthen (brelse b) (kret ()))))"
  let ?P = "\<lambda>t. tx t {3, 5} \<and> fs_step wit_log t \<and> fsview t = (fsview wit_log)(3 := wit_bitmap)"
  have "wp ?m (\<lambda>_. ?P) wit_log"
    using wit_log_post by (intro wp_tx_log [OF wit_log_tx]) (simp_all add: wit_tx_post_def)
  then have "wp (kbind (bread ROOTDEV 3) (\<lambda>b. kthen (set_data b (\<lambda>_. wit_bitmap)) (kthen (log_write b) (brelse b)))) (\<lambda>_. ?P) wit_log"
    by simp
  then have "?P wit_full" unfolding wp_iff by (auto simp: wit_full_def)
  then show "tx wit_full {3, 5}" "fs_step wit_log wit_full" "fsview wit_full = (fsview wit_log)(3 := wit_bitmap)" by simp_all
qed

theorem balloc_returns_log_header_witness: "\<exists>t. balloc ROOTDEV wit_full = Ok 30 t \<and> in_log wit_full 30"
proof -
  note F = fs_step_fields [OF wit_full(2)]
  have sb: "fs_sb wit_full = fs_sb wit_log" "bmap_blk wit_full = bmap_blk wit_log" "fs_layout wit_full"
    using fs_sb_step [OF wit_full(2)] wit_log_layout(1) by (simp_all add: wit_full(3))
  have bits: "bit (255 :: byte) n" "bit (63 :: byte) n \<longleftrightarrow> n < 6" if "n < 8" for n
    using that by (auto simp: less_Suc_eq numeral_eq_Suc bit_Suc simp flip: bit_0)
  have used: "block_used wit_full b \<longleftrightarrow> b < 30" if "b \<le> 30" for b
  proof -
    have "b mod BPB = b" "b div 8 < 3 \<or> b div 8 = 3" using that by (auto simp: BPB_def)
    moreover have "b mod 8 < 6 \<longleftrightarrow> b < 30" if "b div 8 = 3" using that div_mod_decomp [of b 8] by linarith
    ultimately show ?thesis
      using that bits [of "b mod 8"] by (auto simp: block_used_def sb wit_log_layout(3) wit_full(3) bit_of_iff wit_bitmap_def)
  qed
  have "first_free wit_full (log_start wit_full)"
    using used by (simp add: first_free_def sb wit_log_sb F wit_log_layout)
  moreover have "busy_secs wit_full = {}" using wit_log_post by (simp add: wit_tx_post_def F)
  ultimately show ?thesis
    using balloc_returns_log_header [of wit_full "{3, 5}"] wit_full(1) sb
    by (auto simp: F wit_log_layout)
qed

text \<open>C20. \<open>bfree\<close> in a transaction clears the mark of that block and of no other and changes nothing but
  the bitmap; freeing a block that is not in use panics.\<close>

theorem bfree_frees:
  assumes x: "tx s S" and l: "fs_layout s" and b: "b < sb_size (fs_sb s)" and S: "bmap_blk s b \<in> S" "bmap_blk s b \<notin> busy_secs s"
  shows "if block_used s b then
      \<exists>t. bfree ROOTDEV b s = Ok () t \<and> tx t S \<and> (\<forall>y < sb_size (fs_sb s). block_used t y \<longleftrightarrow> y \<noteq> b \<and> block_used s y) \<and>
        (\<forall>y. y \<noteq> bmap_blk s b \<longrightarrow> fsview t y = fsview s y)
    else bfree ROOTDEV b s = Panic ''freeing free block''"
proof -
  note r = bmap_blk_range [OF l b]
  have used: "\<exists>t. bfree ROOTDEV b s = Ok () t \<and> tx t S \<and> (\<forall>y < sb_size (fs_sb s). block_used t y \<longleftrightarrow> y \<noteq> b \<and> block_used s y) \<and>
        (\<forall>y. y \<noteq> bmap_blk s b \<longrightarrow> fsview t y = fsview s y)" if u: "block_used s b"
  proof -
    have "wp (kthen (bfree ROOTDEV b) (kret ())) (\<lambda>_ t. tx t S \<and> fs_step s t \<and>
      fsview t = (fsview s)(bmap_blk s b := clear_bit (b mod BPB) (fsview s (bmap_blk s b)))) s"
      using S by (intro wp_bfree [OF x l b u]) simp_all
    then obtain t where ok: "bfree ROOTDEV b s = Ok () t" and t: "tx t S" "fs_step s t"
      "fsview t = (fsview s)(bmap_blk s b := clear_bit (b mod BPB) (fsview s (bmap_blk s b)))"
      by (auto simp: wp_iff)
    have sb: "bmap_blk t = bmap_blk s" using fs_sb_step [OF t(2)] r(2) by (simp add: t(3))
    have "block_used t y \<longleftrightarrow> y \<noteq> b \<and> block_used s y" for y
    proof (cases "bmap_blk s y = bmap_blk s b")
      case True
      then have "y div BPB = b div BPB" by (simp add: bmap_blk_def BBLOCK_def)
      then have "y mod BPB = b mod BPB \<longleftrightarrow> y = b" by (metis div_mod_decomp)
      then show ?thesis using True by (simp add: block_used_def sb t(3) bit_of_clear)
    next
      case False
      then show ?thesis by (auto simp: block_used_def sb t(3))
    qed
    then show ?thesis using ok t by auto
  qed
  have free: "bfree ROOTDEV b s = Panic ''freeing free block''" if u: "\<not> block_used s b"
  proof -
    have "wp (readsb ROOTDEV) (\<lambda>sb t. sb = fs_sb s \<and> wp (bread ROOTDEV (bmap_blk s b)) (\<lambda>bp u. b_data (bufs u bp) = fsview s (bmap_blk s b)) t) s"
    proof (rule wp_readsb_tx [OF x])
      fix t assume t: "tx t S" "fs_step s t" "fsview t = fsview s"
      note F = fs_step_fields [OF t(2)]
      have v: "view t (bmap_blk s b) = fsview s (bmap_blk s b)"
        unfolding t(3) [symmetric] using r(4) by (simp add: fsview_def F)
      have "can_read t (bmap_blk s b)" using tx_can_read [OF t(1)] r S by (simp add: F)
      then show "fs_sb s = fs_sb s \<and> wp (bread ROOTDEV (bmap_blk s b)) (\<lambda>bp u. b_data (bufs u bp) = fsview s (bmap_blk s b)) t"
        using v by (auto simp: can_read_def bread_post_data intro!: wp_bread)
    qed
    then show ?thesis using u by (auto simp: wp_iff bfree_def kern_defs buf_data_def block_used_def bmap_blk_def)
  qed
  show ?thesis using used free by simp
qed

theorem bfree_frees_witness:
  "(\<exists>t. bfree ROOTDEV 3 wit_log = Ok () t \<and> \<not> block_used t 3) \<and> bfree ROOTDEV 9 wit_log = Panic ''freeing free block''"
proof -
  have b: "busy_secs wit_log = {}" using wit_log_post by (simp add: wit_tx_post_def)
  show ?thesis
    using bfree_frees [OF wit_log_tx wit_log_layout(1), of 3] bfree_frees [OF wit_log_tx wit_log_layout(1), of 9]
    by (auto simp: wit_log_layout wit_log_sb wit_log_used b)
qed

end

