(* ===== verification/Inode.thy ===== *)
theory Inode
  imports Balloc
begin

text \<open>
  Inodes (\<open>fs.c\<close>): the inode cache, allocation, locking, reference counts, the block map, and
  reading and writing file contents.

  \<open>fs_st\<close> extends the state by \<open>icache.inode\<close>.  An inode pointer is an index into the cache.  The
  flags word is its two bits.  A file buffer in memory is a byte list on input from \<open>readi\<close> and an
  array on output to \<open>writei\<close>; the device table \<open>devsw\<close> of function pointers is an argument of the
  operations that call through it.
\<close>

section \<open>Data\<close>

definition NINODE :: nat where "NINODE = 50"
definition NDEV :: int where "NDEV = 10"
definition ROOTINO :: nat where "ROOTINO = 1"
definition NDIRECT :: nat where "NDIRECT = 12"
definition NINDIRECT :: nat where "NINDIRECT = BSIZE div 4"
definition MAXFILE :: nat where "MAXFILE = NDIRECT + NINDIRECT"
definition T_DIR :: int where "T_DIR = 1"
definition T_FILE :: int where "T_FILE = 2"
definition T_DEV :: int where "T_DEV = 3"

record inode =
  i_dev :: nat
  i_inum :: nat
  i_ref :: int
  i_busy :: bool
  i_valid :: bool
  i_type :: int
  i_major :: int
  i_minor :: int
  i_nlink :: int
  i_size :: nat
  i_addrs :: "nat \<Rightarrow> nat"

record fs_st = log_st +
  inodes :: "nat \<Rightarrow> inode"

record stat =
  st_type :: int
  st_dev :: nat
  st_ino :: nat
  st_nlink :: int
  st_size :: nat

definition set_inode :: "nat \<Rightarrow> (inode \<Rightarrow> inode) \<Rightarrow> ('z fs_st_scheme, unit) kern" where
  "set_inode ip f = kmod (\<lambda>s. s\<lparr>inodes := (inodes s)(ip := f (inodes s ip))\<rparr>)"

text \<open>The \<open>struct dinode\<close> at byte \<open>o\<close> of an inode block.\<close>

definition dinode_off :: "nat \<Rightarrow> nat" where
  "dinode_off inum = inum mod IPB * 64"

definition load_dinode :: "bytes \<Rightarrow> nat \<Rightarrow> inode \<Rightarrow> inode" where
  "load_dinode d p ip = ip\<lparr>i_type := gets16 d p, i_major := gets16 d (p + 2), i_minor := gets16 d (p + 4),
     i_nlink := gets16 d (p + 6), i_size := get32 d (p + 8),
     i_addrs := (\<lambda>j. if j \<le> NDIRECT then get32 d (p + 12 + 4 * j) else i_addrs ip j)\<rparr>"

fun put_addrs :: "nat list \<Rightarrow> nat \<Rightarrow> (nat \<Rightarrow> nat) \<Rightarrow> bytes \<Rightarrow> bytes" where
  "put_addrs [] p a d = d"
| "put_addrs (j # js) p a d = put_addrs js p a (put32 d (p + 12 + 4 * j) (a j))"

definition store_dinode :: "inode \<Rightarrow> nat \<Rightarrow> bytes \<Rightarrow> bytes" where
  "store_dinode ip p d =
    put_addrs [0..<NDIRECT + 1] p (i_addrs ip)
      (put32 (puts16 (puts16 (puts16 (puts16 d p (i_type ip)) (p + 2) (i_major ip)) (p + 4) (i_minor ip))
        (p + 6) (i_nlink ip)) (p + 8) (i_size ip))"

section \<open>The inode cache\<close>

text \<open>The scan of \<open>iget\<close>: the entry of this inode, or else the first free one.\<close>

fun iget_scan :: "nat \<Rightarrow> nat \<Rightarrow> (nat \<Rightarrow> inode) \<Rightarrow> nat list \<Rightarrow> nat option \<Rightarrow> nat + nat option" where
  "iget_scan dev inum ns [] emp = Inr emp"
| "iget_scan dev inum ns (ip # l) emp =
    (if i_ref (ns ip) > 0 \<and> i_dev (ns ip) = dev \<and> i_inum (ns ip) = inum then Inl ip
     else iget_scan dev inum ns l (if emp = None \<and> i_ref (ns ip) = 0 then Some ip else emp))"

definition iget :: "nat \<Rightarrow> nat \<Rightarrow> ('z fs_st_scheme, nat) kern" where
  "iget dev inum =
    kthen (acquire_lk LK_icache) (
    kbind (kget (\<lambda>s. iget_scan dev inum (inodes s) [0..<NINODE] None)) (\<lambda>r.
    case r of
      Inl ip \<Rightarrow>
        kthen (set_inode ip (\<lambda>x. x\<lparr>i_ref := i_ref x + 1\<rparr>)) (
        kthen (release_lk LK_icache) (
        kret ip))
    | Inr None \<Rightarrow> kpanic ''iget: no inodes''
    | Inr (Some ip) \<Rightarrow>
        kthen (set_inode ip (\<lambda>x. x\<lparr>i_dev := dev, i_inum := inum, i_ref := 1, i_busy := False, i_valid := False\<rparr>)) (
        kthen (release_lk LK_icache) (
        kret ip))))"

definition idup :: "nat \<Rightarrow> ('z fs_st_scheme, nat) kern" where
  "idup ip =
    kthen (acquire_lk LK_icache) (
    kthen (set_inode ip (\<lambda>x. x\<lparr>i_ref := i_ref x + 1\<rparr>)) (
    kthen (release_lk LK_icache) (
    kret ip)))"

fun ialloc_from :: "nat \<Rightarrow> int \<Rightarrow> nat list \<Rightarrow> ('z fs_st_scheme, nat) kern" where
  "ialloc_from dev ty [] = kpanic ''ialloc: no inodes''"
| "ialloc_from dev ty (inum # l) =
    kbind (bread dev (IBLOCK inum)) (\<lambda>bp.
    kbind (buf_data bp) (\<lambda>d.
    if gets16 d (dinode_off inum) = 0 then
      kthen (set_data bp (\<lambda>d i. if dinode_off inum \<le> i \<and> i < dinode_off inum + 64 then 0 else d i)) (
      kthen (set_data bp (\<lambda>d. puts16 d (dinode_off inum) ty)) (
      kthen (log_write bp) (
      kthen (brelse bp) (
      iget dev inum))))
    else
      kthen (brelse bp) (
      ialloc_from dev ty l)))"

definition ialloc :: "nat \<Rightarrow> int \<Rightarrow> ('z fs_st_scheme, nat) kern" where
  "ialloc dev ty =
    kbind (readsb dev) (\<lambda>sb.
    ialloc_from dev ty [1..<sb_ninodes sb])"

definition iupdate :: "nat \<Rightarrow> ('z fs_st_scheme, unit) kern" where
  "iupdate ip =
    kbind (kget (\<lambda>s. inodes s ip)) (\<lambda>x.
    kbind (bread (i_dev x) (IBLOCK (i_inum x))) (\<lambda>bp.
    kthen (set_data bp (store_dinode x (dinode_off (i_inum x)))) (
    kthen (log_write bp) (
    brelse bp))))"

definition ilock :: "nat option \<Rightarrow> ('z fs_st_scheme, unit) kern" where
  "ilock ipo =
    (case ipo of None \<Rightarrow> kpanic ''ilock''
     | Some ip \<Rightarrow>
       kbind (kget (\<lambda>s. inodes s ip)) (\<lambda>x.
       if i_ref x < 1 then kpanic ''ilock''
       else
         kthen (acquire_lk LK_icache) (
         if i_busy x then sleep (Ch_inode ip) LK_icache
         else
           kthen (set_inode ip (\<lambda>x. x\<lparr>i_busy := True\<rparr>)) (
           kthen (release_lk LK_icache) (
           kwhen (\<not> i_valid x) (
             kbind (bread (i_dev x) (IBLOCK (i_inum x))) (\<lambda>bp.
             kbind (buf_data bp) (\<lambda>d.
             kthen (set_inode ip (load_dinode d (dinode_off (i_inum x)))) (
             kthen (brelse bp) (
             kthen (set_inode ip (\<lambda>x. x\<lparr>i_valid := True\<rparr>)) (
             kbind (kget (\<lambda>s. i_type (inodes s ip))) (\<lambda>ty.
             if ty = 0 then kpanic ''ilock: no type'' else kret ()))))))))))))"

definition iunlock :: "nat option \<Rightarrow> ('z fs_st_scheme, unit) kern" where
  "iunlock ipo =
    (case ipo of None \<Rightarrow> kpanic ''iunlock''
     | Some ip \<Rightarrow>
       kbind (kget (\<lambda>s. inodes s ip)) (\<lambda>x.
       if \<not> i_busy x \<or> i_ref x < 1 then kpanic ''iunlock''
       else
         kthen (acquire_lk LK_icache) (
         kthen (set_inode ip (\<lambda>x. x\<lparr>i_busy := False\<rparr>)) (
         kthen (wakeup (Ch_inode ip)) (
         release_lk LK_icache)))))"

section \<open>Contents\<close>

definition bmap :: "nat \<Rightarrow> nat \<Rightarrow> ('z fs_st_scheme, nat) kern" where
  "bmap ip bn =
    kbind (kget (\<lambda>s. inodes s ip)) (\<lambda>x.
    if bn < NDIRECT then
      if i_addrs x bn = 0 then
        kbind (balloc (i_dev x)) (\<lambda>addr.
        kthen (set_inode ip (\<lambda>x. x\<lparr>i_addrs := (i_addrs x)(bn := addr)\<rparr>)) (
        kret addr))
      else kret (i_addrs x bn)
    else if bn - NDIRECT < NINDIRECT then
      kbind
        (if i_addrs x NDIRECT = 0 then
           kbind (balloc (i_dev x)) (\<lambda>addr.
           kthen (set_inode ip (\<lambda>x. x\<lparr>i_addrs := (i_addrs x)(NDIRECT := addr)\<rparr>)) (
           kret addr))
         else kret (i_addrs x NDIRECT)) (\<lambda>ind.
      kbind (bread (i_dev x) ind) (\<lambda>bp.
      kbind (buf_data bp) (\<lambda>d.
      kbind
        (if get32 d (4 * (bn - NDIRECT)) = 0 then
           kbind (balloc (i_dev x)) (\<lambda>addr.
           kthen (set_data bp (\<lambda>d. put32 d (4 * (bn - NDIRECT)) addr)) (
           kthen (log_write bp) (
           kret addr)))
         else kret (get32 d (4 * (bn - NDIRECT)))) (\<lambda>addr.
      kthen (brelse bp) (
      kret addr)))))
    else kpanic ''bmap: out of range'')"

fun itrunc_direct :: "nat \<Rightarrow> nat list \<Rightarrow> ('z fs_st_scheme, unit) kern" where
  "itrunc_direct ip [] = kret ()"
| "itrunc_direct ip (i # l) =
    kbind (kget (\<lambda>s. inodes s ip)) (\<lambda>x.
    kthen (kwhen (i_addrs x i \<noteq> 0) (
      kthen (bfree (i_dev x) (i_addrs x i)) (
      set_inode ip (\<lambda>x. x\<lparr>i_addrs := (i_addrs x)(i := 0)\<rparr>)))) (
    itrunc_direct ip l))"

fun itrunc_indirect :: "nat \<Rightarrow> bytes \<Rightarrow> nat list \<Rightarrow> ('z fs_st_scheme, unit) kern" where
  "itrunc_indirect dev a [] = kret ()"
| "itrunc_indirect dev a (j # l) =
    kthen (kwhen (get32 a (4 * j) \<noteq> 0) (bfree dev (get32 a (4 * j)))) (
    itrunc_indirect dev a l)"

definition itrunc :: "nat \<Rightarrow> ('z fs_st_scheme, unit) kern" where
  "itrunc ip =
    kthen (itrunc_direct ip [0..<NDIRECT]) (
    kbind (kget (\<lambda>s. inodes s ip)) (\<lambda>x.
    kthen (kwhen (i_addrs x NDIRECT \<noteq> 0) (
      kbind (bread (i_dev x) (i_addrs x NDIRECT)) (\<lambda>bp.
      kbind (buf_data bp) (\<lambda>a.
      kthen (itrunc_indirect (i_dev x) a [0..<NINDIRECT]) (
      kthen (brelse bp) (
      kthen (bfree (i_dev x) (i_addrs x NDIRECT)) (
      set_inode ip (\<lambda>x. x\<lparr>i_addrs := (i_addrs x)(NDIRECT := 0)\<rparr>)))))))) (
    kthen (set_inode ip (\<lambda>x. x\<lparr>i_size := 0\<rparr>)) (
    iupdate ip))))"

definition iput :: "nat \<Rightarrow> ('z fs_st_scheme, unit) kern" where
  "iput ip =
    kthen (acquire_lk LK_icache) (
    kbind (kget (\<lambda>s. inodes s ip)) (\<lambda>x.
    kthen
      (if i_ref x = 1 \<and> i_valid x \<and> i_nlink x = 0 then
         if i_busy x then kpanic ''iput busy''
         else
           kthen (set_inode ip (\<lambda>x. x\<lparr>i_busy := True\<rparr>)) (
           kthen (release_lk LK_icache) (
           kthen (itrunc ip) (
           kthen (set_inode ip (\<lambda>x. x\<lparr>i_type := 0\<rparr>)) (
           kthen (iupdate ip) (
           kthen (acquire_lk LK_icache) (
           kthen (set_inode ip (\<lambda>x. x\<lparr>i_busy := False, i_valid := False\<rparr>)) (
           wakeup (Ch_inode ip))))))))
       else kret ()) (
    kthen (set_inode ip (\<lambda>x. x\<lparr>i_ref := i_ref x - 1\<rparr>)) (
    release_lk LK_icache))))"

definition iunlockput :: "nat \<Rightarrow> ('z fs_st_scheme, unit) kern" where
  "iunlockput ip = kthen (iunlock (Some ip)) (iput ip)"

definition stati :: "nat \<Rightarrow> ('z fs_st_scheme, stat) kern" where
  "stati ip =
    kbind (kget (\<lambda>s. inodes s ip)) (\<lambda>x.
    kret \<lparr>st_type = i_type x, st_dev = i_dev x, st_ino = i_inum x, st_nlink = i_nlink x, st_size = i_size x\<rparr>)"

text \<open>The device switch: for a major number the \<open>read\<close> and \<open>write\<close> functions, if set.\<close>

record 'z devsw =
  dev_read :: "nat \<Rightarrow> (nat \<Rightarrow> int \<Rightarrow> ('z fs_st_scheme, int \<times> byte list) kern) option"
  dev_write :: "nat \<Rightarrow> (nat \<Rightarrow> bytes \<Rightarrow> int \<Rightarrow> ('z fs_st_scheme, int) kern) option"

function readi_loop :: "nat \<Rightarrow> nat \<Rightarrow> nat \<Rightarrow> byte list \<Rightarrow> ('z fs_st_scheme, byte list) kern" where
  "readi_loop ip off n dst =
    (if n = 0 then kret dst
     else
       kbind (kget (\<lambda>s. i_dev (inodes s ip))) (\<lambda>dev.
       kbind (bmap ip (off div BSIZE)) (\<lambda>a.
       kbind (bread dev a) (\<lambda>bp.
       kbind (buf_data bp) (\<lambda>d.
       kthen (brelse bp) (
       readi_loop ip (off + min n (BSIZE - off mod BSIZE)) (n - min n (BSIZE - off mod BSIZE))
         (dst @ map d [off mod BSIZE..<off mod BSIZE + min n (BSIZE - off mod BSIZE)])))))))"
  by pat_completeness auto

termination
  by (relation "measure (\<lambda>(ip, off, n, dst). n)") (auto simp: BSIZE_def)

declare readi_loop.simps [simp del]

definition readi :: "'z devsw \<Rightarrow> nat \<Rightarrow> nat \<Rightarrow> nat \<Rightarrow> ('z fs_st_scheme, int \<times> byte list) kern" where
  "readi dv ip off n =
    kbind (kget (\<lambda>s. inodes s ip)) (\<lambda>x.
    if i_type x = T_DEV then
      if i_major x < 0 \<or> i_major x \<ge> NDEV then kret (-1, [])
      else case dev_read dv (nat (i_major x)) of
        None \<Rightarrow> kret (-1, [])
      | Some f \<Rightarrow> f ip (s32 (int n))
    else if off > i_size x \<or> u32 (off + n) < off then kret (-1, [])
    else
      kbind (kret (if u32 (off + n) > i_size x then i_size x - off else n)) (\<lambda>n.
      kbind (readi_loop ip off n []) (\<lambda>dst.
      kret (s32 (int n), dst))))"

text \<open>The loop of \<open>writei\<close> returns the final offset; \<open>k\<close> is the position in \<open>src\<close>.\<close>

function writei_loop :: "nat \<Rightarrow> bytes \<Rightarrow> nat \<Rightarrow> nat \<Rightarrow> nat \<Rightarrow> ('z fs_st_scheme, nat) kern" where
  "writei_loop ip src k off n =
    (if n = 0 then kret off
     else
       kbind (kget (\<lambda>s. i_dev (inodes s ip))) (\<lambda>dev.
       kbind (bmap ip (off div BSIZE)) (\<lambda>a.
       kbind (bread dev a) (\<lambda>bp.
       kthen (set_data bp (\<lambda>d i. if off mod BSIZE \<le> i \<and> i < off mod BSIZE + min n (BSIZE - off mod BSIZE)
         then src (k + (i - off mod BSIZE)) else d i)) (
       kthen (log_write bp) (
       kthen (brelse bp) (
       writei_loop ip src (k + min n (BSIZE - off mod BSIZE)) (off + min n (BSIZE - off mod BSIZE))
         (n - min n (BSIZE - off mod BSIZE)))))))))"
  by pat_completeness auto

termination
  by (relation "measure (\<lambda>(ip, src, k, off, n). n)") (auto simp: BSIZE_def)

declare writei_loop.simps [simp del]

definition writei :: "'z devsw \<Rightarrow> nat \<Rightarrow> bytes \<Rightarrow> nat \<Rightarrow> nat \<Rightarrow> ('z fs_st_scheme, int) kern" where
  "writei dv ip src off n =
    kbind (kget (\<lambda>s. inodes s ip)) (\<lambda>x.
    if i_type x = T_DEV then
      if i_major x < 0 \<or> i_major x \<ge> NDEV then kret (-1)
      else case dev_write dv (nat (i_major x)) of
        None \<Rightarrow> kret (-1)
      | Some f \<Rightarrow> f ip src (s32 (int n))
    else if off > i_size x \<or> u32 (off + n) < off then kret (-1)
    else if u32 (off + n) > MAXFILE * BSIZE then kret (-1)
    else
      kbind (writei_loop ip src 0 off n) (\<lambda>off'.
      kbind (kget (\<lambda>s. i_size (inodes s ip))) (\<lambda>sz.
      kthen (kwhen (n > 0 \<and> off' > sz) (
        kthen (set_inode ip (\<lambda>x. x\<lparr>i_size := off'\<rparr>)) (
        iupdate ip))) (
      kret (s32 (int n))))))"

section \<open>The cache and the log do not depend on the inode cache\<close>

lemmas cache_inodes [simp] = cache_cong [of "s\<lparr>inodes := x\<rparr>" s, simplified]
  can_read_cong [of "s\<lparr>inodes := x\<rparr>" s, simplified] for s x

lemma tx_cong:
  assumes e: "bufs t = bufs s" "lru t = lru s" "disk t = disk s" "disksize t = disksize s" "held t = held s"
    "log_start t = log_start s" "log_size t = log_size s" "log_busy t = log_busy s" "log_dev t = log_dev s"
    "lh_n t = lh_n s" "lh_sector t = lh_sector s"
  shows "in_log t = in_log s" "loggable t = loggable s" "fsview t = fsview s" "fsdisk t = fsdisk s"
    "log_inv t = log_inv s" "tx t = tx s" "locks_free t = locks_free s"
proof -
  note c = cache_cong [OF e(1-4)]
  show i: "in_log t = in_log s" by (simp add: in_log_def fun_eq_iff e)
  show l: "loggable t = loggable s" by (simp add: loggable_def i fun_eq_iff e)
  show "fsview t = fsview s" "fsdisk t = fsdisk s" by (rule ext, simp add: fsview_def fsdisk_def i c e)+
  show v: "log_inv t = log_inv s" by (simp add: log_inv_def log_layout_def heads_def i l c e)
  show k: "locks_free t = locks_free s" by (simp add: locks_free_def e)
  show "tx t = tx s" by (rule ext) (simp add: tx_def v k l c e)
qed

lemmas log_inodes [simp] = tx_cong [of "s\<lparr>inodes := x\<rparr>" s, simplified] for s x

lemma frame_inodes: "bio_frame s t \<Longrightarrow> inodes t = inodes s" "log_frame s t \<Longrightarrow> inodes t = inodes s"
proof -
  assume "bio_frame s t"
  from this [unfolded bio_frame_def, THEN arg_cong, of inodes] show "inodes t = inodes s" by (simp add: bio_erase_def)
next
  assume "log_frame s t"
  from this [unfolded log_frame_def, THEN arg_cong, of inodes] show "inodes t = inodes s"
    by (simp add: log_erase_def bio_erase_def)
qed

lemma wp_set_inode [simp]:
  "wp (set_inode ip f) Q = (\<lambda>s. Q () (s\<lparr>inodes := (inodes s)(ip := f (inodes s ip))\<rparr>))"
  by (simp add: set_inode_def)

section \<open>The inode on disk\<close>

lemma put_addrs_other: "(\<And>j. j \<in> set js \<Longrightarrow> i < p + 12 + 4 * j \<or> p + 12 + 4 * j + 3 < i) \<Longrightarrow> put_addrs js p a d i = d i"
  by (induction js arbitrary: d) (auto simp: put32_apply_other)

lemma get32_cong: "(\<And>i. p \<le> i \<Longrightarrow> i < p + 4 \<Longrightarrow> d i = e i) \<Longrightarrow> get32 d p = get32 e p"
  by (simp add: get32_def)

lemma gets16_cong: "d p = e p \<Longrightarrow> d (p + 1) = e (p + 1) \<Longrightarrow> gets16 d p = gets16 e p"
  by (simp add: gets16_def get16_def)

lemma get32_put_addrs:
  assumes "distinct js" "\<And>j. j \<in> set js \<Longrightarrow> a j < 4294967296" "i \<in> set js"
  shows "get32 (put_addrs js p a d) (p + 12 + 4 * i) = a i"
  using assms
proof (induction js arbitrary: d)
  case (Cons j js)
  show ?case
  proof (cases "i \<in> set js")
    case True
    with Cons show ?thesis by simp
  next
    case False
    with Cons.prems have i: "i = j" by simp
    have "get32 (put_addrs js p a (put32 d (p + 12 + 4 * j) (a j))) (p + 12 + 4 * j) =
      get32 (put32 d (p + 12 + 4 * j) (a j)) (p + 12 + 4 * j)"
    proof (intro get32_cong put_addrs_other)
      fix k l assume "p + 12 + 4 * j \<le> k" "k < p + 12 + 4 * j + 4" "l \<in> set js"
      moreover have "l \<noteq> j" using Cons.prems(1) \<open>l \<in> set js\<close> by auto
      ultimately show "k < p + 12 + 4 * l \<or> p + 12 + 4 * l + 3 < k" by linarith
    qed
    then show ?thesis using Cons.prems(2) i by simp
  qed
qed simp

text \<open>The values a cached inode can have.\<close>

definition inode_range :: "inode \<Rightarrow> bool" where
  "inode_range x \<longleftrightarrow> (\<forall>v \<in> {i_type x, i_major x, i_minor x, i_nlink x}. -32768 \<le> v \<and> v < 32768) \<and>
     i_size x < 4294967296 \<and> (\<forall>j \<le> NDIRECT. i_addrs x j < 4294967296)"

lemma dinode_fields:
  assumes r: "inode_range x"
  shows "gets16 (store_dinode x p d) p = i_type x" "gets16 (store_dinode x p d) (p + 2) = i_major x"
    "gets16 (store_dinode x p d) (p + 4) = i_minor x" "gets16 (store_dinode x p d) (p + 6) = i_nlink x"
    "get32 (store_dinode x p d) (p + 8) = i_size x"
    "j \<le> NDIRECT \<Longrightarrow> get32 (store_dinode x p d) (p + 12 + 4 * j) = i_addrs x j"
proof -
  let ?e = "put32 (puts16 (puts16 (puts16 (puts16 d p (i_type x)) (p + 2) (i_major x)) (p + 4) (i_minor x))
        (p + 6) (i_nlink x)) (p + 8) (i_size x)"
  have o: "store_dinode x p d i = ?e i" if "i < p + 12" for i
    unfolding store_dinode_def using that by (intro put_addrs_other) auto
  note R = r [unfolded inode_range_def]
  have g: "gets16 (store_dinode x p d) q = gets16 ?e q" if "q + 1 < p + 12" for q
    using that by (intro gets16_cong o) auto
  show "gets16 (store_dinode x p d) p = i_type x" "gets16 (store_dinode x p d) (p + 2) = i_major x"
    "gets16 (store_dinode x p d) (p + 4) = i_minor x" "gets16 (store_dinode x p d) (p + 6) = i_nlink x"
    using R by (simp_all add: g gets16_put32_other gets16_puts16_other)
  have "get32 (store_dinode x p d) (p + 8) = get32 ?e (p + 8)" by (intro get32_cong o) auto
  then show "get32 (store_dinode x p d) (p + 8) = i_size x" using R by simp
  show "j \<le> NDIRECT \<Longrightarrow> get32 (store_dinode x p d) (p + 12 + 4 * j) = i_addrs x j"
    unfolding store_dinode_def using R by (intro get32_put_addrs) auto
qed

lemma puts16_other: "i \<noteq> p \<Longrightarrow> i \<noteq> p + 1 \<Longrightarrow> puts16 d p v i = d i"
  by (simp add: puts16_def put16_def)

lemma store_dinode_other: "i < p \<or> p + 64 \<le> i \<Longrightarrow> store_dinode x p d i = d i"
  unfolding store_dinode_def by (subst put_addrs_other) (auto simp: NDIRECT_def put32_apply_other puts16_other)

lemma load_dinode_cong:
  assumes e: "\<And>i. p \<le> i \<Longrightarrow> i < p + 64 \<Longrightarrow> d i = e i" shows "load_dinode d p y = load_dinode e p y"
proof -
  have "gets16 d (p + k) = gets16 e (p + k)" if "k < 63" for k using that by (intro gets16_cong e) auto
  from this [of 0] this [of 2] this [of 4] this [of 6]
  have g: "gets16 d p = gets16 e p" "gets16 d (p + 2) = gets16 e (p + 2)" "gets16 d (p + 4) = gets16 e (p + 4)"
    "gets16 d (p + 6) = gets16 e (p + 6)" by simp_all
  have "get32 d (p + 12 + 4 * j) = get32 e (p + 12 + 4 * j)" if "j \<le> NDIRECT" for j
    using that by (intro get32_cong e) (auto simp: NDIRECT_def)
  moreover have "get32 d (p + 8) = get32 e (p + 8)" by (intro get32_cong e) auto
  ultimately show ?thesis unfolding load_dinode_def g by (simp cong: if_cong)
qed

section \<open>References\<close>

definition icache_inv :: "(nat \<Rightarrow> inode) \<Rightarrow> bool" where
  "icache_inv ns \<longleftrightarrow> (\<forall>i<NINODE. 0 \<le> i_ref (ns i)) \<and>
     (\<forall>i<NINODE. \<forall>j<NINODE. i_ref (ns i) > 0 \<and> i_ref (ns j) > 0 \<and> i_dev (ns i) = i_dev (ns j) \<and>
        i_inum (ns i) = i_inum (ns j) \<longrightarrow> i = j)"

definition inode_at :: "(nat \<Rightarrow> inode) \<Rightarrow> nat \<Rightarrow> nat \<Rightarrow> nat \<Rightarrow> bool" where
  "inode_at ns dev inum ip \<longleftrightarrow> ip < NINODE \<and> i_ref (ns ip) > 0 \<and> i_dev (ns ip) = dev \<and> i_inum (ns ip) = inum"

lemma iget_scan_Inl:
  "iget_scan dev inum ns l emp = Inl ip \<Longrightarrow>
     ip \<in> set l \<and> i_ref (ns ip) > 0 \<and> i_dev (ns ip) = dev \<and> i_inum (ns ip) = inum"
  by (induction l arbitrary: emp) (auto split: if_splits)

lemma iget_scan_Inr:
  "iget_scan dev inum ns l emp = Inr r \<Longrightarrow>
     (\<forall>ip \<in> set l. \<not> (i_ref (ns ip) > 0 \<and> i_dev (ns ip) = dev \<and> i_inum (ns ip) = inum)) \<and>
     (case r of None \<Rightarrow> emp = None \<and> (\<forall>ip \<in> set l. i_ref (ns ip) \<noteq> 0)
      | Some e \<Rightarrow> emp = Some e \<or> e \<in> set l \<and> i_ref (ns e) = 0)"
proof (induction l arbitrary: emp)
  case (Cons ip l)
  let ?emp = "if emp = None \<and> i_ref (ns ip) = 0 then Some ip else emp"
  have no: "\<not> (i_ref (ns ip) > 0 \<and> i_dev (ns ip) = dev \<and> i_inum (ns ip) = inum)"
    and r: "iget_scan dev inum ns l ?emp = Inr r" using Cons.prems by (auto split: if_splits)
  from Cons.IH [OF r] no show ?case by (cases r) (auto split: if_splits)
qed (auto split: option.split)

lemma iget_scan_free: "(\<And>ip. ip \<in> set l \<Longrightarrow> i_ref (ns ip) = 0) \<Longrightarrow> iget_scan dev inum ns l (Some e) = Inr (Some e)"
  by (induction l) auto

text \<open>The entry \<open>iget\<close> returns and the cache it leaves.\<close>

definition iget_post :: "(nat \<Rightarrow> inode) \<Rightarrow> nat \<Rightarrow> nat \<Rightarrow> nat \<Rightarrow> (nat \<Rightarrow> inode) \<Rightarrow> bool" where
  "iget_post ns dev inum ip ns' \<longleftrightarrow> inode_at ns' dev inum ip \<and>
     ns' = (if inode_at ns dev inum ip then ns(ip := (ns ip)\<lparr>i_ref := i_ref (ns ip) + 1\<rparr>)
       else ns(ip := (ns ip)\<lparr>i_dev := dev, i_inum := inum, i_ref := 1, i_busy := False, i_valid := False\<rparr>)) \<and>
     (\<not> inode_at ns dev inum ip \<longrightarrow> i_ref (ns ip) = 0 \<and> (\<forall>j. \<not> inode_at ns dev inum j))"

definition iget_outcome :: "nat \<Rightarrow> nat \<Rightarrow> 'z fs_st_scheme \<Rightarrow> ('z fs_st_scheme, nat) kres" where
  "iget_outcome dev inum s = (case iget_scan dev inum (inodes s) [0..<NINODE] None of
      Inl ip \<Rightarrow> Ok ip (s\<lparr>inodes := (inodes s)(ip := (inodes s ip)\<lparr>i_ref := i_ref (inodes s ip) + 1\<rparr>)\<rparr>)
    | Inr None \<Rightarrow> Panic ''iget: no inodes''
    | Inr (Some ip) \<Rightarrow> Ok ip (s\<lparr>inodes := (inodes s)(ip := (inodes s ip)\<lparr>i_dev := dev, i_inum := inum, i_ref := 1,
        i_busy := False, i_valid := False\<rparr>)\<rparr>))"

lemma iget_eq:
  assumes lk: "LK_icache \<notin> held s"
  shows "iget dev inum s = iget_outcome dev inum s"
proof (cases "iget_scan dev inum (inodes s) [0..<NINODE] None = Inr None")
  case True
  then show ?thesis using lk by (simp add: iget_def kern_defs acquire_lk_def iget_outcome_def)
next
  case False
  then have "wp (iget dev inum) (\<lambda>r t. Ok r t = iget_outcome dev inum s) s"
    using lk by (simp add: iget_def iget_outcome_def split: sum.split option.split)
  then show ?thesis unfolding wp_iff by (elim exE conjE) simp
qed

lemma iget_result:
  assumes lk: "LK_icache \<notin> held s" and inv: "icache_inv (inodes s)"
  shows "case iget dev inum s of
      Ok ip t \<Rightarrow> \<exists>ns'. iget_post (inodes s) dev inum ip ns' \<and> t = s\<lparr>inodes := ns'\<rparr>
    | Panic e \<Rightarrow> e = ''iget: no inodes'' \<and> (\<forall>i<NINODE. i_ref (inodes s i) > 0 \<and> \<not> inode_at (inodes s) dev inum i)
    | Sleeping t \<Rightarrow> False"
proof (cases "iget_scan dev inum (inodes s) [0..<NINODE] None")
  case (Inl ip)
  then have "inode_at (inodes s) dev inum ip" by (auto dest!: iget_scan_Inl simp: inode_at_def)
  then have "iget_post (inodes s) dev inum ip ((inodes s)(ip := (inodes s ip)\<lparr>i_ref := i_ref (inodes s ip) + 1\<rparr>))"
    by (auto simp: iget_post_def inode_at_def)
  then show ?thesis using Inl by (simp add: iget_eq [OF lk] iget_outcome_def) blast
next
  case (Inr r)
  note R = iget_scan_Inr [OF Inr]
  have none: "\<not> inode_at (inodes s) dev inum j" for j using R by (auto simp: inode_at_def)
  show ?thesis
  proof (cases r)
    case None
    have "i_ref (inodes s i) > 0" if "i < NINODE" for i
    proof -
      have "i_ref (inodes s i) \<noteq> 0" using R None that by simp
      moreover have "0 \<le> i_ref (inodes s i)" using inv that unfolding icache_inv_def by blast
      ultimately show ?thesis by linarith
    qed
    then show ?thesis using Inr None none by (simp add: iget_eq [OF lk] iget_outcome_def)
  next
    case (Some ip)
    then have "ip < NINODE" "i_ref (inodes s ip) = 0" using R by auto
    then have "iget_post (inodes s) dev inum ip
       ((inodes s)(ip := (inodes s ip)\<lparr>i_dev := dev, i_inum := inum, i_ref := 1, i_busy := False, i_valid := False\<rparr>))"
      using none by (auto simp: iget_post_def inode_at_def)
    then show ?thesis using Inr Some by (simp add: iget_eq [OF lk] iget_outcome_def) blast
  qed
qed

lemma icache_invD:
  assumes "icache_inv ns"
  shows "i < NINODE \<Longrightarrow> 0 \<le> i_ref (ns i)"
    and "inode_at ns dev inum i \<Longrightarrow> inode_at ns dev inum j \<Longrightarrow> i = j"
  using assms unfolding icache_inv_def inode_at_def by (blast, metis)

lemma icache_invI:
  assumes "\<And>i. i < NINODE \<Longrightarrow> 0 \<le> i_ref (ns i)"
    and "\<And>dev inum i j. inode_at ns dev inum i \<Longrightarrow> inode_at ns dev inum j \<Longrightarrow> i = j"
  shows "icache_inv ns"
  using assms(1) assms(2) unfolding icache_inv_def inode_at_def by (metis (full_types))

lemma icache_inv_iget:
  assumes inv: "icache_inv ns" and p: "iget_post ns dev inum ip ns'" shows "icache_inv ns'"
proof (cases "inode_at ns dev inum ip")
  case True
  then have ns': "ns' = ns(ip := (ns ip)\<lparr>i_ref := i_ref (ns ip) + 1\<rparr>)" using p by (simp add: iget_post_def)
  have "inode_at ns' d n j \<longleftrightarrow> inode_at ns d n j" for d n j using True by (auto simp: ns' inode_at_def)
  then show ?thesis
    using icache_invD [OF inv] by (intro icache_invI) (auto simp: ns')
next
  case False
  then have ns': "ns' = ns(ip := (ns ip)\<lparr>i_dev := dev, i_inum := inum, i_ref := 1, i_busy := False, i_valid := False\<rparr>)"
    and none: "\<And>j. \<not> inode_at ns dev inum j" using p by (simp_all add: iget_post_def)
  have at: "inode_at ns' d n j \<longleftrightarrow> (if j = ip then ip < NINODE \<and> d = dev \<and> n = inum else inode_at ns d n j)" for d n j
    by (auto simp: ns' inode_at_def)
  show ?thesis
  proof (rule icache_invI)
    show "0 \<le> i_ref (ns' i)" if "i < NINODE" for i using icache_invD(1) [OF inv that] by (simp add: ns')
    show "i = j" if "inode_at ns' d n i" "inode_at ns' d n j" for d n i j
      using that none icache_invD(2) [OF inv] by (auto simp: at split: if_splits)
  qed
qed

section \<open>Reading a file\<close>

lemma wp_kget_bind: "wp (kbind (kget f) g) Q s = wp (g (f s)) Q s"
  by simp

lemma wp_bread_data:
  assumes c: "can_read s sec" and m: "wp (bread ROOTDEV sec) (\<lambda>b. wp (m b (view s sec)) Q) s"
  shows "wp (kbind (bread ROOTDEV sec) (\<lambda>b. kbind (buf_data b) (m b))) Q s"
proof -
  have "wp (bread ROOTDEV sec) (\<lambda>b t. b_data (bufs t b) = view s sec) s"
    using c by (intro wp_bread) (auto simp: can_read_def bread_post_data)
  from wp_conj [OF this m] show ?thesis
    unfolding wp_kbind by (rule wp_mono) (simp add: buf_data_def)
qed

lemma wp_read_release:
  assumes c: "can_read s sec" and m: "\<And>t. ro_post s t \<Longrightarrow> wp m Q t"
  shows "wp (bread ROOTDEV sec) (\<lambda>b. wp (kthen (brelse b) m) Q) s"
proof -
  have "wp (kbind (bread ROOTDEV sec) (\<lambda>b. kbind (buf_data b) (\<lambda>d. kthen (brelse b) m))) Q s"
    using m by (rule wp_read_block [OF c])
  then show ?thesis by (simp add: buf_data_def)
qed

text \<open>The block that holds block \<open>bn\<close> of a file, and the bytes of a file.\<close>

definition baddr :: "(nat \<Rightarrow> bytes) \<Rightarrow> inode \<Rightarrow> nat \<Rightarrow> nat" where
  "baddr V x bn = (if bn < NDIRECT then i_addrs x bn
     else if i_addrs x NDIRECT = 0 then 0 else get32 (V (i_addrs x NDIRECT)) (4 * (bn - NDIRECT)))"

definition file_byte :: "(nat \<Rightarrow> bytes) \<Rightarrow> inode \<Rightarrow> nat \<Rightarrow> byte" where
  "file_byte V x i = V (baddr V x (i div BSIZE)) (i mod BSIZE)"

text \<open>Block \<open>bn\<close> of the file is there, and its block and the indirect block can be read.\<close>

definition mapped :: "'z fs_st_scheme \<Rightarrow> inode \<Rightarrow> nat \<Rightarrow> bool" where
  "mapped s x bn \<longleftrightarrow> bn < MAXFILE \<and> baddr (view s) x bn \<noteq> 0 \<and> can_read s (baddr (view s) x bn) \<and>
     (bn \<ge> NDIRECT \<longrightarrow> can_read s (i_addrs x NDIRECT))"

lemma mapped_ro: "ro_post s t \<Longrightarrow> mapped s x bn \<Longrightarrow> mapped t x bn"
  using ro_post_can_read [of s t] by (auto simp: mapped_def ro_post_def)

lemma wp_bmap_mapped:
  assumes x: "x = inodes s ip" "i_dev x = ROOTDEV" and m: "mapped s x bn" and inv: "bio_inv s"
    and Q: "\<And>t. ro_post s t \<Longrightarrow> Q (baddr (view s) x bn) t"
  shows "wp (bmap ip bn) Q s"
proof (cases "bn < NDIRECT")
  case True
  then show ?thesis using x m Q [OF ro_post_refl [OF inv]] by (simp add: bmap_def mapped_def baddr_def)
next
  case False
  let ?ind = "i_addrs x NDIRECT" and ?k = "4 * (bn - NDIRECT)"
  have b: "bn - NDIRECT < NINDIRECT" "?ind \<noteq> 0" "baddr (view s) x bn = get32 (view s ?ind) ?k"
    "get32 (view s ?ind) ?k \<noteq> 0" "can_read s ?ind"
    using False m by (auto simp: mapped_def baddr_def MAXFILE_def split: if_splits)
  have "wp (kbind (bread ROOTDEV ?ind) (\<lambda>bp. kbind (buf_data bp) (\<lambda>d.
      kbind (if get32 d ?k = 0 then
           kbind (balloc ROOTDEV) (\<lambda>addr. kthen (set_data bp (\<lambda>d. put32 d ?k addr)) (kthen (log_write bp) (kret addr)))
         else kret (get32 d ?k)) (\<lambda>addr. kthen (brelse bp) (kret addr))))) Q s"
  proof (rule wp_bread_data [OF b(5)])
    have "wp (bread ROOTDEV ?ind) (\<lambda>bp. wp (kthen (brelse bp) (kret (baddr (view s) x bn))) Q) s"
      using Q by (intro wp_read_release [OF b(5)]) simp
    then show "wp (bread ROOTDEV ?ind) (\<lambda>bp. wp (kbind (if get32 (view s ?ind) ?k = 0 then
           kbind (balloc ROOTDEV) (\<lambda>addr. kthen (set_data bp (\<lambda>d. put32 d ?k addr)) (kthen (log_write bp) (kret addr)))
         else kret (get32 (view s ?ind) ?k)) (\<lambda>addr. kthen (brelse bp) (kret addr))) Q) s"
      using b by simp
  qed
  then show ?thesis using False b x
    by (simp add: bmap_def wp_kget_bind kbind_kret del: wp_kbind wp_kthen wp_if cong: if_cong)
qed

lemma div_mod_add:
  fixes off j b :: nat
  assumes "off mod b + j < b"
  shows "(off + j) div b = off div b" "(off + j) mod b = off mod b + j"
proof -
  have "off + j = off div b * b + (off mod b + j)" by (metis add.assoc div_mult_mod_eq)
  then show "(off + j) div b = off div b" "(off + j) mod b = off mod b + j"
    using assms by (metis div_mult_self3 div_less add.right_neutral gr_implies_not0 add.commute, metis mod_mult_self3 mod_less)
qed

lemma split_block:
  assumes "n > 0" and "m = min n (BSIZE - off mod BSIZE)"
  shows "0 < m" "m \<le> n" "j < m \<Longrightarrow> (off + j) div BSIZE = off div BSIZE \<and> (off + j) mod BSIZE = off mod BSIZE + j"
proof -
  have B: "off mod BSIZE < BSIZE" by (simp add: BSIZE_def)
  show "0 < m" "m \<le> n" using assms B by auto
  assume "j < m"
  then have "off mod BSIZE + j < BSIZE" using assms(2) B by linarith
  then show "(off + j) div BSIZE = off div BSIZE \<and> (off + j) mod BSIZE = off mod BSIZE + j"
    by (simp add: div_mod_add)
qed

lemma file_chunk:
  assumes "n > 0" and "m = min n (BSIZE - off mod BSIZE)"
  shows "map (V (baddr V x (off div BSIZE))) [off mod BSIZE..<off mod BSIZE + m] = map (file_byte V x) [off..<off + m]"
  using split_block(3) [OF assms] by (intro nth_equalityI) (auto simp: file_byte_def)

lemma wp_readi_loop:
  assumes "bio_inv s" "x = inodes s ip" "i_dev x = ROOTDEV" "\<And>i. off \<le> i \<Longrightarrow> i < off + n \<Longrightarrow> mapped s x (i div BSIZE)"
    and "\<And>t. ro_post s t \<Longrightarrow> Q (dst @ map (file_byte (view s) x) [off..<off + n]) t"
  shows "wp (readi_loop ip off n dst) Q s"
  using assms
proof (induction ip off n dst arbitrary: s rule: readi_loop.induct)
  case (1 ip off n dst)
  note A = "1.prems"
  show ?case
  proof (cases "n = 0")
    case True
    then show ?thesis using A(5) [OF ro_post_refl [OF A(1)]] by (simp add: readi_loop.simps)
  next
    case False
    define m where "m = min n (BSIZE - off mod BSIZE)"
    let ?d = "view s (baddr (view s) x (off div BSIZE))"
    note sp = split_block [OF _ m_def] 
    have m: "0 < m" "m \<le> n" using sp(1,2) False by auto
    have mp: "mapped s x (off div BSIZE)" using A(4) [of off] False by simp
    have rest: "wp (readi_loop ip (off + m) (n - m) (dst @ map ?d [off mod BSIZE..<off mod BSIZE + m])) Q u"
      if u: "ro_post s u" for u
    proof -
      note u' = u [unfolded ro_post_def]
      have xu: "x = inodes u ip" using A(2) u' frame_inodes(1) [of s u] by simp
      show ?thesis
        unfolding m_def
      proof (rule "1.IH" [OF False _ xu A(3)])
        show "bio_inv u" using u' by simp
        show "mapped u x (i div BSIZE)" if "off + min n (BSIZE - off mod BSIZE) \<le> i" "i < off + min n (BSIZE - off mod BSIZE) + (n - min n (BSIZE - off mod BSIZE))" for i
          using that m by (intro mapped_ro [OF u] A(4)) (auto simp: m_def [symmetric])
        fix t assume t: "ro_post u t"
        have "[off..<off + n] = [off..<off + m] @ [off + m..<off + n]"
          using upt_add_eq_append [of off "off + m" "n - m"] m by simp
        then have "dst @ map (file_byte (view s) x) [off..<off + n] =
          (dst @ map ?d [off mod BSIZE..<off mod BSIZE + m]) @ map (file_byte (view u) x) [off + m..<off + m + (n - m)]"
          using file_chunk [OF _ m_def, of "view s" x] False m u' by simp
        then show "Q ((dst @ map ?d [off mod BSIZE..<off mod BSIZE + min n (BSIZE - off mod BSIZE)]) @
          map (file_byte (view u) x) [off + min n (BSIZE - off mod BSIZE)..<off + min n (BSIZE - off mod BSIZE) + (n - min n (BSIZE - off mod BSIZE))]) t"
          using A(5) [OF ro_post_trans [OF u t]] by (simp add: m_def)
      qed
    qed
    have "wp (bmap ip (off div BSIZE)) (\<lambda>a. wp (kbind (bread ROOTDEV a) (\<lambda>bp. kbind (buf_data bp) (\<lambda>d. kthen (brelse bp)
       (readi_loop ip (off + m) (n - m) (dst @ map d [off mod BSIZE..<off mod BSIZE + m]))))) Q) s"
    proof (rule wp_bmap_mapped [OF A(2,3) mp A(1)])
      fix t assume t: "ro_post s t"
      have v: "view t = view s" using t by (simp add: ro_post_def)
      have "can_read t (baddr (view s) x (off div BSIZE))"
        using mapped_ro [OF t mp] v by (simp add: mapped_def)
      then show "wp (kbind (bread ROOTDEV (baddr (view s) x (off div BSIZE))) (\<lambda>bp. kbind (buf_data bp) (\<lambda>d. kthen (brelse bp)
         (readi_loop ip (off + m) (n - m) (dst @ map d [off mod BSIZE..<off mod BSIZE + m]))))) Q t"
      proof (rule wp_read_block)
        fix u assume u: "ro_post t u"
        show "wp (readi_loop ip (off + m) (n - m) (dst @ map (view t (baddr (view s) x (off div BSIZE)))
          [off mod BSIZE..<off mod BSIZE + m])) Q u"
          unfolding v by (rule rest [OF ro_post_trans [OF t u]])
      qed
    qed
    then show ?thesis
      using False A(2,3) by (subst readi_loop.simps) (simp add: m_def)
  qed
qed

text \<open>The content of a file below its size can be read.\<close>

definition readable :: "'z fs_st_scheme \<Rightarrow> inode \<Rightarrow> bool" where
  "readable s x \<longleftrightarrow> bio_inv s \<and> i_dev x = ROOTDEV \<and> i_type x \<noteq> T_DEV \<and> i_size x \<le> MAXFILE * BSIZE \<and>
     (\<forall>bn. bn * BSIZE < i_size x \<longrightarrow> mapped s x bn)"

lemma readable_ro: "ro_post s t \<Longrightarrow> readable s x \<Longrightarrow> readable t x"
  using mapped_ro [of s t x] by (auto simp: readable_def ro_post_def)

lemma wp_readi:
  assumes r: "readable s (inodes s ip)" and o: "off \<le> i_size (inodes s ip)" "off + n < 2147483648"
    and m: "m = min n (i_size (inodes s ip) - off)"
    and Q: "\<And>t. ro_post s t \<Longrightarrow> Q (int m, map (file_byte (view s) (inodes s ip)) [off..<off + m]) t"
  shows "wp (readi dv ip off n) Q s"
proof -
  let ?x = "inodes s ip"
  note R = r [unfolded readable_def]
  have u: "u32 (off + n) = off + n" using o by (simp add: u32_def)
  have c: "(if off + n > i_size ?x then i_size ?x - off else n) = m" using o by (auto simp: m)
  have s: "s32 (int m) = int m" using o by (simp add: m s32_def)
  have mp: "mapped s ?x (i div BSIZE)" if "off \<le> i" "i < off + m" for i
  proof -
    have "i div BSIZE * BSIZE \<le> i" by simp
    also have "i < i_size ?x" using that o by (auto simp: m)
    finally show ?thesis using R by simp
  qed
  have "wp (readi_loop ip off m []) (\<lambda>d. wp (kret (s32 (int m), d)) Q) s"
    using R Q s by (intro wp_readi_loop [OF _ refl _ mp]) simp_all
  then show ?thesis
    using R o u c by (cases "i_size ?x < off + n") (simp_all add: readi_def)
qed

section \<open>Properties\<close>

text \<open>C4. Reading a regular file: \<open>readi\<close> returns the bytes of the file from \<open>off\<close> on, at most \<open>n\<close> of them
  and cut at the end of the file, for any offset within the file and across any number of blocks,
  direct and indirect; no block and no inode changes.  Past the end it returns \<open>-1\<close>.\<close>

theorem readi_reads:
  assumes "readable s (inodes s ip)" and "off + n < 2147483648"
  shows "if off > i_size (inodes s ip) then readi dv ip off n s = Ok (-1, []) s
    else \<exists>t. readi dv ip off n s = Ok (int (min n (i_size (inodes s ip) - off)),
        map (file_byte (view s) (inodes s ip)) [off..<min (off + n) (i_size (inodes s ip))]) t \<and>
      view t = view s \<and> disk t = disk s \<and> inodes t = inodes s"
proof (cases "off > i_size (inodes s ip)")
  case True
  then show ?thesis using assms(1) by (simp add: readi_def kern_defs readable_def)
next
  case False
  let ?m = "min n (i_size (inodes s ip) - off)"
  have e: "min (off + n) (i_size (inodes s ip)) = off + ?m" using False by auto
  have "wp (readi dv ip off n) (\<lambda>r t. r = (int ?m, map (file_byte (view s) (inodes s ip)) [off..<off + ?m]) \<and> ro_post s t) s"
    using False assms by (intro wp_readi) simp_all
  then obtain t where "readi dv ip off n s = Ok (int ?m, map (file_byte (view s) (inodes s ip)) [off..<off + ?m]) t" "ro_post s t"
    by (auto simp: wp_iff)
  then show ?thesis
    using False frame_inodes(1) [of s t] unfolding e by (auto simp: ro_post_def)
qed

text \<open>The transaction of \<open>wit_log\<close> with an inode of 700 bytes in blocks 5 and 6 in the cache.\<close>

definition wit_inode :: inode where
  "wit_inode = \<lparr>i_dev = ROOTDEV, i_inum = 3, i_ref = 1, i_busy = True, i_valid = True, i_type = T_FILE, i_major = 0, i_minor = 0,
     i_nlink = 1, i_size = 700, i_addrs = (\<lambda>j. if j = 0 then 5 else if j = 1 then 6 else 0)\<rparr>"

definition wit_fs :: fs_st where
  "wit_fs = log_st.extend wit_log (fs_st.fields (\<lambda>ip. if ip = 0 then wit_inode else wit_inode\<lparr>i_ref := 0, i_busy := False\<rparr>))"

lemma wit_fs_log: "bufs wit_fs = bufs wit_log" "lru wit_fs = lru wit_log" "disk wit_fs = disk wit_log"
  "disksize wit_fs = disksize wit_log" "held wit_fs = held wit_log" "log_start wit_fs = log_start wit_log"
  "log_size wit_fs = log_size wit_log" "log_busy wit_fs = log_busy wit_log" "log_dev wit_fs = log_dev wit_log"
  "lh_n wit_fs = lh_n wit_log" "lh_sector wit_fs = lh_sector wit_log"
  "inodes wit_fs = (\<lambda>ip. if ip = 0 then wit_inode else wit_inode\<lparr>i_ref := 0, i_busy := False\<rparr>)"
  by (simp_all add: wit_fs_def log_st.extend_def fs_st.fields_def)

lemmas wit_fs_cache = cache_cong [OF wit_fs_log(1-4)] tx_cong [OF wit_fs_log(1-11)]

definition no_dev :: "'z devsw" where
  "no_dev = \<lparr>dev_read = (\<lambda>_. None), dev_write = (\<lambda>_. None)\<rparr>"

theorem readi_reads_witness:
  "\<exists>t bs. readi no_dev 0 510 1000 wit_fs = Ok (190, bs) t \<and> length bs = 190 \<and> bs ! 2 = view wit_fs 6 0"
proof -
  have c: "can_read wit_fs sec" if "sec < 30" for sec
  proof -
    have "tx wit_fs {3, 5}" using wit_log_tx wit_fs_cache by metis
    moreover have "busy_secs wit_fs = {}" "disksize wit_fs = 40"
      using wit_log_post wit_fs_cache wit_fs_log by (simp_all add: wit_tx_post_def)
    ultimately show ?thesis using that by (intro tx_can_read [where S = "{3, 5}"]) auto
  qed
  have m: "mapped wit_fs wit_inode bn" if "bn * BSIZE < i_size wit_inode" for bn
  proof -
    have "bn = 0 \<or> bn = 1" using that by (auto simp: BSIZE_def wit_inode_def)
    then show ?thesis
      using c by (auto simp: mapped_def baddr_def NDIRECT_def MAXFILE_def wit_inode_def)
  qed
  have "bio_inv wit_fs" using wit_log_tx txD(1) wit_fs_cache log_invD(1) by metis
  moreover have "wit_inode = inodes wit_fs 0" "i_dev wit_inode = ROOTDEV" "i_type wit_inode \<noteq> T_DEV"
    "i_size wit_inode \<le> MAXFILE * BSIZE" and z: "i_size wit_inode = 700"
    by (simp_all add: wit_fs_log wit_inode_def T_FILE_def T_DEV_def MAXFILE_def NDIRECT_def BSIZE_def)
  ultimately have "readable wit_fs (inodes wit_fs 0)" using m by (simp add: readable_def)
  from readi_reads [OF this, of 510 1000 no_dev] z \<open>wit_inode = inodes wit_fs 0\<close>
  obtain t where "readi no_dev 0 510 1000 wit_fs = Ok (190, map (file_byte (view wit_fs) wit_inode) [510..<700]) t"
    by (auto simp del: upt_rec_numeral)
  moreover have "map (file_byte (view wit_fs) wit_inode) [510..<700] ! 2 = view wit_fs 6 0"
    by (simp add: file_byte_def baddr_def wit_inode_def NDIRECT_def BSIZE_def nth_upt del: upt_rec_numeral)
  ultimately show ?thesis by (auto simp del: upt_rec_numeral)
qed

text \<open>The inode on disk: storing the cached fields of an inode in its slot of an inode block, as
  \<open>iupdate\<close> does, and loading the slot again, as \<open>ilock\<close> does, gives back the type, the device
  numbers, the link count, the size and all thirteen block addresses, whatever the block held and
  whatever was in the cache entry that is loaded; and no other inode of the block changes.\<close>

theorem dinode_roundtrip:
  assumes "inode_range x"
  shows "load_dinode (store_dinode x (dinode_off inum) d) (dinode_off inum) y =
      y\<lparr>i_type := i_type x, i_major := i_major x, i_minor := i_minor x, i_nlink := i_nlink x, i_size := i_size x,
        i_addrs := (\<lambda>j. if j \<le> NDIRECT then i_addrs x j else i_addrs y j)\<rparr> \<and>
    (\<forall>k. dinode_off k \<noteq> dinode_off inum \<longrightarrow>
      load_dinode (store_dinode x (dinode_off inum) d) (dinode_off k) y = load_dinode d (dinode_off k) y)"
proof (intro conjI allI impI)
  show "load_dinode (store_dinode x (dinode_off inum) d) (dinode_off inum) y =
      y\<lparr>i_type := i_type x, i_major := i_major x, i_minor := i_minor x, i_nlink := i_nlink x, i_size := i_size x,
        i_addrs := (\<lambda>j. if j \<le> NDIRECT then i_addrs x j else i_addrs y j)\<rparr>"
    using dinode_fields [OF assms] by (simp add: load_dinode_def cong: if_cong)
next
  fix k assume k: "dinode_off k \<noteq> dinode_off inum"
  have "store_dinode x (dinode_off inum) d i = d i" if "dinode_off k \<le> i" "i < dinode_off k + 64" for i
    using k that by (intro store_dinode_other) (auto simp: dinode_off_def)
  then show "load_dinode (store_dinode x (dinode_off inum) d) (dinode_off k) y = load_dinode d (dinode_off k) y"
    by (intro load_dinode_cong) simp
qed

theorem dinode_roundtrip_witness:
  "load_dinode (store_dinode wit_inode (dinode_off 3) zero_bytes) (dinode_off 3) (wit_inode\<lparr>i_size := 1, i_type := 0, i_addrs := \<lambda>_. 0\<rparr>) = wit_inode"
proof -
  have "inode_range wit_inode" by (simp add: inode_range_def wit_inode_def T_FILE_def)
  from dinode_roundtrip [OF this, of 3 zero_bytes "wit_inode\<lparr>i_size := 1, i_type := 0, i_addrs := \<lambda>_. 0\<rparr>"]
  show ?thesis by (simp add: wit_inode_def NDIRECT_def fun_eq_iff)
qed

text \<open>C12. The inode cache holds each inode at most once: with that invariant and the cache lock free,
  \<open>iget\<close> either returns an entry of the inode with its reference count one higher (the entry it already
  had, or else a free one, set up for it) and keeps the invariant, or it panics, and then all entries are
  in use by other inodes.\<close>

theorem iget_unique:
  assumes "LK_icache \<notin> held s" and "icache_inv (inodes s)"
  shows "case iget dev inum s of
      Ok ip t \<Rightarrow> icache_inv (inodes t) \<and> inode_at (inodes t) dev inum ip \<and> t = s\<lparr>inodes := inodes t\<rparr> \<and>
        (\<forall>j. j \<noteq> ip \<longrightarrow> inodes t j = inodes s j) \<and>
        i_ref (inodes t ip) = (if \<exists>j. inode_at (inodes s) dev inum j then i_ref (inodes s ip) + 1 else 1)
    | Panic e \<Rightarrow> e = ''iget: no inodes'' \<and> (\<forall>i<NINODE. i_ref (inodes s i) > 0 \<and> \<not> inode_at (inodes s) dev inum i)
    | Sleeping t \<Rightarrow> False"
proof (cases "iget dev inum s")
  case (Ok ip t)
  then obtain ns' where p: "iget_post (inodes s) dev inum ip ns'" and t: "t = s\<lparr>inodes := ns'\<rparr>"
    using iget_result [OF assms, of dev inum] by auto
  have "inode_at (inodes s) dev inum ip \<longleftrightarrow> (\<exists>j. inode_at (inodes s) dev inum j)"
    using p by (auto simp: iget_post_def)
  then have "i_ref (ns' ip) = (if \<exists>j. inode_at (inodes s) dev inum j then i_ref (inodes s ip) + 1 else 1)"
    using p by (auto simp: iget_post_def)
  then show ?thesis
    using Ok t icache_inv_iget [OF assms(2) p] p by (auto simp: iget_post_def)
qed (use iget_result [OF assms, of dev inum] in auto)

theorem iget_unique_witness:
  "\<exists>t u. iget ROOTDEV 3 wit_fs = Ok 0 t \<and> i_ref (inodes t 0) = 2 \<and> iget ROOTDEV 7 wit_fs = Ok 1 u \<and> icache_inv (inodes u)"
proof -
  have h: "LK_icache \<notin> held wit_fs" using wit_log_post by (simp add: wit_fs_log wit_tx_post_def)
  have i: "icache_inv (inodes wit_fs)" by (auto simp: icache_inv_def wit_fs_log wit_inode_def)
  have at: "inode_at (inodes wit_fs) dev inum ip \<longleftrightarrow> dev = ROOTDEV \<and> inum = 3 \<and> ip = 0" for dev inum ip
    by (auto simp: inode_at_def wit_fs_log wit_inode_def NINODE_def)
  have r: "i_ref (inodes wit_fs 0) = 1" by (simp add: wit_fs_log wit_inode_def)
  have l: "[0..<NINODE] = 0 # 1 # [2..<NINODE]" by (simp add: NINODE_def upt_rec)
  have "iget_scan ROOTDEV 7 (inodes wit_fs) [2..<NINODE] (Some 1) = Inr (Some 1)"
    by (rule iget_scan_free) (auto simp: wit_fs_log wit_inode_def)
  then have "\<exists>u. iget ROOTDEV 7 wit_fs = Ok 1 u"
    by (simp add: iget_eq [OF h] iget_outcome_def l wit_fs_log(12)) (simp add: wit_inode_def)
  moreover have "\<exists>t. iget ROOTDEV 3 wit_fs = Ok 0 t"
    by (auto simp: iget_eq [OF h] iget_outcome_def l wit_fs_log wit_inode_def)
  ultimately show ?thesis
    using iget_unique [OF h i, of ROOTDEV 3] iget_unique [OF h i, of ROOTDEV 7] at r by auto
qed

end
