(* ===== verification/Dir.thy ===== *)
theory Dir
  imports Strings Inode
begin

text \<open>
  Directories and path names (\<open>fs.c\<close>): \<open>namecmp\<close>, \<open>dirlookup\<close>, \<open>dirlink\<close>, \<open>skipelem\<close>, \<open>namex\<close>,
  \<open>namei\<close>, \<open>nameiparent\<close>.

  A name buffer (\<open>char name[DIRSIZ]\<close>) is an array.  A path is the list of the bytes before the
  terminating zero, and \<open>path++\<close> drops its head.  The loops over the entries of a directory test
  \<open>dp->size\<close> at every entry, as in the code; they are cut at the largest file, where \<open>readi\<close>
  panics in \<open>bmap\<close> (lemma \<open>readi_beyond\<close>).
\<close>

section \<open>Directories\<close>

definition DIRSIZ :: nat where "DIRSIZ = 14"

record dirent =
  d_inum :: nat
  d_name :: bytes

definition get_dirent :: "byte list \<Rightarrow> dirent" where
  "get_dirent bs = \<lparr>d_inum = get16 (\<lambda>i. bs ! i) 0, d_name = (\<lambda>i. bs ! (i + 2))\<rparr>"

definition put_dirent :: "dirent \<Rightarrow> bytes" where
  "put_dirent de = (\<lambda>i. if i < 2 then put16 (\<lambda>_. 0) 0 (d_inum de) i else d_name de (i - 2))"

definition namecmp :: "bytes \<Rightarrow> bytes \<Rightarrow> int" where
  "namecmp s t = strncmp s t DIRSIZ"

text \<open>The number of entries in the largest file.\<close>

definition MAXENTS :: nat where "MAXENTS = MAXFILE * BSIZE div 16"

fun dirlookup_from :: "'z devsw \<Rightarrow> nat \<Rightarrow> bytes \<Rightarrow> nat \<Rightarrow> nat \<Rightarrow> ('z fs_st_scheme, (nat \<times> nat) option) kern" where
  "dirlookup_from dv dp name 0 off =
    kbind (kget (\<lambda>s. i_size (inodes s dp))) (\<lambda>sz.
    if off < sz then kpanic ''bmap: out of range'' else kret None)"
| "dirlookup_from dv dp name (Suc k) off =
    kbind (kget (\<lambda>s. i_size (inodes s dp))) (\<lambda>sz.
    if off < sz then
      kbind (readi dv dp off 16) (\<lambda>(r, bs).
      if r \<noteq> 16 then kpanic ''dirlink read''
      else if d_inum (get_dirent bs) = 0 then dirlookup_from dv dp name k (off + 16)
      else if namecmp name (d_name (get_dirent bs)) = 0 then
        kbind (kget (\<lambda>s. i_dev (inodes s dp))) (\<lambda>dev.
        kbind (iget dev (d_inum (get_dirent bs))) (\<lambda>ip.
        kret (Some (ip, off))))
      else dirlookup_from dv dp name k (off + 16))
    else kret None)"

text \<open>The result is the inode and the offset of its entry (\<open>*poff\<close>), or the null pointer.\<close>

definition dirlookup :: "'z devsw \<Rightarrow> nat \<Rightarrow> bytes \<Rightarrow> ('z fs_st_scheme, (nat \<times> nat) option) kern" where
  "dirlookup dv dp name =
    kbind (kget (\<lambda>s. i_type (inodes s dp))) (\<lambda>ty.
    if ty \<noteq> T_DIR then kpanic ''dirlookup not DIR''
    else dirlookup_from dv dp name MAXENTS 0)"

text \<open>The search for an empty entry: its offset, or the size of the directory.\<close>

fun dirlink_scan :: "'z devsw \<Rightarrow> nat \<Rightarrow> nat \<Rightarrow> nat \<Rightarrow> ('z fs_st_scheme, nat) kern" where
  "dirlink_scan dv dp 0 off =
    kbind (kget (\<lambda>s. i_size (inodes s dp))) (\<lambda>sz.
    if off < sz then kpanic ''bmap: out of range'' else kret off)"
| "dirlink_scan dv dp (Suc k) off =
    kbind (kget (\<lambda>s. i_size (inodes s dp))) (\<lambda>sz.
    if off < sz then
      kbind (readi dv dp off 16) (\<lambda>(r, bs).
      if r \<noteq> 16 then kpanic ''dirlink read''
      else if d_inum (get_dirent bs) = 0 then kret off
      else dirlink_scan dv dp k (off + 16))
    else kret off)"

definition dirlink :: "'z devsw \<Rightarrow> nat \<Rightarrow> bytes \<Rightarrow> nat \<Rightarrow> ('z fs_st_scheme, int) kern" where
  "dirlink dv dp name inum =
    kbind (dirlookup dv dp name) (\<lambda>r.
    case r of
      Some (ip, _) \<Rightarrow> kthen (iput ip) (kret (-1))
    | None \<Rightarrow>
        kbind (dirlink_scan dv dp MAXENTS 0) (\<lambda>off.
        kbind (writei dv dp (put_dirent \<lparr>d_inum = inum mod 65536, d_name = strncpy zero_bytes name (int DIRSIZ)\<rparr>) off 16) (\<lambda>r.
        if r \<noteq> 16 then kpanic ''dirlink'' else kret 0)))"

section \<open>Paths\<close>

definition slash :: byte where "slash = 47"

definition skip_slashes :: "byte list \<Rightarrow> byte list" where
  "skip_slashes = dropWhile (\<lambda>c. c = slash)"

text \<open>\<open>memmove(name, s, len)\<close>.\<close>

definition put_name :: "bytes \<Rightarrow> byte list \<Rightarrow> bytes" where
  "put_name name xs = (\<lambda>i. if i < length xs then xs ! i else name i)"

definition skipelem :: "byte list \<Rightarrow> bytes \<Rightarrow> (byte list \<times> bytes) option" where
  "skipelem path name =
    (let path = skip_slashes path in
     if path = [] then None
     else
       let s = takeWhile (\<lambda>c. c \<noteq> slash) path;
           path = dropWhile (\<lambda>c. c \<noteq> slash) path;
           len = length s;
           name = (if len \<ge> DIRSIZ then put_name name (take DIRSIZ s) else (put_name name s)(len := 0))
       in Some (skip_slashes path, name))"

lemma skipelem_shorter: "skipelem path name = Some (path', name') \<Longrightarrow> length path' < length path"
proof -
  assume a: "skipelem path name = Some (path', name')"
  let ?p = "skip_slashes path"
  have p: "?p \<noteq> []" and p': "path' = skip_slashes (dropWhile (\<lambda>c. c \<noteq> slash) ?p)"
    using a by (auto simp: skipelem_def Let_def split: if_splits)
  have "hd ?p \<noteq> slash" using p hd_dropWhile [of "\<lambda>c. c = slash" path] by (simp add: skip_slashes_def)
  then have "length (dropWhile (\<lambda>c. c \<noteq> slash) ?p) < length ?p"
    using p length_dropWhile_le [of "\<lambda>c. c \<noteq> slash" "tl ?p"] by (cases ?p) auto
  moreover have "length ?p \<le> length path" by (simp add: skip_slashes_def length_dropWhile_le)
  ultimately show ?thesis
    using length_dropWhile_le [of "\<lambda>c. c = slash" "dropWhile (\<lambda>c. c \<noteq> slash) ?p"] p' by (simp add: skip_slashes_def)
qed

function namex_loop :: "'z devsw \<Rightarrow> bool \<Rightarrow> nat \<Rightarrow> byte list \<Rightarrow> bytes \<Rightarrow> ('z fs_st_scheme, (nat \<times> bytes) option) kern" where
  "namex_loop dv nameiparent ip path name =
    (case skipelem path name of
      None \<Rightarrow>
        if nameiparent then kthen (iput ip) (kret None)
        else kret (Some (ip, name))
    | Some (path', name') \<Rightarrow>
        kthen (ilock (Some ip)) (
        kbind (kget (\<lambda>s. i_type (inodes s ip))) (\<lambda>ty.
        if ty \<noteq> T_DIR then kthen (iunlockput ip) (kret None)
        else if nameiparent \<and> path' = [] then kthen (iunlock (Some ip)) (kret (Some (ip, name')))
        else
          kbind (dirlookup dv ip name') (\<lambda>r.
          case r of
            None \<Rightarrow> kthen (iunlockput ip) (kret None)
          | Some (next, _) \<Rightarrow> kthen (iunlockput ip) (namex_loop dv nameiparent next path' name')))))"
  by pat_completeness auto

termination
  by (relation "measure (\<lambda>(dv, np, ip, path, name). length path)") (auto dest: skipelem_shorter)

declare namex_loop.simps [simp del]

definition namex :: "'z devsw \<Rightarrow> byte list \<Rightarrow> bool \<Rightarrow> bytes \<Rightarrow> ('z fs_st_scheme, (nat \<times> bytes) option) kern" where
  "namex dv path nameiparent name =
    kbind
      (if path \<noteq> [] \<and> hd path = slash then iget ROOTDEV ROOTINO
       else
         kbind (kget (\<lambda>s. map_option (\<lambda>p. p_cwd (ptable s p)) (curproc s))) (\<lambda>cwd.
         case cwd of Some (Some ip) \<Rightarrow> idup ip | _ \<Rightarrow> kpanic ''trap'')) (\<lambda>ip.
    namex_loop dv nameiparent ip path name)"

definition namei :: "'z devsw \<Rightarrow> byte list \<Rightarrow> ('z fs_st_scheme, nat option) kern" where
  "namei dv path = kbind (namex dv path False zero_bytes) (\<lambda>r. kret (map_option fst r))"

definition nameiparent :: "'z devsw \<Rightarrow> byte list \<Rightarrow> bytes \<Rightarrow> ('z fs_st_scheme, (nat \<times> bytes) option) kern" where
  "nameiparent dv path name = namex dv path True name"

section \<open>Path elements\<close>

text \<open>The reference: cut the path at every slash and drop the empty pieces.\<close>

fun pieces :: "byte list \<Rightarrow> byte list list" where
  "pieces [] = [[]]"
| "pieces (c # cs) = (if c = slash then [] # pieces cs else (c # hd (pieces cs)) # tl (pieces cs))"

definition components :: "byte list \<Rightarrow> byte list list" where
  "components path = filter (\<lambda>w. w \<noteq> []) (pieces path)"

lemma pieces_nonempty [simp]: "pieces path \<noteq> []"
  by (cases path) simp_all

lemma pieces_word: "slash \<notin> set w \<Longrightarrow> pieces (w @ r) = (w @ hd (pieces r)) # tl (pieces r)"
  by (induction w) auto

lemma components_slash: "components (slash # r) = components r"
  by (simp add: components_def)

lemma components_skip: "components (skip_slashes path) = components path"
  unfolding skip_slashes_def by (induction path) (auto simp: components_slash)

lemma components_word:
  "slash \<notin> set w \<Longrightarrow> w \<noteq> [] \<Longrightarrow> r = [] \<or> hd r = slash \<Longrightarrow> components (w @ r) = w # components r"
  using pieces_word [of w r] by (cases r) (auto simp: components_def)

lemma skip_slashes_hd: "skip_slashes path \<noteq> [] \<Longrightarrow> hd (skip_slashes path) \<noteq> slash"
  unfolding skip_slashes_def by (rule hd_dropWhile)

lemma components_empty: "components (skip_slashes path) = [] \<longleftrightarrow> skip_slashes path = []"
proof (cases "skip_slashes path")
  case (Cons c r)
  then have "c \<noteq> slash" using skip_slashes_hd [of path] by simp
  then show ?thesis using Cons by (simp add: components_def)
qed (simp add: components_def)

lemma skipelem_Some:
  assumes "skip_slashes path \<noteq> []"
  obtains w r where "skip_slashes path = w @ r" "w \<noteq> []" "slash \<notin> set w" "r = [] \<or> hd r = slash"
    "w = takeWhile (\<lambda>c. c \<noteq> slash) (skip_slashes path)" "r = dropWhile (\<lambda>c. c \<noteq> slash) (skip_slashes path)"
proof (rule that [of "takeWhile (\<lambda>c. c \<noteq> slash) (skip_slashes path)" "dropWhile (\<lambda>c. c \<noteq> slash) (skip_slashes path)"])
  show "takeWhile (\<lambda>c. c \<noteq> slash) (skip_slashes path) \<noteq> []"
    using assms skip_slashes_hd [OF assms] by (cases "skip_slashes path") auto
  show "slash \<notin> set (takeWhile (\<lambda>c. c \<noteq> slash) (skip_slashes path))" by (auto dest: set_takeWhileD)
  show "dropWhile (\<lambda>c. c \<noteq> slash) (skip_slashes path) = [] \<or> hd (dropWhile (\<lambda>c. c \<noteq> slash) (skip_slashes path)) = slash"
    using hd_dropWhile [of "\<lambda>c. c \<noteq> slash" "skip_slashes path"] by auto
qed simp_all

text \<open>The name buffer holds the word, cut at \<open>DIRSIZ\<close> and terminated when there is room.\<close>

definition holds_name :: "bytes \<Rightarrow> byte list \<Rightarrow> bool" where
  "holds_name name w \<longleftrightarrow> (\<forall>i<DIRSIZ. i < length w \<longrightarrow> name i = w ! i) \<and> (length w < DIRSIZ \<longrightarrow> name (length w) = 0)"

section \<open>Searching a directory\<close>

text \<open>Entry \<open>k\<close> of a directory, and the index of the first entry in use with a name.\<close>

definition dirent_at :: "(nat \<Rightarrow> bytes) \<Rightarrow> inode \<Rightarrow> nat \<Rightarrow> dirent" where
  "dirent_at V x k = get_dirent (map (file_byte V x) [16 * k..<16 * k + 16])"

definition dir_find :: "(nat \<Rightarrow> bytes) \<Rightarrow> inode \<Rightarrow> bytes \<Rightarrow> nat \<Rightarrow> nat option" where
  "dir_find V x name k = find (\<lambda>j. d_inum (dirent_at V x j) \<noteq> 0 \<and> namecmp name (d_name (dirent_at V x j)) = 0)
     [k..<i_size x div 16]"

lemma dir_find_rec:
  "dir_find V x name k = (if i_size x div 16 \<le> k then None
     else if d_inum (dirent_at V x k) \<noteq> 0 \<and> namecmp name (d_name (dirent_at V x k)) = 0 then Some k
     else dir_find V x name (Suc k))"
  by (simp add: dir_find_def upt_rec [of k])

lemma readi_beyond:
  assumes "i_type (inodes s dp) = T_DIR" and "16 * MAXENTS < i_size (inodes s dp)"
  shows "readi dv dp (16 * MAXENTS) 16 s = Panic ''bmap: out of range''"
proof -
  have m: "16 * MAXENTS = MAXFILE * BSIZE" by (simp add: MAXENTS_def MAXFILE_def NDIRECT_def NINDIRECT_def BSIZE_def)
  have b: "bmap dp MAXFILE s = Panic ''bmap: out of range''"
    by (simp add: bmap_def kern_defs MAXFILE_def NDIRECT_def NINDIRECT_def)
  have "readi_loop dp (MAXFILE * BSIZE) n [] s = Panic ''bmap: out of range''" if "n > 0" for n
    using that b by (subst readi_loop.simps) (simp add: kern_defs BSIZE_def)
  moreover have "u32 (MAXFILE * BSIZE + 16) = MAXFILE * BSIZE + 16"
    by (simp add: u32_def MAXFILE_def NDIRECT_def NINDIRECT_def BSIZE_def)
  ultimately show ?thesis
    using assms unfolding m by (simp add: readi_def kern_defs T_DIR_def T_DEV_def)
qed

definition is_dir :: "'z fs_st_scheme \<Rightarrow> inode \<Rightarrow> bool" where
  "is_dir s x \<longleftrightarrow> readable s x \<and> i_type x = T_DIR \<and> i_size x mod 16 = 0"

lemma wp_read_dirent:
  assumes d: "is_dir s (inodes s dp)" and k: "k < i_size (inodes s dp) div 16"
    and Q: "\<And>t. ro_post s t \<Longrightarrow> Q (16, map (file_byte (view s) (inodes s dp)) [16 * k..<16 * k + 16]) t"
  shows "wp (readi dv dp (16 * k) 16) Q s"
proof -
  let ?sz = "i_size (inodes s dp)"
  have z: "16 * k + 16 \<le> ?sz" "?sz \<le> MAXFILE * BSIZE" using d k by (auto simp: is_dir_def readable_def)
  then have "16 * k + 16 < 2147483648" by (simp add: MAXFILE_def NDIRECT_def NINDIRECT_def BSIZE_def)
  moreover have "(16 :: nat) = min 16 (?sz - 16 * k)" using z by simp
  ultimately show ?thesis
    using d z Q by (intro wp_readi [where m = 16]) (simp_all add: is_dir_def)
qed

lemma ro_inodes: "ro_post s t \<Longrightarrow> inodes t = inodes s"
  by (simp add: ro_post_def frame_inodes)

lemma wp_dirlookup_from:
  assumes "is_dir s (inodes s dp)" "k \<le> i_size (inodes s dp) div 16" "i_size (inodes s dp) div 16 \<le> f + k"
    and "\<And>t. ro_post s t \<Longrightarrow> (case dir_find (view s) (inodes s dp) name k of None \<Rightarrow> Q None t
        | Some j \<Rightarrow> wp (iget (i_dev (inodes s dp)) (d_inum (dirent_at (view s) (inodes s dp) j))) (\<lambda>ip. Q (Some (ip, 16 * j))) t)"
  shows "wp (dirlookup_from dv dp name f (16 * k)) Q s"
  using assms
proof (induction f arbitrary: k s)
  case 0
  note A = "0.prems"
  have "ro_post s s" using A(1) by (simp add: ro_post_refl is_dir_def readable_def)
  then show ?case using A by (auto simp: dir_find_rec is_dir_def)
next
  case (Suc f)
  note A = Suc.prems
  let ?x = "inodes s dp" and ?e = "dirent_at (view s) (inodes s dp) k"
  have r: "ro_post s s" using A(1) by (simp add: ro_post_refl is_dir_def readable_def)
  show ?case
  proof (cases "k < i_size ?x div 16")
    case False
    then show ?thesis using A(4) [OF r] A(1,2) by (auto simp: dir_find_rec is_dir_def)
  next
    case True
    have next_k: "wp (dirlookup_from dv dp name f (16 * k + 16)) Q t"
      if t: "ro_post s t" and no: "\<not> (d_inum ?e \<noteq> 0 \<and> namecmp name (d_name ?e) = 0)" for t
    proof -
      note i = ro_inodes [OF t]
      have v: "view t = view s" using t by (simp add: ro_post_def)
      have f: "dir_find (view s) ?x name k = dir_find (view s) ?x name (Suc k)"
        using True no by (subst dir_find_rec) auto
      have "is_dir t ?x" using A(1) readable_ro [OF t] by (simp add: is_dir_def)
      then have "wp (dirlookup_from dv dp name f (16 * Suc k)) Q t"
        using A(2,3) True A(4) [OF ro_post_trans [OF t]] by (intro Suc.IH; unfold i v f [symmetric]) simp_all
      then show ?thesis by (simp add: add.commute)
    qed
    have found: "wp (iget (i_dev ?x) (d_inum ?e)) (\<lambda>ip. Q (Some (ip, 16 * k))) t"
      if t: "ro_post s t" and e: "d_inum ?e \<noteq> 0" "namecmp name (d_name ?e) = 0" for t
      using A(4) [OF t] e True by (subst (asm) dir_find_rec) simp
    have "wp (kbind (readi dv dp (16 * k) 16) (\<lambda>(r, bs).
        if r \<noteq> 16 then kpanic ''dirlink read''
        else if d_inum (get_dirent bs) = 0 then dirlookup_from dv dp name f (16 * k + 16)
        else if namecmp name (d_name (get_dirent bs)) = 0 then
          kbind (kget (\<lambda>s. i_dev (inodes s dp))) (\<lambda>dev. kbind (iget dev (d_inum (get_dirent bs))) (\<lambda>ip. kret (Some (ip, 16 * k))))
        else dirlookup_from dv dp name f (16 * k + 16))) Q s"
      by (subst wp_kbind, rule wp_read_dirent [OF A(1) True])
        (use next_k found in \<open>simp add: dirent_at_def [symmetric] ro_inodes del: upt_Suc\<close>)
    moreover have "16 * k < i_size ?x" using True by simp
    ultimately show ?thesis by (simp only: dirlookup_from.simps wp_kget_bind if_True)
  qed
qed

lemma wp_iget:
  assumes "LK_icache \<notin> held s" "icache_inv (inodes s)" "\<exists>i<NINODE. i_ref (inodes s i) = 0 \<or> inode_at (inodes s) dev inum i"
    and Q: "\<And>ip ns'. iget_post (inodes s) dev inum ip ns' \<Longrightarrow> Q ip (s\<lparr>inodes := ns'\<rparr>)"
  shows "wp (iget dev inum) Q s"
  using iget_result [OF assms(1,2), of dev inum] assms(3) Q unfolding wp_def by (auto split: kres.splits)

section \<open>Properties\<close>

text \<open>C14. \<open>skipelem\<close> takes the first component off a path: it returns null just when the path has none;
  otherwise the buffer holds the first non-empty piece between slashes (at most \<open>DIRSIZ\<close> bytes of it,
  terminated when shorter), the rest has the other components, and the rest is the empty string just
  when that was the last one.  Leading, doubled and trailing slashes do not matter.\<close>

theorem skipelem_components:
  "case skipelem path name of None \<Rightarrow> components path = []
   | Some (rest, name') \<Rightarrow> components path \<noteq> [] \<and> holds_name name' (hd (components path)) \<and>
       components rest = tl (components path) \<and> (rest = [] \<longleftrightarrow> components rest = []) \<and> length rest < length path"
proof (cases "skip_slashes path = []")
  case True
  then show ?thesis using components_skip [of path] by (simp add: skipelem_def components_def)
next
  case False
  then obtain w r where w: "skip_slashes path = w @ r" "w \<noteq> []" "slash \<notin> set w" "r = [] \<or> hd r = slash"
    "w = takeWhile (\<lambda>c. c \<noteq> slash) (skip_slashes path)" "r = dropWhile (\<lambda>c. c \<noteq> slash) (skip_slashes path)"
    by (rule skipelem_Some)
  have c: "components path = w # components (skip_slashes r)"
    using components_word [OF w(3,2,4)] w(1) components_skip [of path] components_skip [of r] by simp
  let ?name = "if length w \<ge> DIRSIZ then put_name name (take DIRSIZ w) else (put_name name w)(length w := 0)"
  have e: "skipelem path name = Some (skip_slashes r, ?name)"
    using False by (simp add: skipelem_def Let_def w(5,6) [symmetric])
  have "holds_name ?name w" by (auto simp: holds_name_def put_name_def)
  then show ?thesis using e c components_empty [of r] skipelem_shorter [OF e] by simp
qed


text \<open>A directory of two entries in block 3: inode 15 with the empty name, and an unused one.\<close>

definition wit_dir :: inode where
  "wit_dir = wit_inode\<lparr>i_type := T_DIR, i_size := 32, i_addrs := (\<lambda>_. 3)\<rparr>"

definition wit_dir_fs :: fs_st where
  "wit_dir_fs = wit_fs\<lparr>inodes := (inodes wit_fs)(0 := wit_dir)\<rparr>"

lemma DIRSIZ_Suc: "DIRSIZ = Suc 13"
  by (simp add: DIRSIZ_def)


end
