(* ===== verification/Kalloc.thy ===== *)
theory Kalloc
  imports Dir
begin

text \<open>
  The physical page allocator (\<open>kalloc.c\<close>).

  \<open>mem_st\<close> extends the state by physical memory, one byte per physical address, the head of the
  free list \<open>kmem.freelist\<close>, \<open>kmem.use_lock\<close>, the address \<open>end\<close> of the first byte after the
  kernel, the address \<open>data\<close> of its data, and the page table registers used in theory \<open>Vm\<close>.
  The free list is linked through the free pages, as in the code: the first word of a free page is
  the address of the next one.  Kernel pointers are virtual addresses, \<open>KERNBASE\<close> above the
  physical ones.
\<close>

section \<open>Memory\<close>

definition EXTMEM :: nat where "EXTMEM = 0x100000"
definition PHYSTOP :: nat where "PHYSTOP = 0xE000000"
definition DEVSPACE :: nat where "DEVSPACE = 0xFE000000"
definition KERNBASE :: nat where "KERNBASE = 0x80000000"
definition KERNLINK :: nat where "KERNLINK = KERNBASE + EXTMEM"
definition PGSIZE :: nat where "PGSIZE = 4096"

definition v2p :: "nat \<Rightarrow> nat" where
  "v2p a = u32 (a + (4294967296 - KERNBASE))"

definition p2v :: "nat \<Rightarrow> nat" where
  "p2v a = u32 (a + KERNBASE)"

definition PGROUNDUP :: "nat \<Rightarrow> nat" where
  "PGROUNDUP sz = u32 (sz + PGSIZE - 1) div PGSIZE * PGSIZE"

definition PGROUNDDOWN :: "nat \<Rightarrow> nat" where
  "PGROUNDDOWN a = a div PGSIZE * PGSIZE"

record mem_st = fs_st +
  phys :: bytes
  freelist :: nat
  use_lock :: bool
  kend :: nat
  kdata :: nat
  kpgdir :: nat
  cr3 :: nat
  ts_esp0 :: nat

section \<open>The allocator\<close>

definition kmem_acquire :: "('z mem_st_scheme, unit) kern" where
  "kmem_acquire = kbind (kget use_lock) (\<lambda>u. kwhen u (acquire_lk LK_kmem))"

definition kmem_release :: "('z mem_st_scheme, unit) kern" where
  "kmem_release = kbind (kget use_lock) (\<lambda>u. kwhen u (release_lk LK_kmem))"

definition kfree :: "nat \<Rightarrow> ('z mem_st_scheme, unit) kern" where
  "kfree v =
    kbind (kget kend) (\<lambda>e.
    if v mod PGSIZE \<noteq> 0 \<or> v < e \<or> v2p v \<ge> PHYSTOP then kpanic ''kfree''
    else
      kthen (kmod (\<lambda>s. s\<lparr>phys := memset (phys s) (v2p v) 1 PGSIZE\<rparr>)) (
      kthen kmem_acquire (
      kthen (kmod (\<lambda>s. s\<lparr>phys := put32 (phys s) (v2p v) (freelist s)\<rparr>)) (
      kthen (kmod (\<lambda>s. s\<lparr>freelist := v\<rparr>)) (
      kmem_release)))))"

definition kalloc :: "('z mem_st_scheme, nat) kern" where
  "kalloc =
    kthen kmem_acquire (
    kbind (kget freelist) (\<lambda>r.
    kthen (kwhen (r \<noteq> 0) (kmod (\<lambda>s. s\<lparr>freelist := get32 (phys s) (v2p r)\<rparr>))) (
    kthen kmem_release (
    kret r))))"

function freerange_from :: "nat \<Rightarrow> nat \<Rightarrow> ('z mem_st_scheme, unit) kern" where
  "freerange_from p vend =
    (if p + PGSIZE \<le> vend then kthen (kfree p) (freerange_from (p + PGSIZE) vend) else kret ())"
  by pat_completeness auto

termination
  by (relation "measure (\<lambda>(p, vend). vend - p)") (auto simp: PGSIZE_def)

declare freerange_from.simps [simp del]

definition freerange :: "nat \<Rightarrow> nat \<Rightarrow> ('z mem_st_scheme, unit) kern" where
  "freerange vstart vend = freerange_from (PGROUNDUP vstart) vend"

definition kinit1 :: "nat \<Rightarrow> nat \<Rightarrow> ('z mem_st_scheme, unit) kern" where
  "kinit1 vstart vend =
    kthen (kmod (\<lambda>s. s\<lparr>use_lock := False\<rparr>)) (
    freerange vstart vend)"

definition kinit2 :: "nat \<Rightarrow> nat \<Rightarrow> ('z mem_st_scheme, unit) kern" where
  "kinit2 vstart vend =
    kthen (freerange vstart vend) (
    kmod (\<lambda>s. s\<lparr>use_lock := True\<rparr>))"

section \<open>The free list as a stack of pages\<close>

text \<open>A page the allocator may hand out.\<close>

definition page_ok :: "nat \<Rightarrow> nat \<Rightarrow> bool" where
  "page_ok e v \<longleftrightarrow> v mod PGSIZE = 0 \<and> e \<le> v \<and> KERNBASE < v \<and> v < KERNBASE + PHYSTOP"

text \<open>The pages linked from \<open>p\<close>.\<close>

fun linked :: "bytes \<Rightarrow> nat \<Rightarrow> nat list \<Rightarrow> bool" where
  "linked m p [] \<longleftrightarrow> p = 0"
| "linked m p (v # vs) \<longleftrightarrow> p = v \<and> v \<noteq> 0 \<and> linked m (get32 m (v2p v)) vs"

definition free_pages :: "'z mem_st_scheme \<Rightarrow> nat list \<Rightarrow> bool" where
  "free_pages s vs \<longleftrightarrow> linked (phys s) (freelist s) vs \<and> distinct vs \<and> (\<forall>v \<in> set vs. page_ok (kend s) v)"

lemma v2p_kern: "KERNBASE \<le> v \<Longrightarrow> v < 4294967296 \<Longrightarrow> v2p v = v - KERNBASE"
proof -
  assume v: "KERNBASE \<le> v" "v < 4294967296"
  then have "v + (4294967296 - KERNBASE) = (v - KERNBASE) + 2 ^ 32" by (simp add: KERNBASE_def)
  then have "(v + (4294967296 - KERNBASE)) mod 2 ^ 32 = (v - KERNBASE) mod 2 ^ 32"
    by (metis mod_add_self2)
  moreover have "(v - KERNBASE) mod 2 ^ 32 = v - KERNBASE" using v by (intro mod_less) simp
  ultimately show ?thesis by (simp only: v2p_def u32_def)
qed

lemma p2v_phys: "a < KERNBASE \<Longrightarrow> p2v a = a + KERNBASE"
  by (simp add: p2v_def u32_def KERNBASE_def)

lemma v2p_p2v [simp]: "a < KERNBASE \<Longrightarrow> v2p (p2v a) = a"
  by (simp add: p2v_phys v2p_kern KERNBASE_def)

lemma v2p_page: "page_ok e v \<Longrightarrow> v2p v = v - KERNBASE"
  by (auto simp: page_ok_def KERNBASE_def PHYSTOP_def intro!: v2p_kern [unfolded KERNBASE_def])

lemma page_bytes_disjoint:
  assumes "page_ok e v" "page_ok e w" "v \<noteq> w" "i < PGSIZE" "j < PGSIZE"
  shows "v2p v + i \<noteq> v2p w + j"
proof
  assume eq: "v2p v + i = v2p w + j"
  then have "v + i = w + j" using assms by (auto simp: v2p_page page_ok_def)
  then have "(v + i) div PGSIZE = (w + j) div PGSIZE" by simp
  moreover have "v = v div PGSIZE * PGSIZE" "w = w div PGSIZE * PGSIZE"
    using assms by (auto simp: page_ok_def mod_eq_0_iff_dvd)
  ultimately show False
    using assms(3-5) by (metis add.commute div_mult_self3 div_less add_cancel_right_right gr_implies_not0)
qed

text \<open>Memory outside the pages on the list does not matter to it.\<close>

lemma linked_cong:
  "(\<And>v i. v \<in> set vs \<Longrightarrow> i < 4 \<Longrightarrow> m (v2p v + i) = m' (v2p v + i)) \<Longrightarrow> linked m p vs = linked m' p vs"
proof (induction vs arbitrary: p)
  case (Cons v vs)
  have "get32 m (v2p v) = get32 m' (v2p v)"
    using Cons.prems [of v 0] Cons.prems [of v 1] Cons.prems [of v 2] Cons.prems [of v 3]
    by (simp add: get32_def)
  moreover have "linked m (get32 m' (v2p v)) vs = linked m' (get32 m' (v2p v)) vs"
    by (rule Cons.IH) (simp add: Cons.prems)
  ultimately show ?case by simp
qed simp

lemma page_ok_kfree: "page_ok e v \<Longrightarrow> \<not> (v mod PGSIZE \<noteq> 0 \<or> v < e \<or> v2p v \<ge> PHYSTOP)"
  by (auto simp: page_ok_def v2p_page)

lemma wp_kmem_acquire [simp]:
  "wp kmem_acquire Q = (\<lambda>s. if use_lock s then LK_kmem \<notin> held s \<and> Q () (s\<lparr>held := insert LK_kmem (held s)\<rparr>) else Q () s)"
  by (simp add: kmem_acquire_def)

lemma wp_kmem_release [simp]:
  "wp kmem_release Q = (\<lambda>s. if use_lock s then LK_kmem \<in> held s \<and> Q () (s\<lparr>held := held s - {LK_kmem}\<rparr>) else Q () s)"
  by (simp add: kmem_release_def)

text \<open>The memory after \<open>kfree(v)\<close>.\<close>

definition kfree_mem :: "bytes \<Rightarrow> nat \<Rightarrow> nat \<Rightarrow> bytes" where
  "kfree_mem m v head = put32 (memset m (v2p v) 1 PGSIZE) (v2p v) head"

lemma wp_kfree:
  assumes "page_ok (kend s) v" "use_lock s \<longrightarrow> LK_kmem \<notin> held s"
    and "Q () (s\<lparr>phys := kfree_mem (phys s) v (freelist s), freelist := v\<rparr>)"
  shows "wp (kfree v) Q s"
  using assms page_ok_kfree [OF assms(1)] by (simp add: kfree_def kfree_mem_def)

lemma wp_kalloc:
  assumes "use_lock s \<longrightarrow> LK_kmem \<notin> held s"
    and "freelist s = 0 \<Longrightarrow> Q 0 s"
    and "freelist s \<noteq> 0 \<Longrightarrow> Q (freelist s) (s\<lparr>freelist := get32 (phys s) (v2p (freelist s))\<rparr>)"
  shows "wp kalloc Q s"
  using assms by (cases "freelist s = 0") (simp_all add: kalloc_def)

lemma kfree_mem_other: "a < v2p v \<or> v2p v + PGSIZE \<le> a \<Longrightarrow> kfree_mem m v h a = m a"
  by (auto simp: kfree_mem_def put32_apply_other memset_apply PGSIZE_def)

lemma page_apart:
  assumes "page_ok e v" "page_ok e w" "v \<noteq> w" "j < PGSIZE"
  shows "v2p w + j < v2p v \<or> v2p v + PGSIZE \<le> v2p w + j"
  using page_bytes_disjoint [OF assms(1-3) _ assms(4), of "v2p w + j - v2p v"] by linarith

lemma free_pages_kfree:
  assumes f: "free_pages s vs" and v: "page_ok (kend s) v" "v \<notin> set vs"
  shows "free_pages (s\<lparr>phys := kfree_mem (phys s) v (freelist s), freelist := v\<rparr>) (v # vs)"
proof -
  note F = f [unfolded free_pages_def]
  let ?m = "kfree_mem (phys s) v (freelist s)"
  have "?m (v2p w + i) = phys s (v2p w + i)" if "w \<in> set vs" "i < 4" for w i
    using that v F page_apart [OF v(1), of w i] by (intro kfree_mem_other) (auto simp: PGSIZE_def)
  then have "linked ?m (freelist s) vs" using F linked_cong [of vs ?m "phys s"] by blast
  moreover have "freelist s < 4294967296"
    using F by (cases vs) (auto simp: page_ok_def KERNBASE_def PHYSTOP_def)
  then have "get32 ?m (v2p v) = freelist s" by (simp add: kfree_mem_def)
  moreover have "v \<noteq> 0" using v by (auto simp: page_ok_def)
  ultimately show ?thesis using F v by (simp add: free_pages_def)
qed

lemma free_pages_kalloc:
  assumes "free_pages s (v # vs)"
  shows "freelist s = v" "v \<noteq> 0" "free_pages (s\<lparr>freelist := get32 (phys s) (v2p v)\<rparr>) vs" "page_ok (kend s) v" "v \<notin> set vs"
  using assms by (auto simp: free_pages_def)

lemma free_pages_Nil: "free_pages s [] \<longleftrightarrow> freelist s = 0"
  by (simp add: free_pages_def)

lemma free_pages_head: "free_pages s vs \<Longrightarrow> freelist s = 0 \<longleftrightarrow> vs = []"
  by (cases vs) (auto simp: free_pages_def)

section \<open>Properties\<close>

text \<open>C19. The page allocator is a stack of distinct pages kept in the free pages themselves: \<open>kalloc\<close> pops
  the top page, and returns 0 and changes nothing just when the stack is empty; \<open>kfree\<close> of a page that
  is not free pushes it and changes no byte outside that page; so a page is never handed out twice
  without a \<open>kfree\<close> in between.  An address that is not a page above the kernel makes \<open>kfree\<close> panic.\<close>

theorem kalloc_kfree_stack:
  assumes "free_pages s vs" and "LK_kmem \<notin> held s"
  shows "(case vs of [] \<Rightarrow> kalloc s = Ok 0 s
      | v # ws \<Rightarrow> \<exists>t. kalloc s = Ok v t \<and> free_pages t ws \<and> v \<notin> set ws \<and> page_ok (kend s) v \<and> phys t = phys s) \<and>
    (\<forall>v. page_ok (kend s) v \<and> v \<notin> set vs \<longrightarrow> (\<exists>t. kfree v s = Ok () t \<and> free_pages t (v # vs) \<and>
      (\<forall>a. a < v2p v \<or> v2p v + PGSIZE \<le> a \<longrightarrow> phys t a = phys s a))) \<and>
    (\<forall>v. v mod PGSIZE \<noteq> 0 \<or> v < kend s \<or> v2p v \<ge> PHYSTOP \<longrightarrow> kfree v s = Panic ''kfree'')"
proof (intro conjI allI impI)
  show "case vs of [] \<Rightarrow> kalloc s = Ok 0 s
      | v # ws \<Rightarrow> \<exists>t. kalloc s = Ok v t \<and> free_pages t ws \<and> v \<notin> set ws \<and> page_ok (kend s) v \<and> phys t = phys s"
  proof (cases vs)
    case Nil
    then have "freelist s = 0" using assms(1) by (simp add: free_pages_def)
    then have "wp kalloc (\<lambda>r t. r = 0 \<and> t = s) s" using assms(2) by (intro wp_kalloc) simp_all
    then show ?thesis using Nil by (auto simp: wp_iff)
  next
    case (Cons v ws)
    note P = free_pages_kalloc [OF assms(1) [unfolded Cons]]
    have "wp kalloc (\<lambda>r t. r = v \<and> free_pages t ws \<and> phys t = phys s) s"
      using assms(2) P by (intro wp_kalloc) simp_all
    then show ?thesis using Cons P(4,5) by (auto simp: wp_iff)
  qed
next
  fix v assume v: "page_ok (kend s) v \<and> v \<notin> set vs"
  have "wp (kfree v) (\<lambda>_ t. free_pages t (v # vs) \<and> (\<forall>a. a < v2p v \<or> v2p v + PGSIZE \<le> a \<longrightarrow> phys t a = phys s a)) s"
    using v assms free_pages_kfree [OF assms(1)] by (intro wp_kfree) (auto simp: kfree_mem_other)
  then show "\<exists>t. kfree v s = Ok () t \<and> free_pages t (v # vs) \<and>
      (\<forall>a. a < v2p v \<or> v2p v + PGSIZE \<le> a \<longrightarrow> phys t a = phys s a)"
    by (auto simp: wp_iff)
next
  fix v assume "v mod PGSIZE \<noteq> 0 \<or> v < kend s \<or> v2p v \<ge> PHYSTOP"
  then show "kfree v s = Panic ''kfree''" by (auto simp: kfree_def kern_defs)
qed

text \<open>Memory with two free pages.\<close>

definition wit_mem :: mem_st where
  "wit_mem = fs_st.extend wit_fs (mem_st.fields (put32 zero_bytes 0x200000 0x80300000) 0x80200000 True 0x80180000 0x80110000 0 0 0)"

lemma wit_mem_fields: "phys wit_mem = put32 zero_bytes 0x200000 0x80300000" "freelist wit_mem = 0x80200000"
  "use_lock wit_mem" "kend wit_mem = 0x80180000" "held wit_mem = held wit_fs"
  by (simp_all add: wit_mem_def fs_st.extend_def mem_st.fields_def)

lemma wit_mem_free: "free_pages wit_mem [0x80200000, 0x80300000]"
  by (simp add: free_pages_def wit_mem_fields page_ok_def v2p_def u32_def KERNBASE_def PHYSTOP_def PGSIZE_def)
    (simp add: get32_def put32_def zero_bytes_def)

theorem kalloc_kfree_stack_witness:
  "(\<exists>t. kalloc wit_mem = Ok 0x80200000 t \<and> free_pages t [0x80300000]) \<and>
   (\<exists>t. kfree 0x80400000 wit_mem = Ok () t \<and> free_pages t [0x80400000, 0x80200000, 0x80300000]) \<and>
   kfree 0x80100000 wit_mem = Panic ''kfree''"
proof -
  have h: "LK_kmem \<notin> held wit_mem" using wit_log_post by (simp add: wit_mem_fields wit_fs_log wit_tx_post_def)
  have "page_ok (kend wit_mem) 0x80400000"
    by (simp add: page_ok_def wit_mem_fields KERNBASE_def PHYSTOP_def PGSIZE_def)
  moreover have "(0x80100000 :: nat) < kend wit_mem" by (simp add: wit_mem_fields)
  ultimately show ?thesis using kalloc_kfree_stack [OF wit_mem_free h] by auto
qed

end
