(* ===== verification/Vm.thy ===== *)
theory Vm
  imports Kalloc
begin

unbundle bit_operations_syntax

text \<open>
  Page tables and user memory (\<open>vm.c\<close>).

  Page directories and page tables are pages of physical memory and are read and written there, a
  word at a time, through kernel pointers.  An address is a \<open>uint\<close>, a natural number below
  \<open>2 ^ 32\<close>; the sums of the code wrap.  The loops over user memory run below \<open>KERNBASE\<close>, where no
  address wraps.  \<open>cprintf\<close> diagnostics are left out.
\<close>

section \<open>Page tables\<close>

definition NPDENTRIES :: nat where "NPDENTRIES = 1024"
definition NPTENTRIES :: nat where "NPTENTRIES = 1024"
definition PTE_P :: nat where "PTE_P = 1"
definition PTE_W :: nat where "PTE_W = 2"
definition PTE_U :: nat where "PTE_U = 4"
definition KSTACKSIZE :: nat where "KSTACKSIZE = 4096"

definition PDX :: "nat \<Rightarrow> nat" where "PDX va = va div 4194304 mod 1024"
definition PTX :: "nat \<Rightarrow> nat" where "PTX va = va div 4096 mod 1024"
definition PTE_ADDR :: "nat \<Rightarrow> nat" where "PTE_ADDR pte = pte div 4096 * 4096"
definition PTE_FLAGS :: "nat \<Rightarrow> nat" where "PTE_FLAGS pte = pte mod 4096"

definition load32 :: "nat \<Rightarrow> ('z mem_st_scheme, nat) kern" where
  "load32 p = kget (\<lambda>s. get32 (phys s) (v2p p))"

definition store32 :: "nat \<Rightarrow> nat \<Rightarrow> ('z mem_st_scheme, unit) kern" where
  "store32 p v = kmod (\<lambda>s. s\<lparr>phys := put32 (phys s) (v2p p) v\<rparr>)"

definition kmemset :: "nat \<Rightarrow> 32 word \<Rightarrow> nat \<Rightarrow> ('z mem_st_scheme, unit) kern" where
  "kmemset p c n = kmod (\<lambda>s. s\<lparr>phys := memset (phys s) (v2p p) c n\<rparr>)"

text \<open>Bytes written to memory at physical address \<open>a\<close>.\<close>

definition put_list :: "bytes \<Rightarrow> nat \<Rightarrow> byte list \<Rightarrow> bytes" where
  "put_list m a bs = (\<lambda>i. if a \<le> i \<and> i < a + length bs then bs ! (i - a) else m i)"

definition kstore :: "nat \<Rightarrow> byte list \<Rightarrow> ('z mem_st_scheme, unit) kern" where
  "kstore p bs = kmod (\<lambda>s. s\<lparr>phys := put_list (phys s) (v2p p) bs\<rparr>)"

text \<open>The kernel pointer to the entry, or \<open>None\<close> for the null pointer.\<close>

definition walkpgdir :: "nat \<Rightarrow> nat \<Rightarrow> bool \<Rightarrow> ('z mem_st_scheme, nat option) kern" where
  "walkpgdir pgdir va alloc =
    kbind (load32 (pgdir + 4 * PDX va)) (\<lambda>pde.
    if pde AND PTE_P \<noteq> 0 then kret (Some (p2v (PTE_ADDR pde) + 4 * PTX va))
    else if \<not> alloc then kret None
    else
      kbind kalloc (\<lambda>pgtab.
      if pgtab = 0 then kret None
      else
        kthen (kmemset pgtab 0 PGSIZE) (
        kthen (store32 (pgdir + 4 * PDX va) (v2p pgtab OR PTE_P OR PTE_W OR PTE_U)) (
        kret (Some (pgtab + 4 * PTX va))))))"

text \<open>The loop of \<open>mappages\<close>; \<open>k\<close> pages follow the one at \<open>a\<close> up to \<open>last\<close>.\<close>

fun mappages_from :: "nat \<Rightarrow> nat \<Rightarrow> nat \<Rightarrow> nat \<Rightarrow> nat \<Rightarrow> ('z mem_st_scheme, int) kern" where
  "mappages_from pgdir k a pa perm =
    kbind (walkpgdir pgdir a True) (\<lambda>r.
    case r of None \<Rightarrow> kret (-1)
    | Some pte \<Rightarrow>
      kbind (load32 pte) (\<lambda>e.
      if e AND PTE_P \<noteq> 0 then kpanic ''remap''
      else
        kthen (store32 pte (pa OR perm OR PTE_P)) (
        case k of 0 \<Rightarrow> kret 0
        | Suc k \<Rightarrow> mappages_from pgdir k (u32 (a + PGSIZE)) (u32 (pa + PGSIZE)) perm)))"

declare mappages_from.simps [simp del]

definition mappages :: "nat \<Rightarrow> nat \<Rightarrow> nat \<Rightarrow> nat \<Rightarrow> nat \<Rightarrow> ('z mem_st_scheme, int) kern" where
  "mappages pgdir va sz pa perm =
    (let a = PGROUNDDOWN va;
         last = PGROUNDDOWN (u32 (va + sz + 4294967295))
     in mappages_from pgdir (u32 (last + 4294967296 - a) div PGSIZE) a pa perm)"

section \<open>The kernel part\<close>

text \<open>The rows of \<open>kmap\<close>: virtual address, physical start and end, permissions.\<close>

definition kmap :: "nat \<Rightarrow> (nat \<times> nat \<times> nat \<times> nat) list" where
  "kmap data =
    [(KERNBASE, 0, EXTMEM, PTE_W),
     (KERNLINK, v2p KERNLINK, v2p data, 0),
     (data, v2p data, PHYSTOP, PTE_W),
     (DEVSPACE, DEVSPACE, 0, PTE_W)]"

fun setupkvm_from :: "nat \<Rightarrow> (nat \<times> nat \<times> nat \<times> nat) list \<Rightarrow> ('z mem_st_scheme, nat) kern" where
  "setupkvm_from pgdir [] = kret pgdir"
| "setupkvm_from pgdir ((virt, phys_start, phys_end, perm) # ks) =
    kbind (mappages pgdir virt (u32 (phys_end + 4294967296 - phys_start)) phys_start perm) (\<lambda>r.
    if r < 0 then kret 0 else setupkvm_from pgdir ks)"

definition setupkvm :: "('z mem_st_scheme, nat) kern" where
  "setupkvm =
    kbind kalloc (\<lambda>pgdir.
    if pgdir = 0 then kret 0
    else
      kthen (kmemset pgdir 0 PGSIZE) (
      if p2v PHYSTOP > DEVSPACE then kpanic ''PHYSTOP too high''
      else kbind (kget kdata) (\<lambda>data. setupkvm_from pgdir (kmap data))))"

definition switchkvm :: "('z mem_st_scheme, unit) kern" where
  "switchkvm = kmod (\<lambda>s. s\<lparr>cr3 := v2p (kpgdir s)\<rparr>)"

definition kvmalloc :: "('z mem_st_scheme, unit) kern" where
  "kvmalloc =
    kbind setupkvm (\<lambda>d.
    kthen (kmod (\<lambda>s. s\<lparr>kpgdir := d\<rparr>)) (
    switchkvm))"

text \<open>The task state segment is its field \<open>esp0\<close>.\<close>

definition switchuvm :: "nat \<Rightarrow> ('z mem_st_scheme, unit) kern" where
  "switchuvm p =
    kbind (kget curproc) (\<lambda>cp.
    case cp of None \<Rightarrow> kpanic ''trap''
    | Some c \<Rightarrow>
      kthen (kmod (\<lambda>s. s\<lparr>ts_esp0 := u32 (p_kstack (ptable s c) + KSTACKSIZE)\<rparr>)) (
      kbind (kget (\<lambda>s. p_pgdir (ptable s p))) (\<lambda>d.
      if d = 0 then kpanic ''switchuvm: no pgdir''
      else kmod (\<lambda>s. s\<lparr>cr3 := v2p d\<rparr>))))"

section \<open>User memory\<close>

definition inituvm :: "nat \<Rightarrow> byte list \<Rightarrow> ('z mem_st_scheme, unit) kern" where
  "inituvm pgdir init =
    (if length init \<ge> PGSIZE then kpanic ''inituvm: more than a page''
     else
       kbind kalloc (\<lambda>mem.
       kthen (kmemset mem 0 PGSIZE) (
       kbind (mappages pgdir 0 PGSIZE (v2p mem) (PTE_W OR PTE_U)) (\<lambda>_.
       kstore mem init))))"

function loaduvm_from :: "('z mem_st_ext) devsw \<Rightarrow> nat \<Rightarrow> nat \<Rightarrow> nat \<Rightarrow> nat \<Rightarrow> nat \<Rightarrow> nat \<Rightarrow> ('z mem_st_scheme, int) kern" where
  "loaduvm_from dv pgdir addr ip offset sz i =
    (if i < sz then
       kbind (walkpgdir pgdir (u32 (addr + i)) False) (\<lambda>r.
       case r of None \<Rightarrow> kpanic ''loaduvm: address should exist''
       | Some pte \<Rightarrow>
         kbind (load32 pte) (\<lambda>e.
         kbind (readi dv ip (u32 (offset + i)) (if sz - i < PGSIZE then sz - i else PGSIZE)) (\<lambda>(n, bs).
         kthen (kstore (p2v (PTE_ADDR e)) bs) (
         if n \<noteq> int (if sz - i < PGSIZE then sz - i else PGSIZE) then kret (-1)
         else loaduvm_from dv pgdir addr ip offset sz (i + PGSIZE)))))
     else kret 0)"
  by pat_completeness auto

termination
  by (relation "measure (\<lambda>(dv, pgdir, addr, ip, offset, sz, i). sz - i)") (auto simp: PGSIZE_def)

declare loaduvm_from.simps [simp del]

definition loaduvm :: "('z mem_st_ext) devsw \<Rightarrow> nat \<Rightarrow> nat \<Rightarrow> nat \<Rightarrow> nat \<Rightarrow> nat \<Rightarrow> ('z mem_st_scheme, int) kern" where
  "loaduvm dv pgdir addr ip offset sz =
    (if addr mod PGSIZE \<noteq> 0 then kpanic ''loaduvm: addr must be page aligned''
     else loaduvm_from dv pgdir addr ip offset sz 0)"

function deallocuvm_from :: "nat \<Rightarrow> nat \<Rightarrow> nat \<Rightarrow> ('z mem_st_scheme, unit) kern" where
  "deallocuvm_from pgdir oldsz a =
    (if a < oldsz then
       kbind (walkpgdir pgdir a False) (\<lambda>r.
       case r of None \<Rightarrow> deallocuvm_from pgdir oldsz (a + (NPTENTRIES - 1) * PGSIZE + PGSIZE)
       | Some pte \<Rightarrow>
         kbind (load32 pte) (\<lambda>e.
         kthen (
           if e AND PTE_P \<noteq> 0 then
             if PTE_ADDR e = 0 then kpanic ''kfree''
             else kthen (kfree (p2v (PTE_ADDR e))) (store32 pte 0)
           else kret ()) (
         deallocuvm_from pgdir oldsz (a + PGSIZE))))
     else kret ())"
  by pat_completeness auto

termination
  by (relation "measure (\<lambda>(pgdir, oldsz, a). oldsz - a)") (auto simp: PGSIZE_def)

declare deallocuvm_from.simps [simp del]

definition deallocuvm :: "nat \<Rightarrow> nat \<Rightarrow> nat \<Rightarrow> ('z mem_st_scheme, nat) kern" where
  "deallocuvm pgdir oldsz newsz =
    (if newsz \<ge> oldsz then kret oldsz
     else kthen (deallocuvm_from pgdir oldsz (PGROUNDUP newsz)) (kret newsz))"

function allocuvm_from :: "nat \<Rightarrow> nat \<Rightarrow> nat \<Rightarrow> nat \<Rightarrow> ('z mem_st_scheme, nat) kern" where
  "allocuvm_from pgdir oldsz newsz a =
    (if a < newsz then
       kbind kalloc (\<lambda>mem.
       if mem = 0 then kbind (deallocuvm pgdir newsz oldsz) (\<lambda>_. kret 0)
       else
         kthen (kmemset mem 0 PGSIZE) (
         kbind (mappages pgdir a PGSIZE (v2p mem) (PTE_W OR PTE_U)) (\<lambda>_.
         allocuvm_from pgdir oldsz newsz (a + PGSIZE))))
     else kret newsz)"
  by pat_completeness auto

termination
  by (relation "measure (\<lambda>(pgdir, oldsz, newsz, a). newsz - a)") (auto simp: PGSIZE_def)

declare allocuvm_from.simps [simp del]

definition allocuvm :: "nat \<Rightarrow> nat \<Rightarrow> nat \<Rightarrow> ('z mem_st_scheme, nat) kern" where
  "allocuvm pgdir oldsz newsz =
    (if newsz \<ge> KERNBASE then kret 0
     else if newsz < oldsz then kret oldsz
     else allocuvm_from pgdir oldsz newsz (PGROUNDUP oldsz))"

fun freevm_from :: "nat \<Rightarrow> nat list \<Rightarrow> ('z mem_st_scheme, unit) kern" where
  "freevm_from pgdir [] = kret ()"
| "freevm_from pgdir (i # l) =
    kbind (load32 (pgdir + 4 * i)) (\<lambda>e.
    kthen (kwhen (e AND PTE_P \<noteq> 0) (kfree (p2v (PTE_ADDR e)))) (
    freevm_from pgdir l))"

definition freevm :: "nat \<Rightarrow> ('z mem_st_scheme, unit) kern" where
  "freevm pgdir =
    (if pgdir = 0 then kpanic ''freevm: no pgdir''
     else
       kbind (deallocuvm pgdir KERNBASE 0) (\<lambda>_.
       kthen (freevm_from pgdir [0..<NPDENTRIES]) (
       kfree pgdir)))"

definition clearpteu :: "nat \<Rightarrow> nat \<Rightarrow> ('z mem_st_scheme, unit) kern" where
  "clearpteu pgdir uva =
    kbind (walkpgdir pgdir uva False) (\<lambda>r.
    case r of None \<Rightarrow> kpanic ''clearpteu''
    | Some pte \<Rightarrow>
      kbind (load32 pte) (\<lambda>e.
      store32 pte (e - (e AND PTE_U))))"

text \<open>The loop of \<open>copyuvm\<close>; the result tells whether the code jumps to \<open>bad\<close>.\<close>

function copyuvm_from :: "nat \<Rightarrow> nat \<Rightarrow> nat \<Rightarrow> nat \<Rightarrow> ('z mem_st_scheme, bool) kern" where
  "copyuvm_from pgdir d sz i =
    (if i < sz then
       kbind (walkpgdir pgdir i False) (\<lambda>r.
       case r of None \<Rightarrow> kpanic ''copyuvm: pte should exist''
       | Some pte \<Rightarrow>
         kbind (load32 pte) (\<lambda>e.
         if e AND PTE_P = 0 then kpanic ''copyuvm: page not present''
         else
           kbind kalloc (\<lambda>mem.
           if mem = 0 then kret True
           else
             kthen (kmod (\<lambda>s. s\<lparr>phys := put_list (phys s) (v2p mem)
               (map (phys s) [v2p (p2v (PTE_ADDR e))..<v2p (p2v (PTE_ADDR e)) + PGSIZE])\<rparr>)) (
             kbind (mappages d i PGSIZE (v2p mem) (PTE_FLAGS e)) (\<lambda>r.
             if r < 0 then kret True
             else copyuvm_from pgdir d sz (i + PGSIZE))))))
     else kret False)"
  by pat_completeness auto

termination
  by (relation "measure (\<lambda>(pgdir, d, sz, i). sz - i)") (auto simp: PGSIZE_def)

declare copyuvm_from.simps [simp del]

definition copyuvm :: "nat \<Rightarrow> nat \<Rightarrow> ('z mem_st_scheme, nat) kern" where
  "copyuvm pgdir sz =
    kbind setupkvm (\<lambda>d.
    if d = 0 then kret 0
    else
      kbind (copyuvm_from pgdir d sz 0) (\<lambda>bad.
      if bad then kthen (freevm d) (kret 0) else kret d))"

text \<open>The code reads \<open>*pte\<close> without a test for null; the model stops there.\<close>

definition uva2ka :: "nat \<Rightarrow> nat \<Rightarrow> ('z mem_st_scheme, nat) kern" where
  "uva2ka pgdir uva =
    kbind (walkpgdir pgdir uva False) (\<lambda>r.
    case r of None \<Rightarrow> kpanic ''null pte''
    | Some pte \<Rightarrow>
      kbind (load32 pte) (\<lambda>e.
      if e AND PTE_P = 0 then kret 0
      else if e AND PTE_U = 0 then kret 0
      else kret (p2v (PTE_ADDR e))))"

lemma PGROUNDDOWN_less: "va - PGROUNDDOWN va < PGSIZE"
proof -
  have "va - va div PGSIZE * PGSIZE = va mod PGSIZE" by (rule minus_div_mult_eq_mod)
  then show ?thesis by (simp add: PGROUNDDOWN_def PGSIZE_def)
qed

function copyout :: "nat \<Rightarrow> nat \<Rightarrow> byte list \<Rightarrow> ('z mem_st_scheme, int) kern" where
  "copyout pgdir va buf =
    (if buf = [] then kret 0
     else
       kbind (uva2ka pgdir (PGROUNDDOWN va)) (\<lambda>pa0.
       if pa0 = 0 then kret (-1)
       else
         kthen (kstore (pa0 + (va - PGROUNDDOWN va)) (take (PGSIZE - (va - PGROUNDDOWN va)) buf)) (
         copyout pgdir (u32 (PGROUNDDOWN va + PGSIZE)) (drop (PGSIZE - (va - PGROUNDDOWN va)) buf))))"
  by pat_completeness auto

termination
  using PGROUNDDOWN_less by (relation "measure (\<lambda>(pgdir, va, buf). length buf)") auto

declare copyout.simps [simp del]

section \<open>What a page table maps\<close>

lemma or_page:
  assumes "x mod 4096 = 0" "y < 4096" shows "(x :: nat) OR y = x + y"
proof -
  have "\<not> bit x n \<or> \<not> bit y n" for n
  proof (cases "n < 12")
    case True
    have "x = x div 4096 * 4096" using assms(1) by (simp add: mod_eq_0_iff_dvd)
    then have "x = push_bit 12 (x div 4096)" by (simp add: push_bit_eq_mult)
    then show ?thesis using True by (metis bit_push_bit_iff_nat not_le)
  next
    case False
    have "y < 2 ^ n" using assms(2) power_increasing [of 12 n "2::nat"] False by simp
    then show ?thesis by (simp add: bit_iff_odd)
  qed
  then show ?thesis by (simp add: disjunctive_add [symmetric])
qed

lemma and_PTE_P: "e AND PTE_P = 0 \<longleftrightarrow> even e" "0 < e AND PTE_P \<longleftrightarrow> odd e"
  by (auto simp: PTE_P_def and_one_eq odd_iff_mod_2_eq_one even_iff_mod_2_eq_zero)

text \<open>Entry \<open>i\<close> of the page \<open>v\<close>, and the page table it points to.\<close>

definition ent :: "bytes \<Rightarrow> nat \<Rightarrow> nat \<Rightarrow> nat" where
  "ent m v i = get32 m (v2p v + 4 * i)"

definition pgtab :: "bytes \<Rightarrow> nat \<Rightarrow> nat \<Rightarrow> nat" where
  "pgtab m d i = p2v (PTE_ADDR (ent m d i))"

text \<open>The page table entry of \<open>va\<close> when it is present.\<close>

definition pte_val :: "bytes \<Rightarrow> nat \<Rightarrow> nat \<Rightarrow> nat option" where
  "pte_val m d va = (if odd (ent m d (PDX va)) \<and> odd (ent m (pgtab m d (PDX va)) (PTX va))
     then Some (ent m (pgtab m d (PDX va)) (PTX va)) else None)"

text \<open>A page directory \<open>d\<close> whose page tables are distinct pages outside the free list.\<close>

definition pt_inv :: "'z mem_st_scheme \<Rightarrow> nat \<Rightarrow> nat list \<Rightarrow> bool" where
  "pt_inv s d vs \<longleftrightarrow> free_pages s vs \<and> page_ok (kend s) d \<and> d \<notin> set vs \<and>
     (\<forall>i<1024. odd (ent (phys s) d i) \<longrightarrow> page_ok (kend s) (pgtab (phys s) d i) \<and> pgtab (phys s) d i \<notin> set vs \<and>
        pgtab (phys s) d i \<noteq> d) \<and>
     (\<forall>i<1024. \<forall>j<1024. odd (ent (phys s) d i) \<and> odd (ent (phys s) d j) \<and> pgtab (phys s) d i = pgtab (phys s) d j \<longrightarrow> i = j)"

lemma pt_invD:
  assumes "pt_inv s d vs"
  shows "free_pages s vs" "page_ok (kend s) d" "d \<notin> set vs"
    "i < 1024 \<Longrightarrow> odd (ent (phys s) d i) \<Longrightarrow> page_ok (kend s) (pgtab (phys s) d i)"
    "i < 1024 \<Longrightarrow> odd (ent (phys s) d i) \<Longrightarrow> pgtab (phys s) d i \<notin> set vs"
    "i < 1024 \<Longrightarrow> odd (ent (phys s) d i) \<Longrightarrow> pgtab (phys s) d i \<noteq> d"
    "i < 1024 \<Longrightarrow> j < 1024 \<Longrightarrow> odd (ent (phys s) d i) \<Longrightarrow> odd (ent (phys s) d j) \<Longrightarrow>
       pgtab (phys s) d i = pgtab (phys s) d j \<Longrightarrow> i = j"
  using assms unfolding pt_inv_def by blast+

lemma PDX_less [simp]: "PDX va < 1024" and PTX_less [simp]: "PTX va < 1024"
  by (simp_all add: PDX_def PTX_def)

lemma v2p_entry: "page_ok e v \<Longrightarrow> i < 1024 \<Longrightarrow> v2p (v + 4 * i) = v2p v + 4 * i"
  using v2p_kern [of "v + 4 * i"] by (auto simp: v2p_page page_ok_def KERNBASE_def PHYSTOP_def)

lemma ent_put32_same: "v < 4294967296 \<Longrightarrow> ent (put32 m (v2p p + 4 * i) v) p i = v"
  by (simp add: ent_def)

lemma ent_put32_other:
  assumes "page_ok e p" "page_ok e q" "i < 1024" "j < 1024" "p \<noteq> q \<or> i \<noteq> j"
  shows "ent (put32 m (v2p p + 4 * i) v) q j = ent m q j"
proof (cases "p = q")
  case True
  then have "i < j \<or> j < i" using assms(5) by auto
  then show ?thesis unfolding ent_def True by (intro get32_put32_other) auto
next
  case False
  have "v2p q + 4 * j + 3 < v2p p + 4 * i \<or> v2p p + 4 * i + 3 < v2p q + 4 * j"
    using page_apart [OF assms(1,2) False, of "4 * j + 3"] page_apart [OF assms(1,2) False, of "4 * j"] assms(3,4)
    by (auto simp: PGSIZE_def)
  then show ?thesis by (simp add: ent_def)
qed

lemma ent_cong:
  assumes "\<And>k. k < 4096 \<Longrightarrow> m (v2p v + k) = m' (v2p v + k)" "i < 1024" shows "ent m v i = ent m' v i"
  unfolding ent_def
proof (rule get32_cong)
  fix x assume "v2p v + 4 * i \<le> x" "x < v2p v + 4 * i + 4"
  then show "m x = m' x" using assms(1) [of "x - v2p v"] assms(2) by simp
qed

lemma ent_memset_other:
  assumes "page_ok e p" "page_ok e q" "p \<noteq> q" "j < 1024" shows "ent (memset m (v2p p) c PGSIZE) q j = ent m q j"
proof (rule ent_cong)
  fix k :: nat assume "k < 4096"
  then show "memset m (v2p p) c PGSIZE (v2p q + k) = m (v2p q + k)"
    using page_apart [OF assms(1-3), of k] by (auto simp: memset_apply PGSIZE_def)
qed (rule assms(4))

lemma ent_memset_zero: "j < 1024 \<Longrightarrow> ent (memset m (v2p p) 0 PGSIZE) p j = 0"
  by (simp add: ent_def get32_def memset_apply PGSIZE_def)

lemma free_pages_mem:
  assumes "free_pages s vs" "page_ok (kend s) p" "p \<notin> set vs" "\<And>a. a < v2p p \<or> v2p p + PGSIZE \<le> a \<Longrightarrow> m a = phys s a"
  shows "free_pages (s\<lparr>phys := m\<rparr>) vs"
proof -
  note F = assms(1) [unfolded free_pages_def]
  have "m (v2p w + i) = phys s (v2p w + i)" if "w \<in> set vs" "i < 4" for w i
    using that F assms(3) page_apart [OF assms(2), of w i] by (intro assms(4)) (auto simp: PGSIZE_def)
  then show ?thesis using F linked_cong [of vs m "phys s"] by (simp add: free_pages_def)
qed

text \<open>Writing an entry of the page directory or of one of its page tables.\<close>

lemma put32_page_other:
  "i < 1024 \<Longrightarrow> a < v2p p \<or> v2p p + PGSIZE \<le> a \<Longrightarrow> put32 m (v2p p + 4 * i) v a = m a"
  by (auto simp: PGSIZE_def intro!: put32_apply_other)

lemma pt_inv_store:
  assumes inv: "pt_inv s d vs" and pd: "odd (ent (phys s) d (PDX va))" and v: "v < 4294967296"
  defines "m \<equiv> put32 (phys s) (v2p (pgtab (phys s) d (PDX va)) + 4 * PTX va) v"
  shows "pt_inv (s\<lparr>phys := m\<rparr>) d vs"
    and "pte_val m d va' = (if PDX va' = PDX va \<and> PTX va' = PTX va then if odd v then Some v else None
      else pte_val (phys s) d va')"
proof -
  let ?p = "pgtab (phys s) d (PDX va)"
  note I = pt_invD [OF inv]
  have p: "page_ok (kend s) ?p" "?p \<notin> set vs" "?p \<noteq> d" using I(4-6) [OF PDX_less pd] by auto
  have e: "ent m d i = ent (phys s) d i" if "i < 1024" for i
    unfolding m_def using that p I(2) by (intro ent_put32_other [where e = "kend s"]) auto
  then have t: "pgtab m d i = pgtab (phys s) d i" if "i < 1024" for i using that by (simp add: pgtab_def)
  have "free_pages (s\<lparr>phys := m\<rparr>) vs"
    unfolding m_def by (rule free_pages_mem [OF I(1) p(1,2)]) (simp add: put32_page_other)
  then show "pt_inv (s\<lparr>phys := m\<rparr>) d vs"
    using inv e t unfolding pt_inv_def by simp
  have o: "ent m (pgtab (phys s) d (PDX va')) (PTX va') = (if PDX va' = PDX va \<and> PTX va' = PTX va then v
      else ent (phys s) (pgtab (phys s) d (PDX va')) (PTX va'))" if "odd (ent (phys s) d (PDX va'))"
  proof (cases "PDX va' = PDX va \<and> PTX va' = PTX va")
    case True
    then show ?thesis using v by (simp add: m_def ent_put32_same)
  next
    case False
    then have "?p \<noteq> pgtab (phys s) d (PDX va') \<or> PTX va \<noteq> PTX va'"
      using I(7) [OF PDX_less PDX_less pd that] by auto
    then show ?thesis
      unfolding m_def using False p(1) I(4) [OF PDX_less that] by (subst ent_put32_other [where e = "kend s"]) auto
  qed
  show "pte_val m d va' = (if PDX va' = PDX va \<and> PTX va' = PTX va then if odd v then Some v else None
      else pte_val (phys s) d va')"
    using pd o by (auto simp: pte_val_def e t)
qed

lemma page_aligned: "page_ok e v \<Longrightarrow> v2p v mod 4096 = 0 \<and> v2p v + KERNBASE = v \<and> v2p v < KERNBASE"
proof -
  assume v: "page_ok e v"
  have "v mod 4096 = 0" using v by (simp add: page_ok_def PGSIZE_def)
  moreover have k: "v2p v + KERNBASE = v" using v by (simp add: v2p_page) (simp add: page_ok_def)
  moreover have "KERNBASE mod 4096 = 0" by (simp add: KERNBASE_def)
  ultimately have "v2p v mod 4096 = 0" by (metis add_cancel_right_right mod_add_eq mod_mod_trivial add_0_right)
  then show ?thesis using v k by (auto simp: page_ok_def KERNBASE_def PHYSTOP_def)
qed

lemma page_even: "(x :: nat) mod 4096 = 0 \<Longrightarrow> even x"
  using mod_mod_cancel [of 2 4096 x] by (simp add: even_iff_mod_2_eq_zero)

lemma pde_new: "page_ok e v \<Longrightarrow> v2p v OR PTE_P OR PTE_W OR PTE_U = v2p v + 7"
  by (simp add: PTE_P_def PTE_W_def PTE_U_def or.assoc or_page page_aligned)

lemma PTE_ADDR_add: "x mod 4096 = 0 \<Longrightarrow> y < 4096 \<Longrightarrow> PTE_ADDR (x + y) = x \<and> PTE_FLAGS (x + y) = y"
  unfolding PTE_ADDR_def PTE_FLAGS_def using div_mod_add [of x 4096 y] by auto

lemma p2v_v2p: "page_ok e v \<Longrightarrow> p2v (v2p v) = v"
  using page_aligned [of e v] by (simp add: p2v_phys)

text \<open>A new page table: nothing is mapped or unmapped.\<close>

lemma pt_inv_new:
  assumes inv: "pt_inv s d (v # vs)" and pd: "even (ent (phys s) d (PDX va))"
  defines "m \<equiv> put32 (memset (phys s) (v2p v) 0 PGSIZE) (v2p d + 4 * PDX va) (v2p v + 7)"
  shows "pt_inv (s\<lparr>freelist := get32 (phys s) (v2p v), phys := m\<rparr>) d vs"
    and "pte_val m d va' = pte_val (phys s) d va'"
    and "pgtab m d (PDX va) = v" "odd (ent m d (PDX va))"
proof -
  note I = pt_invD [OF inv]
  note F = free_pages_kalloc [OF I(1)]
  have v: "page_ok (kend s) v" "v \<noteq> d" "v \<notin> set vs" "d \<notin> set vs" using F I(3) by auto
  let ?m1 = "memset (phys s) (v2p v) 0 PGSIZE"
  have V: "v2p v mod 4096 = 0" "v2p v + 7 < 4294967296" using page_aligned [OF v(1)] by (auto simp: KERNBASE_def)
  have e: "ent m d i = (if i = PDX va then v2p v + 7 else ent (phys s) d i)" if "i < 1024" for i
  proof (cases "i = PDX va")
    case True
    then show ?thesis using V by (simp add: m_def ent_put32_same)
  next
    case False
    then have "ent m d i = ent ?m1 d i"
      unfolding m_def using that I(2) by (intro ent_put32_other [where e = "kend s"]) auto
    then show ?thesis using False that v I(2) ent_memset_other [of "kend s" v d i] by simp
  qed
  have t: "pgtab m d i = (if i = PDX va then v else pgtab (phys s) d i)" if "i < 1024" for i
    using that e V PTE_ADDR_add [of "v2p v" 7] p2v_v2p [OF v(1)] by (simp add: pgtab_def)
  show "pgtab m d (PDX va) = v" "odd (ent m d (PDX va))" using e t page_even [OF V(1)] by simp_all
  have o: "ent m w j = (if w = v then 0 else ent (phys s) w j)" if "page_ok (kend s) w" "w \<noteq> d" "j < 1024" for w j
  proof -
    have "ent m w j = ent ?m1 w j" unfolding m_def using that I(2) by (intro ent_put32_other [where e = "kend s"]) auto
    then show ?thesis using that v(1) ent_memset_other [of "kend s" v w j] by (auto simp: ent_memset_zero)
  qed
  let ?s = "s\<lparr>freelist := get32 (phys s) (v2p v)\<rparr>"
  have f1: "free_pages (?s\<lparr>phys := ?m1\<rparr>) vs"
    using F v by (intro free_pages_mem [where p = v]) (auto simp: memset_apply)
  have "free_pages (?s\<lparr>phys := ?m1\<rparr>\<lparr>phys := m\<rparr>) vs"
    unfolding m_def using I(2) v(4) by (intro free_pages_mem [OF f1, where p = d]) (auto simp: put32_page_other)
  then have f: "free_pages (s\<lparr>freelist := get32 (phys s) (v2p v), phys := m\<rparr>) vs" by simp
  have old: "pgtab (phys s) d i \<noteq> v" if "i < 1024" "odd (ent (phys s) d i)" for i
    using I(5) [OF that] by auto
  have "i = j" if "i < 1024" "j < 1024" "odd (ent m d i)" "odd (ent m d j)" "pgtab m d i = pgtab m d j" for i j
    using that old I(7) [of i j] by (auto simp: e t split: if_splits)
  moreover have "page_ok (kend s) (pgtab m d i) \<and> pgtab m d i \<notin> set vs \<and> pgtab m d i \<noteq> d"
    if "i < 1024" "odd (ent m d i)" for i
    using that I(4-6) [of i] v by (auto simp: e t split: if_splits)
  ultimately show "pt_inv (s\<lparr>freelist := get32 (phys s) (v2p v), phys := m\<rparr>) d vs"
    using f I(2) v(4) unfolding pt_inv_def by simp
  show "pte_val m d va' = pte_val (phys s) d va'"
  proof (cases "PDX va' = PDX va")
    case True
    then show ?thesis using pd o [OF v(1,2)] by (simp add: pte_val_def t)
  next
    case False
    then show ?thesis using old o I(4,6) by (auto simp: pte_val_def e t)
  qed
qed

text \<open>Only memory and the free list change.\<close>

definition mem_frame :: "'z mem_st_scheme \<Rightarrow> 'z mem_st_scheme \<Rightarrow> bool" where
  "mem_frame s t \<longleftrightarrow> t\<lparr>freelist := 0, phys := zero_bytes\<rparr> = s\<lparr>freelist := 0, phys := zero_bytes\<rparr>"

lemma mem_frame_refl [simp]: "mem_frame s s"
  by (simp add: mem_frame_def)

lemma mem_frame_update [simp]: "mem_frame s (t\<lparr>phys := m\<rparr>) = mem_frame s t" "mem_frame s (t\<lparr>freelist := f\<rparr>) = mem_frame s t"
  by (simp_all add: mem_frame_def)

lemma mem_frame_trans: "mem_frame s t \<Longrightarrow> mem_frame t u \<Longrightarrow> mem_frame s u"
  by (simp add: mem_frame_def)

lemma mem_frame_fields:
  assumes "mem_frame s t" shows "kend t = kend s" "use_lock t = use_lock s" "held t = held s" "kdata t = kdata s" "ptable t = ptable s"
    "curproc t = curproc s" "inodes t = inodes s"
  using assms [unfolded mem_frame_def, THEN arg_cong, of kend] assms [unfolded mem_frame_def, THEN arg_cong, of use_lock]
    assms [unfolded mem_frame_def, THEN arg_cong, of held] assms [unfolded mem_frame_def, THEN arg_cong, of kdata]
    assms [unfolded mem_frame_def, THEN arg_cong, of ptable] assms [unfolded mem_frame_def, THEN arg_cong, of curproc]
    assms [unfolded mem_frame_def, THEN arg_cong, of inodes] by simp_all

text \<open>\<open>walkpgdir\<close> with \<open>alloc\<close>: the entry's page table exists afterwards and nothing else changes.\<close>

definition walk_post :: "'z mem_st_scheme \<Rightarrow> nat \<Rightarrow> nat \<Rightarrow> nat list \<Rightarrow> 'z mem_st_scheme \<Rightarrow> nat list \<Rightarrow> bool" where
  "walk_post s d va vs t ws \<longleftrightarrow> pt_inv t d ws \<and> (\<forall>va'. pte_val (phys t) d va' = pte_val (phys s) d va') \<and>
     odd (ent (phys t) d (PDX va)) \<and> mem_frame s t \<and> set ws \<subseteq> set vs \<and> length vs \<le> Suc (length ws)"

lemma wp_walk_alloc:
  assumes inv: "pt_inv s d vs" and lk: "use_lock s \<longrightarrow> LK_kmem \<notin> held s"
    and none: "vs = [] \<Longrightarrow> Q None s"
    and some: "\<And>t ws. walk_post s d va vs t ws \<Longrightarrow> Q (Some (pgtab (phys t) d (PDX va) + 4 * PTX va)) t"
  shows "wp (walkpgdir d va True) Q s"
proof -
  note I = pt_invD [OF inv]
  have l: "get32 (phys s) (v2p (d + 4 * PDX va)) = ent (phys s) d (PDX va)"
    using v2p_entry [OF I(2) PDX_less] by (simp add: ent_def)
  show ?thesis
  proof (cases "odd (ent (phys s) d (PDX va))")
    case True
    then have "walk_post s d va vs s vs" using inv by (simp add: walk_post_def)
    from some [OF this] True show ?thesis
      by (simp add: walkpgdir_def load32_def l and_PTE_P pgtab_def)
  next
    case False
    then have ev: "even (ent (phys s) d (PDX va))" by simp
    have "wp kalloc (\<lambda>pgtab. wp (if pgtab = 0 then kret None else kthen (kmemset pgtab 0 PGSIZE) (
        kthen (store32 (d + 4 * PDX va) (v2p pgtab OR PTE_P OR PTE_W OR PTE_U)) (
        kret (Some (pgtab + 4 * PTX va))))) Q) s"
    proof (rule wp_kalloc [OF lk])
      assume "freelist s = 0"
      then show "wp (if 0 = (0 :: nat) then kret None else kthen (kmemset 0 0 PGSIZE) (
        kthen (store32 (d + 4 * PDX va) (v2p 0 OR PTE_P OR PTE_W OR PTE_U)) (
        kret (Some (0 + 4 * PTX va))))) Q s" using none free_pages_head [OF I(1)] by simp
    next
      assume f: "freelist s \<noteq> 0"
      then obtain v ws where vs: "vs = v # ws" using free_pages_head [OF I(1)] by (cases vs) auto
      then have v: "freelist s = v" "page_ok (kend s) v" using free_pages_kalloc [of s v ws] I(1) by auto
      let ?m = "put32 (memset (phys s) (v2p v) 0 PGSIZE) (v2p d + 4 * PDX va) (v2p v + 7)"
      let ?t = "s\<lparr>freelist := get32 (phys s) (v2p v), phys := ?m\<rparr>"
      note N = pt_inv_new [OF inv [unfolded vs] ev]
      have "walk_post s d va vs ?t ws" using N vs by (auto simp: walk_post_def)
      from some [OF this] N(3)
      show "wp (if freelist s = 0 then kret None else kthen (kmemset (freelist s) 0 PGSIZE) (
        kthen (store32 (d + 4 * PDX va) (v2p (freelist s) OR PTE_P OR PTE_W OR PTE_U)) (
        kret (Some (freelist s + 4 * PTX va))))) Q (s\<lparr>freelist := get32 (phys s) (v2p (freelist s))\<rparr>)"
        using f v by (simp add: kmemset_def store32_def v2p_entry [OF I(2)] pde_new)
    qed
    then show ?thesis using False by (simp add: walkpgdir_def load32_def l and_PTE_P)
  qed
qed


lemma same_page: "va < 4294967296 \<Longrightarrow> va' < 4294967296 \<Longrightarrow> PDX va = PDX va' \<and> PTX va = PTX va' \<longleftrightarrow> va div 4096 = va' div 4096"
proof -
  assume "va < 4294967296" "va' < 4294967296"
  then have "PDX va = va div 4096 div 1024" "PDX va' = va' div 4096 div 1024"
    by (simp_all add: PDX_def div_mult2_eq [symmetric])
  then show ?thesis unfolding PTX_def by (metis div_mod_decomp)
qed

text \<open>The entry \<open>mappages\<close> writes for a page.\<close>

definition new_pte :: "nat \<Rightarrow> nat \<Rightarrow> nat" where
  "new_pte pa perm = (pa OR perm OR PTE_P)"

lemma new_pte:
  assumes "pa mod 4096 = 0" "perm < 4096" "pa < 4294967296"
  shows "odd (new_pte pa perm)" "new_pte pa perm < 4294967296" "PTE_ADDR (new_pte pa perm) = pa"
    "PTE_FLAGS (new_pte pa perm) = perm OR PTE_P"
proof -
  let ?f = "perm + of_bool (even perm)"
  have f: "perm OR PTE_P = ?f" by (simp only: PTE_P_def or_one_eq)
  have l: "?f < 4096" 
  proof (cases "even perm")
    case True
    then have "perm \<noteq> 4095" by auto
    then show ?thesis using True assms(2) by simp
  qed (use assms(2) in simp)
  have e: "new_pte pa perm = pa + ?f" using assms(1) l by (simp add: new_pte_def or.assoc f or_page)
  show "PTE_ADDR (new_pte pa perm) = pa" "PTE_FLAGS (new_pte pa perm) = perm OR PTE_P"
    using PTE_ADDR_add [OF assms(1) l] by (simp_all add: e f)
  have "even pa" using assms(1) by (rule page_even)
  then show "odd (new_pte pa perm)" by (simp add: e)
  obtain q where "pa = 4096 * q" using assms(1) by (auto simp: mod_eq_0_iff_dvd)
  then have "pa \<le> 4294967296 - 4096" using assms(3) by simp
  then show "new_pte pa perm < 4294967296" using l by (simp add: e)
qed

text \<open>The page table after mapping \<open>n\<close> pages from \<open>a\<close> to the physical pages from \<open>pa\<close>.\<close>

definition mapped_to :: "bytes \<Rightarrow> bytes \<Rightarrow> nat \<Rightarrow> nat \<Rightarrow> nat \<Rightarrow> nat \<Rightarrow> nat \<Rightarrow> bool" where
  "mapped_to m m' d a n pa perm \<longleftrightarrow> (\<forall>va < 4294967296. pte_val m' d va =
     (if a \<le> va \<and> va < a + n * 4096 then Some (new_pte (pa + (va div 4096 * 4096 - a)) perm) else pte_val m d va))"

definition map_post :: "'z mem_st_scheme \<Rightarrow> nat \<Rightarrow> nat list \<Rightarrow> nat \<Rightarrow> nat \<Rightarrow> nat \<Rightarrow> nat \<Rightarrow> int \<Rightarrow> 'z mem_st_scheme \<Rightarrow> nat list \<Rightarrow> bool" where
  "map_post s d vs a n pa perm r t ws \<longleftrightarrow> pt_inv t d ws \<and> set ws \<subseteq> set vs \<and> mem_frame s t \<and>
     (r = 0 \<and> mapped_to (phys s) (phys t) d a n pa perm \<or>
      r = -1 \<and> ws = [] \<and> (\<exists>k<n. length vs \<le> k \<and> mapped_to (phys s) (phys t) d a k pa perm))"

lemma mapped_to_step:
  assumes m: "\<forall>va. pte_val m1 d va = pte_val m d va"
    and st: "\<And>va. pte_val m2 d va = (if PDX va = PDX a \<and> PTX va = PTX a then Some (new_pte pa perm) else pte_val m1 d va)"
    and a: "a mod 4096 = 0" "a < 4294967296" and r: "mapped_to m2 m3 d (a + 4096) n (pa + 4096) perm"
  shows "mapped_to m m3 d a (Suc n) pa perm"
  unfolding mapped_to_def
proof (intro allI impI)
  fix va :: nat assume va: "va < 4294967296"
  obtain q where q: "a = q * 4096" using a(1) by (metis mod_eq_0_iff_dvd dvd_def mult.commute)
  have w: "va div 4096 * 4096 \<le> va" "va < va div 4096 * 4096 + 4096" using dividend_less_div_times [of 4096 va] by simp_all
  have le: "n * 4096 \<le> va \<longleftrightarrow> n \<le> va div 4096" for n by (simp add: less_eq_div_iff_mult_less_eq)
  have p: "PDX va = PDX a \<and> PTX va = PTX a \<longleftrightarrow> a \<le> va \<and> va < a + 4096"
    using le [of q] le [of "q + 1"] unfolding same_page [OF va a(2)] by (auto simp: q)
  have d: "a + 4096 \<le> va \<Longrightarrow> pa + 4096 + (va div 4096 * 4096 - (a + 4096)) = pa + (va div 4096 * 4096 - a)"
    using le [of "q + 1"] by (simp add: q)
  have z: "a \<le> va \<Longrightarrow> va < a + 4096 \<Longrightarrow> va div 4096 * 4096 - a = 0"
    using le [of q] le [of "q + 1"] by (simp add: q)
  show "pte_val m3 d va = (if a \<le> va \<and> va < a + Suc n * 4096
      then Some (new_pte (pa + (va div 4096 * 4096 - a)) perm) else pte_val m d va)"
    using r [unfolded mapped_to_def, rule_format, OF va] st [of va] m p d z by (auto split: if_splits)
qed

lemma mapped_to_0: "mapped_to m m d a 0 pa perm"
  by (auto simp: mapped_to_def)

definition page_post :: "'z mem_st_scheme \<Rightarrow> nat \<Rightarrow> nat list \<Rightarrow> nat \<Rightarrow> nat \<Rightarrow> nat \<Rightarrow> 'z mem_st_scheme \<Rightarrow> nat list \<Rightarrow> bool" where
  "page_post s d vs a pa perm t ws \<longleftrightarrow> pt_inv t d ws \<and> set ws \<subseteq> set vs \<and> length vs \<le> Suc (length ws) \<and> mem_frame s t \<and>
     (\<forall>va. pte_val (phys t) d va = (if PDX va = PDX a \<and> PTX va = PTX a then Some (new_pte pa perm) else pte_val (phys s) d va))"

lemma wp_map_page:
  assumes inv: "pt_inv s d vs" and lk: "use_lock s \<longrightarrow> LK_kmem \<notin> held s"
    and pa: "pa mod 4096 = 0" "perm < 4096" "pa < 4294967296" and no: "pte_val (phys s) d a = None"
    and fail: "vs = [] \<Longrightarrow> Q (-1) s" and cont: "\<And>t ws. page_post s d vs a pa perm t ws \<Longrightarrow> wp m Q t"
  shows "wp (kbind (walkpgdir d a True) (\<lambda>r. case r of None \<Rightarrow> kret (-1)
    | Some pte \<Rightarrow> kbind (load32 pte) (\<lambda>e. if e AND PTE_P \<noteq> 0 then kpanic ''remap''
        else kthen (store32 pte (pa OR perm OR PTE_P)) m))) Q s"
  unfolding wp_kbind
proof (rule wp_walk_alloc [OF inv lk])
  assume "vs = []"
  then show "wp (case None of None \<Rightarrow> kret (-1) | Some pte \<Rightarrow> kbind (load32 pte) (\<lambda>e. if e AND PTE_P \<noteq> 0 then kpanic ''remap''
        else kthen (store32 pte (pa OR perm OR PTE_P)) m)) Q s" using fail by simp
next
  fix t ws assume w: "walk_post s d a vs t ws"
  note W = w [unfolded walk_post_def]
  let ?p = "pgtab (phys t) d (PDX a)"
  have T: "pt_inv t d ws" "odd (ent (phys t) d (PDX a))" using W by auto
  have p: "v2p (?p + 4 * PTX a) = v2p ?p + 4 * PTX a"
    using pt_invD(4) [OF T(1) PDX_less T(2)] by (simp add: v2p_entry)
  have "pte_val (phys t) d a = None" using W no by simp
  then have ev: "even (get32 (phys t) (v2p ?p + 4 * PTX a))" using T(2) by (simp add: pte_val_def ent_def split: if_splits)
  note N = new_pte [OF pa]
  note S = pt_inv_store [OF T N(2)]
  let ?t = "t\<lparr>phys := put32 (phys t) (v2p ?p + 4 * PTX a) (new_pte pa perm)\<rparr>"
  have "page_post s d vs a pa perm ?t ws"
    unfolding page_post_def using S N(1) W by auto
  from cont [OF this]
  show "wp (case Some (?p + 4 * PTX a) of None \<Rightarrow> kret (-1) | Some pte \<Rightarrow> kbind (load32 pte) (\<lambda>e. if e AND PTE_P \<noteq> 0 then kpanic ''remap''
        else kthen (store32 pte (pa OR perm OR PTE_P)) m)) Q t"
    using ev by (simp add: load32_def store32_def p and_PTE_P new_pte_def)
qed

lemma wp_mappages_from:
  assumes "pt_inv s d vs" "use_lock s \<longrightarrow> LK_kmem \<notin> held s" "a mod 4096 = 0" "a + k * 4096 < 4294967296"
    "pa mod 4096 = 0" "pa + k * 4096 < 4294967296" "perm < 4096" "\<And>i. i \<le> k \<Longrightarrow> pte_val (phys s) d (a + i * 4096) = None"
    and "\<And>r t ws. map_post s d vs a (Suc k) pa perm r t ws \<Longrightarrow> Q r t"
  shows "wp (mappages_from d k a pa perm) Q s"
  using assms
proof (induction k arbitrary: s vs a pa)
  case (0 s vs a pa)
  note A = "0.prems"
  have no: "pte_val (phys s) d a = None" using A(8) [of 0] by simp
  have fin: "Q 0 t" if p: "page_post s d vs a pa perm t ws" for t ws
  proof (rule A(9) [of _ _ ws])
    have "mapped_to (phys t) (phys t) d (a + 4096) 0 (pa + 4096) perm" by (rule mapped_to_0)
    then have "mapped_to (phys s) (phys t) d a (Suc 0) pa perm"
      using p A(3,4) by (intro mapped_to_step [where ?m1.0 = "phys s" and ?m2.0 = "phys t"]) (auto simp: page_post_def)
    then show "map_post s d vs a (Suc 0) pa perm 0 t ws" using p by (simp add: map_post_def page_post_def)
  qed
  have "map_post s d vs a (Suc 0) pa perm (-1) s vs" if "vs = []"
    using A(1) that by (auto simp: map_post_def intro!: exI [of _ 0] mapped_to_0)
  then show ?case
    using A(5-7) fin A(9) by (subst mappages_from.simps, intro wp_map_page [OF A(1,2) _ _ _ no]) (auto simp: no)
next
  case (Suc k s vs a pa)
  note A = Suc.prems
  have no: "pte_val (phys s) d a = None" using A(8) [of 0] by simp
  have a: "u32 (a + PGSIZE) = a + 4096" "u32 (pa + PGSIZE) = pa + 4096" using A(4,6) by (simp_all add: u32_def PGSIZE_def)
  have al: "(a + 4096) mod 4096 = 0" "(pa + 4096) mod 4096 = 0" using A(3,5) by simp_all
  have fin: "wp (mappages_from d k (u32 (a + PGSIZE)) (u32 (pa + PGSIZE)) perm) Q t" if p: "page_post s d vs a pa perm t ws" for t ws
    unfolding a
  proof (rule Suc.IH [where vs = ws])
    note P = p [unfolded page_post_def]
    show "pt_inv t d ws" "use_lock t \<longrightarrow> LK_kmem \<notin> held t" using P A(2) mem_frame_fields [of s t] by auto
    show "pte_val (phys t) d (a + 4096 + i * 4096) = None" if "i \<le> k" for i
    proof -
      have "a + Suc i * 4096 < 4294967296" "a < 4294967296" using A(4) that by auto
      then have "\<not> (PDX (a + Suc i * 4096) = PDX a \<and> PTX (a + Suc i * 4096) = PTX a)"
        by (subst same_page) simp_all
      then show ?thesis using P A(8) [of "Suc i"] that by (simp add: add.assoc)
    qed
    fix r u ws' assume m: "map_post t d ws (a + 4096) (Suc k) (pa + 4096) perm r u ws'"
    note M = m [unfolded map_post_def]
    have step: "mapped_to (phys s) (phys u) d a (Suc n) pa perm" if "mapped_to (phys t) (phys u) d (a + 4096) n (pa + 4096) perm" for n
      using that P A(3,4) by (intro mapped_to_step [where ?m1.0 = "phys s" and ?m2.0 = "phys t"]) auto
    have "map_post s d vs a (Suc (Suc k)) pa perm r u ws'"
      using M P step mem_frame_trans [of s t u] by (fastforce simp: map_post_def)
    then show "Q r u" by (rule A(9))
  qed (use al A(4,6,7) in \<open>simp_all add: algebra_simps\<close>)
  have "map_post s d vs a (Suc (Suc k)) pa perm (-1) s vs" if "vs = []"
    using A(1) that by (auto simp: map_post_def intro!: exI [of _ 0] mapped_to_0)
  then show ?case
    using A(5-7) fin A(9) by (subst mappages_from.simps, intro wp_map_page [OF A(1,2) _ _ _ no]) (auto simp: no)
qed

section \<open>User memory through the page table\<close>

text \<open>The kernel address of the user page that holds \<open>va\<close>, when the page is present and accessible to the user.\<close>

definition upage :: "bytes \<Rightarrow> nat \<Rightarrow> nat \<Rightarrow> nat option" where
  "upage m d va = (case pte_val m d va of None \<Rightarrow> None
     | Some e \<Rightarrow> if e AND PTE_U = 0 then None else Some (p2v (PTE_ADDR e)))"

definition umem :: "bytes \<Rightarrow> nat \<Rightarrow> nat \<Rightarrow> byte option" where
  "umem m d va = map_option (\<lambda>p. m (v2p p + va mod 4096)) (upage m d va)"

text \<open>User pages are pages of their own: no page table and no two addresses share one.\<close>

definition user_inv :: "'z mem_st_scheme \<Rightarrow> nat \<Rightarrow> bool" where
  "user_inv s d \<longleftrightarrow> page_ok (kend s) d \<and>
     (\<forall>i<1024. odd (ent (phys s) d i) \<longrightarrow> page_ok (kend s) (pgtab (phys s) d i) \<and> pgtab (phys s) d i \<noteq> d) \<and>
     (\<forall>va p. upage (phys s) d va = Some p \<longrightarrow> page_ok (kend s) p \<and> p \<noteq> d \<and>
        (\<forall>i<1024. odd (ent (phys s) d i) \<longrightarrow> p \<noteq> pgtab (phys s) d i)) \<and>
     (\<forall>va < 4294967296. \<forall>va' < 4294967296. \<forall>p. upage (phys s) d va = Some p \<and> upage (phys s) d va' = Some p \<longrightarrow>
        va div 4096 = va' div 4096)"

lemma user_invD:
  assumes "user_inv s d"
  shows "page_ok (kend s) d" "i < 1024 \<Longrightarrow> odd (ent (phys s) d i) \<Longrightarrow> page_ok (kend s) (pgtab (phys s) d i) \<and> pgtab (phys s) d i \<noteq> d"
    "upage (phys s) d va = Some p \<Longrightarrow> page_ok (kend s) p \<and> p \<noteq> d"
    "upage (phys s) d va = Some p \<Longrightarrow> i < 1024 \<Longrightarrow> odd (ent (phys s) d i) \<Longrightarrow> p \<noteq> pgtab (phys s) d i"
    "upage (phys s) d va = Some p \<Longrightarrow> upage (phys s) d va' = Some p \<Longrightarrow> va < 4294967296 \<Longrightarrow> va' < 4294967296 \<Longrightarrow> va div 4096 = va' div 4096"
  using assms unfolding user_inv_def by blast+

text \<open>Bytes written to a user page change no page table entry.\<close>

lemma put_list_other: "a < v2p p \<or> v2p p + PGSIZE \<le> a \<Longrightarrow> off + length bs \<le> PGSIZE \<Longrightarrow> put_list m (v2p p + off) bs a = m a"
  by (auto simp: put_list_def)

lemma ent_put_list:
  assumes "page_ok e p" "page_ok e q" "p \<noteq> q" "off + length bs \<le> PGSIZE" "i < 1024"
  shows "ent (put_list m (v2p p + off) bs) q i = ent m q i"
proof (rule ent_cong [OF _ assms(5)])
  fix k :: nat assume "k < 4096"
  then show "put_list m (v2p p + off) bs (v2p q + k) = m (v2p q + k)"
    using page_apart [OF assms(1-3), of k] assms(4) by (intro put_list_other) (auto simp: PGSIZE_def)
qed

lemma upage_store:
  assumes inv: "user_inv s d" and p: "upage (phys s) d va = Some p" and l: "off + length bs \<le> PGSIZE"
  defines "m \<equiv> put_list (phys s) (v2p p + off) bs"
  shows "pte_val m d = pte_val (phys s) d" "upage m d = upage (phys s) d" "user_inv (s\<lparr>phys := m\<rparr>) d"
proof -
  note I = user_invD [OF inv]
  have e: "ent m d i = ent (phys s) d i" if "i < 1024" for i
    unfolding m_def using I(1,3) p that l by (intro ent_put_list [where e = "kend s"]) auto
  then have t: "pgtab m d i = pgtab (phys s) d i" if "i < 1024" for i using that by (simp add: pgtab_def)
  have o: "ent m (pgtab (phys s) d i) j = ent (phys s) (pgtab (phys s) d i) j" if "i < 1024" "j < 1024" "odd (ent (phys s) d i)" for i j
    unfolding m_def using I(3) [OF p] I(2,4) p that l by (intro ent_put_list [where e = "kend s"]) auto
  show pv: "pte_val m d = pte_val (phys s) d"
    using o by (auto simp: pte_val_def e t fun_eq_iff)
  then show up: "upage m d = upage (phys s) d" by (simp add: upage_def fun_eq_iff)
  have k: "kend (s\<lparr>phys := m\<rparr>) = kend s" "phys (s\<lparr>phys := m\<rparr>) = m" by simp_all
  show "user_inv (s\<lparr>phys := m\<rparr>) d"
  proof (unfold user_inv_def k up, intro conjI allI impI)
    show "page_ok (kend s) d" by (rule I(1))
  next
    fix i :: nat assume i: "i < 1024" "odd (ent m d i)"
    then show "page_ok (kend s) (pgtab m d i)" "pgtab m d i \<noteq> d" using I(2) [of i] by (simp_all add: e t)
  next
    fix w q assume "upage (phys s) d w = Some q"
    then show "page_ok (kend s) q" "q \<noteq> d" using I(3) by blast+
  next
    fix w q i assume "upage (phys s) d w = Some q" "i < (1024 :: nat)" "odd (ent m d i)"
    then show "q \<noteq> pgtab m d i" using I(4) [of w q i] by (simp add: e t)
  next
    fix w w' q assume "w < (4294967296 :: nat)" "w' < (4294967296 :: nat)" "upage (phys s) d w = Some q \<and> upage (phys s) d w' = Some q"
    then show "w div 4096 = w' div 4096" using I(5) by blast
  qed
qed

lemma upage_same:
  assumes "va < 4294967296" "va' < 4294967296" "va div 4096 = va' div 4096" shows "upage m d va = upage m d va'"
proof -
  have "PDX va = PDX va'" "PTX va = PTX va'" using same_page [OF assms(1,2)] assms(3) by auto
  then show ?thesis by (simp add: upage_def pte_val_def)
qed

lemma in_page:
  fixes va va' n :: nat
  assumes "va \<le> va'" "va' < va + n" "va mod 4096 + n \<le> 4096" shows "va' div 4096 = va div 4096"
proof -
  have "va mod 4096 + (va' - va) < 4096" using assms by linarith
  from div_mod_add(1) [OF this] show ?thesis using assms(1) by simp
qed

lemma umem_store:
  assumes inv: "user_inv s d" and p: "upage (phys s) d va = Some p" and l: "va mod 4096 + length bs \<le> PGSIZE"
    and va: "va < 4294967296" "va' < 4294967296"
  shows "umem (put_list (phys s) (v2p p + va mod 4096) bs) d va' =
    (if va \<le> va' \<and> va' < va + length bs then Some (bs ! (va' - va)) else umem (phys s) d va')"
proof (cases "upage (phys s) d va'")
  case None
  have "va' div 4096 = va div 4096" if "va \<le> va'" "va' < va + length bs"
    using in_page [OF that] l by (simp add: PGSIZE_def)
  then have "\<not> (va \<le> va' \<and> va' < va + length bs)"
    using None p upage_same [OF va(2,1), of "phys s" d] by auto
  then show ?thesis using None upage_store(2) [OF inv p l] by (auto simp: umem_def)
next
  case (Some q)
  note I = user_invD [OF inv]
  show ?thesis
  proof (cases "va' div 4096 = va div 4096")
    case True
    then have "q = p" using Some p upage_same [OF va(2,1), of "phys s" d] by simp
    have e: "va' = va div 4096 * 4096 + va' mod 4096" "va = va div 4096 * 4096 + va mod 4096"
      using div_mult_mod_eq [of va' 4096] by (simp_all only: True div_mult_mod_eq)
    then have "va \<le> va' \<longleftrightarrow> va mod 4096 \<le> va' mod 4096" "va' < va + length bs \<longleftrightarrow> va' mod 4096 < va mod 4096 + length bs"
      "va' - va = va' mod 4096 - va mod 4096" by linarith+
    then show ?thesis
      using Some \<open>q = p\<close> upage_store(2) [OF inv p l] by (simp add: umem_def) (simp add: put_list_def)
  next
    case False
    then have "q \<noteq> p" using I(5) [OF p _ va] Some by auto
    then have "put_list (phys s) (v2p p + va mod 4096) bs (v2p q + va' mod 4096) = phys s (v2p q + va' mod 4096)"
      using page_apart [of "kend s" p q "va' mod 4096"] I(3) [OF p] I(3) [OF Some] l
      by (intro put_list_other) (auto simp: PGSIZE_def)
    moreover have "\<not> (va \<le> va' \<and> va' < va + length bs)"
      using False l in_page [of va va' "length bs"] by (auto simp: PGSIZE_def)
    ultimately show ?thesis using Some upage_store(2) [OF inv p l] by (auto simp: umem_def)
  qed
qed


lemma wp_uva2ka:
  assumes inv: "user_inv s d" and p: "upage (phys s) d va = Some p" and Q: "Q p s"
  shows "wp (uva2ka d va) Q s"
proof -
  note I = user_invD [OF inv]
  obtain e where e: "pte_val (phys s) d va = Some e" "e AND PTE_U \<noteq> 0" "p = p2v (PTE_ADDR e)"
    using p by (auto simp: upage_def split: option.splits if_splits)
  have pd: "odd (ent (phys s) d (PDX va))" "odd e" "e = ent (phys s) (pgtab (phys s) d (PDX va)) (PTX va)"
    using e(1) by (auto simp: pte_val_def split: if_splits)
  have a: "get32 (phys s) (v2p (d + 4 * PDX va)) = ent (phys s) d (PDX va)"
    "get32 (phys s) (v2p (pgtab (phys s) d (PDX va) + 4 * PTX va)) = e"
    using v2p_entry [OF I(1) PDX_less] v2p_entry [OF conjunct1 [OF I(2) [OF PDX_less pd(1)]] PTX_less] pd(3)
    by (simp_all add: ent_def)
  show ?thesis
    using pd(1,2) e Q a(2) by (simp add: uva2ka_def walkpgdir_def load32_def a(1) and_PTE_P pgtab_def)
qed

text \<open>The user's bytes after \<open>copyout\<close>.\<close>

definition copied :: "bytes \<Rightarrow> bytes \<Rightarrow> nat \<Rightarrow> nat \<Rightarrow> byte list \<Rightarrow> bool" where
  "copied m m' d va buf \<longleftrightarrow> (\<forall>va' < 4294967296. umem m' d va' =
     (if va \<le> va' \<and> va' < va + length buf then Some (buf ! (va' - va)) else umem m d va'))"

lemma copied_append:
  assumes "copied m m1 d va b1" "copied m1 m2 d va1 b2" "b2 = [] \<or> va1 = va + length b1"
  shows "copied m m2 d va (b1 @ b2)"
  unfolding copied_def
proof (intro allI impI)
  fix w :: nat assume w: "w < 4294967296"
  show "umem m2 d w = (if va \<le> w \<and> w < va + length (b1 @ b2) then Some ((b1 @ b2) ! (w - va)) else umem m d w)"
    using assms(1) [unfolded copied_def, rule_format, OF w] assms(2) [unfolded copied_def, rule_format, OF w] assms(3)
    by (auto simp: nth_append)
qed

lemma v2p_off: "page_ok e v \<Longrightarrow> i < 4096 \<Longrightarrow> v2p (v + i) = v2p v + i"
  using v2p_kern [of "v + i"] by (auto simp: v2p_page page_ok_def KERNBASE_def PHYSTOP_def)

lemma PGROUNDDOWN_mod: "va - PGROUNDDOWN va = va mod 4096" "PGROUNDDOWN va + va mod 4096 = va" "PGROUNDDOWN va div 4096 = va div 4096"
  by (simp_all add: PGROUNDDOWN_def PGSIZE_def minus_div_mult_eq_mod)

lemma wp_copyout:
  assumes "user_inv s d" "va + length buf < 4294967296" "\<And>i. i < length buf \<Longrightarrow> upage (phys s) d (va + i) \<noteq> None"
    and "\<And>t. user_inv t d \<Longrightarrow> mem_frame s t \<Longrightarrow> pte_val (phys t) d = pte_val (phys s) d \<Longrightarrow> copied (phys s) (phys t) d va buf \<Longrightarrow> Q 0 t"
  shows "wp (copyout d va buf) Q s"
  using assms
proof (induction d va buf arbitrary: s rule: copyout.induct)
  case (1 d va buf)
  note A = "1.prems"
  show ?case
  proof (cases "buf = []")
    case True
    have "copied (phys s) (phys s) d va []" by (auto simp: copied_def)
    then show ?thesis using True A(1,4) by (subst copyout.simps) simp
  next
    case False
    let ?va0 = "PGROUNDDOWN va" and ?n = "PGSIZE - (va - PGROUNDDOWN va)"
    let ?b = "take ?n buf" and ?off = "va mod 4096"
    note R = PGROUNDDOWN_mod [of va]
    have va: "va < 4294967296" "?va0 < 4294967296" using A(2) R(2) by linarith+
    obtain p where p: "upage (phys s) d va = Some p" using A(3) [of 0] False by auto
    have p0: "upage (phys s) d ?va0 = Some p" using p upage_same [OF va, of "phys s" d] R(3) by simp
    have pk: "page_ok (kend s) p" using user_invD(3) [OF A(1) p] by simp
    have "p \<noteq> 0" using pk by (auto simp: page_ok_def)
    have n: "?n = 4096 - ?off" "?off < 4096" by (simp_all add: R PGSIZE_def)
    then have l: "?off + length ?b \<le> PGSIZE" by (auto simp: PGSIZE_def)
    let ?m = "put_list (phys s) (v2p p + ?off) ?b"
    note U = upage_store [OF A(1) p l]
    have c1: "copied (phys s) ?m d va ?b"
      unfolding copied_def using umem_store [OF A(1) p l va(1)] by blast
    have nw: "u32 (?va0 + PGSIZE) = va + length ?b" if "drop ?n buf \<noteq> []"
    proof -
      have "length ?b = 4096 - ?off" "4096 - ?off < length buf" using that n by auto
      then show ?thesis using A(2) R(2) n by (simp add: u32_def PGSIZE_def)
    qed
    have rest: "wp (copyout d (u32 (?va0 + PGSIZE)) (drop ?n buf)) Q (s\<lparr>phys := ?m\<rparr>)"
    proof (rule "1.IH" [OF False])
      show "p \<noteq> 0" by fact
      show "user_inv (s\<lparr>phys := ?m\<rparr>) d" by (rule U(3))
      show "u32 (?va0 + PGSIZE) + length (drop ?n buf) < 4294967296"
      proof (cases "drop ?n buf = []")
        case True
        then show ?thesis by (simp add: u32_def)
      next
        case False
        then show ?thesis unfolding nw [OF False] using A(2) by simp
      qed
      show "upage (phys (s\<lparr>phys := ?m\<rparr>)) d (u32 (?va0 + PGSIZE) + i) \<noteq> None" if i: "i < length (drop ?n buf)" for i
      proof -
        have ne: "drop ?n buf \<noteq> []" using i by auto
        show ?thesis unfolding nw [OF ne] using A(3) [of "length ?b + i"] i by (simp add: U(2) add.assoc)
      qed
      fix t assume t: "user_inv t d" "mem_frame (s\<lparr>phys := ?m\<rparr>) t" "pte_val (phys t) d = pte_val (phys (s\<lparr>phys := ?m\<rparr>)) d"
        "copied (phys (s\<lparr>phys := ?m\<rparr>)) (phys t) d (u32 (?va0 + PGSIZE)) (drop ?n buf)"
      have "copied (phys s) (phys t) d va (?b @ drop ?n buf)"
        using t(4) nw by (intro copied_append [OF c1, where ?va1.0 = "u32 (?va0 + PGSIZE)"]) (simp, blast)
      moreover have "mem_frame s t" using mem_frame_trans [OF _ t(2), of s] by simp
      ultimately show "Q 0 t" using A(4) t U(1) by simp
    qed
    have "wp (uva2ka d ?va0) (\<lambda>pa0. wp (if pa0 = 0 then kret (-1) else
        kthen (kstore (pa0 + (va - ?va0)) ?b) (copyout d (u32 (?va0 + PGSIZE)) (drop ?n buf))) Q) s"
      by (rule wp_uva2ka [OF A(1) p0])
        (use rest \<open>p \<noteq> 0\<close> v2p_off [OF pk n(2)] in \<open>simp add: kstore_def R(1)\<close>)
    then show ?thesis using False by (subst copyout.simps) simp
  qed
qed

section \<open>Properties\<close>

text \<open>C15. \<open>mappages\<close> on a page directory whose page tables are distinct pages outside the free list, for
  whole pages none of which is mapped: it returns 0 and exactly these pages are mapped, page by page, to
  the physical pages from \<open>pa\<close> with the given permissions, or it returns -1 after mapping some of them,
  and then no page of memory is free and fewer than \<open>n\<close> were; every other virtual address keeps its mapping in both cases, and
  the page table stays well formed.\<close>

theorem mappages_maps:
  assumes "pt_inv s d vs" and "LK_kmem \<notin> held s" and "va mod 4096 = 0" and "0 < n" and "va + n * 4096 \<le> 4294967296"
    and "pa mod 4096 = 0" and "pa + n * 4096 \<le> 4294967296" and "perm < 4096"
    and "\<And>i. i < n \<Longrightarrow> pte_val (phys s) d (va + i * 4096) = None"
  shows "\<exists>r t ws. mappages d va (n * 4096) pa perm s = Ok r t \<and> pt_inv t d ws \<and>
    (r = 0 \<and> mapped_to (phys s) (phys t) d va n pa perm \<or>
     r = -1 \<and> ws = [] \<and> length vs < n \<and> (\<exists>k<n. mapped_to (phys s) (phys t) d va k pa perm))"
proof -
  obtain k where k: "n = Suc k" using assms(4) by (cases n) auto
  have r: "PGROUNDDOWN va = va" "PGROUNDDOWN (va + k * 4096 + 4095) = va + k * 4096"
    using assms(3) div_mod_add(1) [of "va + k * 4096" 4096 4095]
    by (auto simp: PGROUNDDOWN_def PGSIZE_def mod_eq_0_iff_dvd)
  have "va + n * 4096 + 4294967295 = va + k * 4096 + 4095 + 2 ^ 32" by (simp add: k)
  then have "u32 (va + n * 4096 + 4294967295) = u32 (va + k * 4096 + 4095)" unfolding u32_def by (metis mod_add_self2)
  then have l: "u32 (va + n * 4096 + 4294967295) = va + k * 4096 + 4095" using assms(5) by (simp add: k u32_def)
  have "va + k * 4096 + 4294967296 - va = k * 4096 + 2 ^ 32" by simp
  then have "u32 (va + k * 4096 + 4294967296 - va) = u32 (k * 4096)" unfolding u32_def by (metis mod_add_self2)
  then have c: "u32 (va + k * 4096 + 4294967296 - va) div PGSIZE = k" using assms(5) by (simp add: k u32_def PGSIZE_def)
  have "wp (mappages_from d k va pa perm) (\<lambda>r t. \<exists>ws. map_post s d vs va (Suc k) pa perm r t ws) s"
    using assms by (intro wp_mappages_from [OF assms(1)]) (auto simp: k)
  then obtain r t ws where t: "mappages_from d k va pa perm s = Ok r t" "map_post s d vs va n pa perm r t ws"
    by (auto simp: wp_iff k)
  have "mappages d va (n * 4096) pa perm s = mappages_from d k va pa perm s"
    by (simp only: mappages_def Let_def r l c)
  with t show ?thesis
    unfolding map_post_def by (intro exI [of _ r] exI [of _ t] exI [of _ ws]) auto
qed

text \<open>C16. \<open>copyout\<close> to user memory whose pages are all present and accessible to the user returns 0; then
  the bytes of the buffer stand at the user addresses from \<open>va\<close> on, across page boundaries and wherever the
  pages are in physical memory, every other user byte is as before, and no mapping changes.\<close>

theorem copyout_copies:
  assumes "user_inv s d" and "va + length buf < 4294967296" and "\<And>i. i < length buf \<Longrightarrow> upage (phys s) d (va + i) \<noteq> None"
  shows "\<exists>t. copyout d va buf s = Ok 0 t \<and> pte_val (phys t) d = pte_val (phys s) d \<and>
    (\<forall>va' < 4294967296. umem (phys t) d va' =
      (if va \<le> va' \<and> va' < va + length buf then Some (buf ! (va' - va)) else umem (phys s) d va'))"
proof -
  have "wp (copyout d va buf) (\<lambda>r t. r = 0 \<and> pte_val (phys t) d = pte_val (phys s) d \<and> copied (phys s) (phys t) d va buf) s"
    using assms by (intro wp_copyout) simp_all
  then show ?thesis by (auto simp: wp_iff copied_def)
qed

text \<open>An empty page directory at \<open>0x80400000\<close>, and one that maps user address \<open>0x1000\<close>.\<close>

definition wit_map :: mem_st where
  "wit_map = wit_mem\<lparr>phys := put32 (put32 (phys wit_mem) 0x400000 0x500007) 0x500004 0x600007\<rparr>"

lemma get32_zero_bytes: "get32 zero_bytes i = 0"
  by (simp add: get32_def zero_bytes_def)

theorem mappages_maps_witness:
  "\<exists>t. mappages 0x80400000 0x1000 4096 0x600000 6 wit_mem = Ok 0 t \<and> pte_val (phys t) 0x80400000 0x1234 = Some 0x600007"
proof -
  have e: "ent (phys wit_mem) 0x80400000 i = 0" if "i < 1024" for i
    using that by (simp add: ent_def wit_mem_fields v2p_def u32_def KERNBASE_def get32_zero_bytes)
  have "pt_inv wit_mem 0x80400000 [0x80200000, 0x80300000]"
    using wit_mem_free e by (simp add: pt_inv_def wit_mem_fields page_ok_def KERNBASE_def PHYSTOP_def PGSIZE_def)
  moreover have "LK_kmem \<notin> held wit_mem" using wit_log_post by (simp add: wit_mem_fields wit_fs_log wit_tx_post_def)
  moreover have "pte_val (phys wit_mem) 0x80400000 va = None" for va by (simp add: pte_val_def e)
  ultimately obtain t where t: "mappages 0x80400000 0x1000 4096 0x600000 6 wit_mem = Ok 0 t"
    "mapped_to (phys wit_mem) (phys t) 0x80400000 0x1000 1 0x600000 6"
    using mappages_maps [of wit_mem "0x80400000" "[0x80200000, 0x80300000]" "0x1000" 1 "0x600000" 6] by auto
  have "new_pte 0x600000 6 = 0x600007" by (simp add: new_pte_def PTE_P_def)
  then have "pte_val (phys t) 0x80400000 0x1234 = Some 0x600007"
    using t(2) [unfolded mapped_to_def, rule_format, of "0x1234"] by simp
  with t show ?thesis by blast
qed

theorem copyout_copies_witness:
  "\<exists>t. copyout 0x80400000 0x1010 [104, 105] wit_map = Ok 0 t \<and> umem (phys t) 0x80400000 0x1011 = Some 105"
proof -
  let ?d = "0x80400000 :: nat"
  have p: "phys wit_map = put32 (put32 (put32 zero_bytes 0x200000 0x80300000) 0x400000 0x500007) 0x500004 0x600007" "kend wit_map = 0x80180000"
    by (simp_all add: wit_map_def wit_mem_fields)
  have e: "ent (phys wit_map) ?d i = (if i = 0 then 0x500007 else 0)" if "i < 1024" for i
    using that by (simp add: ent_def p v2p_def u32_def KERNBASE_def get32_zero_bytes)
  have t: "pgtab (phys wit_map) ?d 0 = 0x80500000"
    using e [of 0] by (simp add: pgtab_def PTE_ADDR_def p2v_def u32_def KERNBASE_def)
  have f: "ent (phys wit_map) 0x80500000 i = (if i = 1 then 0x600007 else 0)" if "i < 1024" for i
  proof -
    consider "i = 0" | "i = 1" | "2 \<le> i" by linarith
    then show ?thesis
      by cases (use that in \<open>simp_all add: ent_def p v2p_def u32_def KERNBASE_def get32_zero_bytes\<close>)
  qed
  have c: "p2v (PTE_ADDR 0x600007) = 0x80600000" "(0x600007 :: nat) AND PTE_U \<noteq> 0"
    by (simp_all add: PTE_ADDR_def p2v_def u32_def KERNBASE_def PTE_U_def)
  have v: "pte_val (phys wit_map) ?d va = (if PDX va = 0 \<and> PTX va = 1 then Some 0x600007 else None)" for va
    using t by (simp add: pte_val_def e f)
  have u: "upage (phys wit_map) ?d va = (if PDX va = 0 \<and> PTX va = 1 then Some 0x80600000 else None)" for va
    using c by (simp add: upage_def v)
  have k: "page_ok 0x80180000 ?d" "page_ok 0x80180000 0x80500000" "page_ok 0x80180000 0x80600000"
    by (simp_all add: page_ok_def KERNBASE_def PHYSTOP_def PGSIZE_def)
  have "user_inv wit_map ?d"
  proof (unfold user_inv_def p(2), intro conjI allI impI)
    fix i :: nat assume "i < 1024" "odd (ent (phys wit_map) ?d i)"
    then have "i = 0" using e [of i] by (simp split: if_splits)
    then show "page_ok 0x80180000 (pgtab (phys wit_map) ?d i)" "pgtab (phys wit_map) ?d i \<noteq> ?d" using t k by simp_all
  next
    fix va q assume q: "upage (phys wit_map) ?d va = Some q"
    then show "page_ok 0x80180000 q" "q \<noteq> ?d" using k by (simp_all add: u split: if_splits)
    fix i :: nat assume "i < 1024" "odd (ent (phys wit_map) ?d i)"
    then have "i = 0" using e [of i] by (simp split: if_splits)
    then show "q \<noteq> pgtab (phys wit_map) ?d i" using q t by (simp add: u split: if_splits)
  next
    fix va va' q assume b: "va < (4294967296 :: nat)" "va' < (4294967296 :: nat)"
      "upage (phys wit_map) ?d va = Some q \<and> upage (phys wit_map) ?d va' = Some q"
    then show "va div 4096 = va' div 4096" using same_page [OF b(1,2)] by (simp add: u split: if_splits)
  qed (rule k)
  moreover have "upage (phys wit_map) ?d (0x1010 + i) \<noteq> None" if "i < 2" for i
    using that by (auto simp: u PDX_def PTX_def less_2_cases_iff)
  ultimately show ?thesis
    using copyout_copies [of wit_map ?d "0x1010" "[104, 105]"] by (auto simp: numeral_2_eq_2)
qed

end
