(* ===== verification/Ring.thy ===== *)
theory Ring
  imports Prelude
begin

text \<open>
  Ring buffers with free-running 32-bit counters, as the pipes (\<open>pipe.c\<close>) and the console input
  (\<open>console.c\<close>) use them: \<open>data[i++ % N]\<close> with \<open>uint\<close> counters that wrap at \<open>2 ^ 32\<close>.  The locale
  \<open>ring\<close> is their contract: a counter pair and an array represent the list of the elements between
  the counters, adding at the write counter appends, and taking at the read counter removes the first.
  It needs the size to divide \<open>2 ^ 32\<close>.
\<close>

definition ring_count :: "nat \<Rightarrow> nat \<Rightarrow> nat" where
  "ring_count r w = u32 (w + 2 ^ 32 - r)"

definition ring_items :: "nat \<Rightarrow> (nat \<Rightarrow> 'a) \<Rightarrow> nat \<Rightarrow> nat \<Rightarrow> 'a list" where
  "ring_items N buf r w = map (\<lambda>k. buf (u32 (r + k) mod N)) [0..<ring_count r w]"

lemma ring_count_less: "ring_count r w < 2 ^ 32"
  by (simp add: ring_count_def u32_def)

lemma ring_count_same [simp]: "r < 2 ^ 32 \<Longrightarrow> ring_count r r = 0"
  by (simp add: ring_count_def u32_def)

lemma ring_count_eq_0: "r < 2 ^ 32 \<Longrightarrow> w < 2 ^ 32 \<Longrightarrow> ring_count r w = 0 \<longleftrightarrow> w = r"
  unfolding ring_count_def u32_def by (cases "w < r") (auto simp: mod_if)

lemma ring_count_write:
  "r < 2 ^ 32 \<Longrightarrow> w < 2 ^ 32 \<Longrightarrow> ring_count r w < 2 ^ 32 - 1 \<Longrightarrow> ring_count r (u32 (w + 1)) = ring_count r w + 1"
  unfolding ring_count_def u32_def by (cases "w < r") (auto simp: mod_if split: if_splits)

lemma ring_count_read:
  "r < 2 ^ 32 \<Longrightarrow> w < 2 ^ 32 \<Longrightarrow> w \<noteq> r \<Longrightarrow> ring_count (u32 (r + 1)) w + 1 = ring_count r w"
  unfolding ring_count_def u32_def by (cases "w < r") (auto simp: mod_if split: if_splits)

lemma ring_pos: "r < 2 ^ 32 \<Longrightarrow> w < 2 ^ 32 \<Longrightarrow> u32 (r + ring_count r w) = w"
  unfolding ring_count_def u32_def by (cases "w < r") (auto simp: mod_if split: if_splits)

lemma ring_full: "r < 2 ^ 32 \<Longrightarrow> w < 2 ^ 32 \<Longrightarrow> N < 2 ^ 32 \<Longrightarrow> w = u32 (r + N) \<longleftrightarrow> ring_count r w = N"
  unfolding ring_count_def u32_def by (cases "w < r") (auto simp: mod_if split: if_splits)

locale ring =
  fixes N :: nat
  assumes size_pos: "0 < N" and size_div: "N dvd 2 ^ 32"
begin

lemma index_mod: "u32 i mod N = i mod N"
  unfolding u32_def using size_div by (rule mod_mod_cancel)

lemma items: "ring_items N buf r w = map (\<lambda>k. buf ((r + k) mod N)) [0..<ring_count r w]"
  by (simp add: ring_items_def index_mod)

text \<open>Adding an element where there is room.\<close>

lemma write_items:
  assumes "r < 2 ^ 32" "w < 2 ^ 32" "ring_count r w < N" "N < 2 ^ 32"
  shows "ring_items N (buf(w mod N := b)) r (u32 (w + 1)) = ring_items N buf r w @ [b]"
proof -
  have c: "ring_count r (u32 (w + 1)) = ring_count r w + 1"
    using assms by (intro ring_count_write) auto
  have w: "(r + ring_count r w) mod N = w mod N"
    using ring_pos [OF assms(1,2)] index_mod [of "r + ring_count r w"] by simp
  have "(r + k) mod N \<noteq> w mod N" if "k < ring_count r w" for k
  proof
    assume "(r + k) mod N = w mod N"
    then have "(r + k) mod N = (r + ring_count r w) mod N" using w by simp
    then have "N dvd ring_count r w - k"
      using that by (metis add_diff_cancel_left mod_eq_dvd_iff_nat nat_add_left_cancel_le less_imp_le_nat)
    then show False using that assms(3) by (auto dest: dvd_imp_le)
  qed
  then show ?thesis unfolding items c by (simp add: w)
qed

text \<open>Taking the first element of a buffer that is not empty.\<close>

lemma read_items:
  assumes "r < 2 ^ 32" "w < 2 ^ 32" "w \<noteq> r"
  shows "ring_items N buf r w = buf (r mod N) # ring_items N buf (u32 (r + 1)) w"
proof -
  let ?n = "ring_count (u32 (r + 1)) w"
  have "(u32 (r + 1) + k) mod N = (r + 1 + k) mod N" for k
    by (metis index_mod mod_add_left_eq)
  then have "ring_items N buf (u32 (r + 1)) w = map (\<lambda>k. buf ((r + Suc k) mod N)) [0..<?n]"
    by (simp add: items)
  moreover have "ring_count r w = Suc ?n" using ring_count_read [OF assms] by simp
  ultimately show ?thesis
    by (simp add: items upt_conv_Cons map_Suc_upt [symmetric] del: upt_Suc)
qed

lemma empty_items: "r < 2 ^ 32 \<Longrightarrow> w < 2 ^ 32 \<Longrightarrow> ring_items N buf r w = [] \<longleftrightarrow> w = r"
  by (simp add: ring_items_def ring_count_eq_0)

lemma length_items: "length (ring_items N buf r w) = ring_count r w"
  by (simp add: ring_items_def)

end

end
