(* ===== verification/Pipe.thy ===== *)
theory Pipe
  imports Vm Ring
begin

text \<open>
  Pipes (\<open>pipe.c\<close>): \<open>pipeclose\<close>, \<open>pipewrite\<close>, \<open>piperead\<close>; \<open>pipealloc\<close> is in theory \<open>File\<close>, since
  it calls \<open>filealloc\<close> and \<open>fileclose\<close>.

  \<open>pipe_st\<close> extends the state by the \<open>struct pipe\<close> that stands in each page used for one.  The
  loops take their counter as an argument: a process that goes to sleep in \<open>pipewrite\<close> with \<open>i\<close>
  bytes written resumes, after \<open>sleep\<close> returns, with \<open>pipewrite_from\<close> at \<open>i\<close>, and a reader with
  \<open>piperead_from\<close>.  The relation \<open>pipe_run\<close> interleaves these pieces.
\<close>

section \<open>Operations\<close>

definition PIPESIZE :: nat where "PIPESIZE = 512"

record pipe =
  pi_data :: "nat \<Rightarrow> byte"
  pi_nread :: nat
  pi_nwrite :: nat
  pi_readopen :: bool
  pi_writeopen :: bool

record pipe_st = mem_st +
  pipes :: "nat \<Rightarrow> pipe"

definition set_pipe :: "nat \<Rightarrow> (pipe \<Rightarrow> pipe) \<Rightarrow> ('z pipe_st_scheme, unit) kern" where
  "set_pipe p f = kmod (\<lambda>s. s\<lparr>pipes := (pipes s)(p := f (pipes s p))\<rparr>)"

definition pipeclose :: "nat \<Rightarrow> bool \<Rightarrow> ('z pipe_st_scheme, unit) kern" where
  "pipeclose p writable =
    kthen (acquire_lk (LK_pipe p)) (
    kthen (
      if writable then
        kthen (set_pipe p (\<lambda>x. x\<lparr>pi_writeopen := False\<rparr>)) (
        wakeup (Ch_pipe_nread p))
      else
        kthen (set_pipe p (\<lambda>x. x\<lparr>pi_readopen := False\<rparr>)) (
        wakeup (Ch_pipe_nwrite p))) (
    kbind (kget (\<lambda>s. pipes s p)) (\<lambda>x.
    if \<not> pi_readopen x \<and> \<not> pi_writeopen x then
      kthen (release_lk (LK_pipe p)) (
      kfree p)
    else release_lk (LK_pipe p))))"

definition killed :: "('z kst_scheme, bool) kern" where
  "killed =
    kbind (kget curproc) (\<lambda>cp.
    case cp of None \<Rightarrow> kpanic ''trap'' | Some c \<Rightarrow> kget (\<lambda>s. p_killed (ptable s c)))"

definition pipe_put :: "byte \<Rightarrow> pipe \<Rightarrow> pipe" where
  "pipe_put c x = x\<lparr>pi_data := (pi_data x)(pi_nwrite x mod PIPESIZE := c), pi_nwrite := u32 (pi_nwrite x + 1)\<rparr>"

function pipewrite_from :: "nat \<Rightarrow> bytes \<Rightarrow> int \<Rightarrow> int \<Rightarrow> ('z pipe_st_scheme, int) kern" where
  "pipewrite_from p addr n i =
    (if i < n then
       kbind (kget (\<lambda>s. pipes s p)) (\<lambda>x.
       if pi_nwrite x = u32 (pi_nread x + PIPESIZE) then
         kbind killed (\<lambda>k.
         if \<not> pi_readopen x \<or> k then kthen (release_lk (LK_pipe p)) (kret (-1))
         else
           kthen (wakeup (Ch_pipe_nread p)) (
           sleep (Ch_pipe_nwrite p) (LK_pipe p)))
       else
         kthen (set_pipe p (pipe_put (addr (nat i)))) (
         pipewrite_from p addr n (i + 1)))
     else
       kthen (wakeup (Ch_pipe_nread p)) (
       kthen (release_lk (LK_pipe p)) (
       kret n)))"
  by pat_completeness auto

termination
  by (relation "measure (\<lambda>(p, addr, n, i). nat (n - i))") auto

declare pipewrite_from.simps [simp del]

definition pipewrite :: "nat \<Rightarrow> bytes \<Rightarrow> int \<Rightarrow> ('z pipe_st_scheme, int) kern" where
  "pipewrite p addr n = kthen (acquire_lk (LK_pipe p)) (pipewrite_from p addr n 0)"

function piperead_copy :: "nat \<Rightarrow> int \<Rightarrow> int \<Rightarrow> byte list \<Rightarrow> ('z pipe_st_scheme, int \<times> byte list) kern" where
  "piperead_copy p n i bs =
    kbind (kget (\<lambda>s. pipes s p)) (\<lambda>x.
    if i < n \<and> pi_nread x \<noteq> pi_nwrite x then
      kthen (set_pipe p (\<lambda>x. x\<lparr>pi_nread := u32 (pi_nread x + 1)\<rparr>)) (
      piperead_copy p n (i + 1) (bs @ [pi_data x (pi_nread x mod PIPESIZE)]))
    else
      kthen (wakeup (Ch_pipe_nwrite p)) (
      kthen (release_lk (LK_pipe p)) (
      kret (i, bs))))"
  by pat_completeness auto

termination
  by (relation "measure (\<lambda>(p, n, i, bs). nat (n - i))") auto

declare piperead_copy.simps [simp del]

definition piperead_from :: "nat \<Rightarrow> int \<Rightarrow> ('z pipe_st_scheme, int \<times> byte list) kern" where
  "piperead_from p n =
    kbind (kget (\<lambda>s. pipes s p)) (\<lambda>x.
    if pi_nread x = pi_nwrite x \<and> pi_writeopen x then
      kbind killed (\<lambda>k.
      if k then kthen (release_lk (LK_pipe p)) (kret (-1, []))
      else sleep (Ch_pipe_nread p) (LK_pipe p))
    else piperead_copy p n 0 [])"

definition piperead :: "nat \<Rightarrow> int \<Rightarrow> ('z pipe_st_scheme, int \<times> byte list) kern" where
  "piperead p n = kthen (acquire_lk (LK_pipe p)) (piperead_from p n)"

section \<open>A pipe is a bounded queue\<close>

interpretation pipe_ring: ring PIPESIZE
  by unfold_locales (simp_all add: PIPESIZE_def)

definition pipe_inv :: "pipe \<Rightarrow> bool" where
  "pipe_inv x \<longleftrightarrow> pi_nread x < 2 ^ 32 \<and> pi_nwrite x < 2 ^ 32 \<and> ring_count (pi_nread x) (pi_nwrite x) \<le> PIPESIZE"

definition queue :: "pipe \<Rightarrow> byte list" where
  "queue x = ring_items PIPESIZE (pi_data x) (pi_nread x) (pi_nwrite x)"

lemma queue_length: "length (queue x) = ring_count (pi_nread x) (pi_nwrite x)"
  by (simp add: queue_def pipe_ring.length_items)

lemma pipe_full: "pipe_inv x \<Longrightarrow> pi_nwrite x = u32 (pi_nread x + PIPESIZE) \<longleftrightarrow> length (queue x) = PIPESIZE"
  unfolding queue_length by (rule ring_full) (auto simp: pipe_inv_def PIPESIZE_def)

lemma pipe_empty: "pipe_inv x \<Longrightarrow> pi_nread x = pi_nwrite x \<longleftrightarrow> queue x = []"
  using pipe_ring.empty_items [of "pi_nread x" "pi_nwrite x" "pi_data x"] by (auto simp: pipe_inv_def queue_def)

lemma pipe_put_queue:
  assumes "pipe_inv x" "length (queue x) < PIPESIZE"
  shows "queue (pipe_put c x) = queue x @ [c]" "pipe_inv (pipe_put c x)"
    "pi_readopen (pipe_put c x) = pi_readopen x" "pi_writeopen (pipe_put c x) = pi_writeopen x"
proof -
  have i: "pi_nread x < 2 ^ 32" "pi_nwrite x < 2 ^ 32" "ring_count (pi_nread x) (pi_nwrite x) < PIPESIZE" "PIPESIZE < 2 ^ 32"
    using assms by (auto simp: pipe_inv_def queue_length PIPESIZE_def)
  show q: "queue (pipe_put c x) = queue x @ [c]"
    using pipe_ring.write_items [OF i] by (simp add: queue_def pipe_put_def)
  have "length (queue (pipe_put c x)) \<le> PIPESIZE" using q assms(2) by simp
  then show "pipe_inv (pipe_put c x)"
    using i by (simp add: queue_length) (simp add: pipe_inv_def pipe_put_def u32_def)
qed (simp_all add: pipe_put_def)

lemma pipe_get_queue:
  assumes "pipe_inv x" "queue x \<noteq> []"
  shows "queue x = pi_data x (pi_nread x mod PIPESIZE) # queue (x\<lparr>pi_nread := u32 (pi_nread x + 1)\<rparr>)"
    "pipe_inv (x\<lparr>pi_nread := u32 (pi_nread x + 1)\<rparr>)"
proof -
  have i: "pi_nread x < 2 ^ 32" "pi_nwrite x < 2 ^ 32" "pi_nwrite x \<noteq> pi_nread x"
    using assms pipe_empty [OF assms(1)] by (auto simp: pipe_inv_def)
  show q: "queue x = pi_data x (pi_nread x mod PIPESIZE) # queue (x\<lparr>pi_nread := u32 (pi_nread x + 1)\<rparr>)"
    using pipe_ring.read_items [OF i] by (simp add: queue_def)
  have "length (queue (x\<lparr>pi_nread := u32 (pi_nread x + 1)\<rparr>)) \<le> PIPESIZE"
    using q assms(1) by (metis Suc_leD length_Cons pipe_inv_def queue_length)
  then show "pipe_inv (x\<lparr>pi_nread := u32 (pi_nread x + 1)\<rparr>)"
    using i by (simp add: queue_length) (simp add: pipe_inv_def u32_def)
qed

section \<open>What a piece of a transfer does\<close>

text \<open>Locks, sleeping and waking change only the process table and the set of held locks.\<close>

lemma pres_sched_ops:
  assumes p: "\<And>s f. I s \<Longrightarrow> I (s\<lparr>ptable := f\<rparr>)" and h: "\<And>s f. I s \<Longrightarrow> I (s\<lparr>held := f\<rparr>)"
  shows "preserves I (acquire_lk l)" "preserves I (release_lk l)" "preserves I (wakeup ch)" "preserves I (sleep ch l)"
    "preserves I killed"
proof -
  show a: "preserves I (acquire_lk k)" for k using h by (auto simp: preserves_def acquire_lk_def)
  show r: "preserves I (release_lk k)" for k using h by (auto simp: preserves_def release_lk_def)
  show "preserves I (wakeup ch)"
    unfolding wakeup_def wakeup1_def using a r p by (intro pres_kthen pres_kmod)
  have s: "preserves I sched" by (auto simp: preserves_def sched_def split: option.split)
  show "preserves I (sleep ch l)"
    unfolding sleep_def set_proc_def using a r p s
    by (intro pres_kbind pres_kget pres_option pres_kpanic pres_kthen pres_kwhen pres_kmod)
  show "preserves I killed"
    unfolding killed_def by (intro pres_kbind pres_kget pres_option pres_kpanic)
qed

text \<open>\<open>k\<close> bytes from index \<open>i\<close> on went into the pipe.\<close>

definition wrote :: "bytes \<Rightarrow> int \<Rightarrow> pipe \<Rightarrow> nat \<Rightarrow> pipe \<Rightarrow> bool" where
  "wrote addr i x k y \<longleftrightarrow> pipe_inv y \<and> queue y = queue x @ map (\<lambda>j. addr (nat (i + int j))) [0..<k] \<and>
     pi_nread y = pi_nread x \<and> pi_nwrite y = u32 (pi_nwrite x + k)"

lemma wrote_0: "pipe_inv x \<Longrightarrow> wrote addr i x 0 x"
  by (simp add: wrote_def pipe_inv_def)

lemma wrote_Suc:
  assumes "pipe_inv x" "length (queue x) < PIPESIZE" "wrote addr (i + 1) (pipe_put (addr (nat i)) x) k y"
  shows "wrote addr i x (Suc k) y"
proof -
  note W = assms(3) [unfolded wrote_def]
  have q: "queue (pipe_put (addr (nat i)) x) = queue x @ [addr (nat i)]" using pipe_put_queue [OF assms(1,2)] by simp
  have f: "pi_nread (pipe_put (addr (nat i)) x) = pi_nread x" "pi_nwrite (pipe_put (addr (nat i)) x) = u32 (pi_nwrite x + 1)"
    by (simp_all add: pipe_put_def)
  have u: "u32 (u32 (pi_nwrite x + 1) + k) = u32 (pi_nwrite x + Suc k)"
    unfolding u32_def mod_add_left_eq by (simp only: add.assoc plus_1_eq_Suc)
  have "map (\<lambda>j. addr (nat (i + int j))) [0..<Suc k] = addr (nat i) # map (\<lambda>j. addr (nat (i + 1 + int j))) [0..<k]"
    by (simp add: upt_conv_Cons map_Suc_upt [symmetric] add.assoc del: upt_Suc)
  then have "queue y = queue x @ map (\<lambda>j. addr (nat (i + int j))) [0..<Suc k]" using W q by simp
  then show ?thesis
    unfolding wrote_def using W f u by metis
qed

text \<open>How a piece of \<open>pipewrite\<close> can end, other than by a panic.\<close>

definition write_end :: "nat \<Rightarrow> bytes \<Rightarrow> int \<Rightarrow> int \<Rightarrow> 'z pipe_st_scheme \<Rightarrow> ('z pipe_st_scheme, int) kres \<Rightarrow> bool" where
  "write_end p addr n i s res \<longleftrightarrow> (case res of
      Ok r t \<Rightarrow> \<exists>k. wrote addr i (pipes s p) k (pipes t p) \<and>
        (r = n \<and> int k = max 0 (n - i) \<or> r = -1 \<and> int k < n - i \<and> length (queue (pipes t p)) = PIPESIZE)
    | Sleeping t \<Rightarrow> \<exists>k. wrote addr i (pipes s p) k (pipes t p) \<and> int k < n - i \<and> length (queue (pipes t p)) = PIPESIZE
    | Panic e \<Rightarrow> True)"

lemma write_end_pres:
  assumes "preserves (\<lambda>t. pipes t p = pipes s p) m" "wrote addr i (pipes s p) k (pipes s p)"
    and "\<And>r t. m s = Ok r t \<Longrightarrow> r = n \<and> int k = max 0 (n - i) \<or> r = -1 \<and> int k < n - i \<and> length (queue (pipes s p)) = PIPESIZE"
    and "\<And>t. m s = Sleeping t \<Longrightarrow> int k < n - i \<and> length (queue (pipes s p)) = PIPESIZE"
  shows "write_end p addr n i s (m s)"
proof (cases "m s")
  case (Ok r t)
  have "pipes t p = pipes s p" using preservesD [OF assms(1) refl Ok] .
  then show ?thesis using Ok assms(2) assms(3) [OF Ok] by (auto simp: write_end_def intro!: exI [of _ k])
next
  case (Sleeping t)
  have "pipes t p = pipes s p" using preservesD_sleep [OF assms(1) refl Sleeping] .
  then show ?thesis using Sleeping assms(2) assms(4) [OF Sleeping] by (auto simp: write_end_def intro!: exI [of _ k])
qed (simp add: write_end_def)

lemma sleep_not_Ok [simp]: "sleep ch l s \<noteq> Ok x t"
  by (auto simp: sleep_def kthen_def kbind_Ok sched_def kpanic_def split: option.splits if_splits)

lemma wakeup_release: "kthen (wakeup ch) (kthen (release_lk l) (kret v)) s = Ok r t \<Longrightarrow> r = v"
  "kthen (wakeup ch) (kthen (release_lk l) (kret v)) s \<noteq> Sleeping t"
  "kthen (release_lk l) (kret v) s = Ok r t \<Longrightarrow> r = v"
  "kthen (release_lk l) (kret v) s \<noteq> Sleeping t"
  by (auto simp: wakeup_def wakeup1_def kern_defs acquire_lk_def release_lk_def split: kres.splits if_splits)

lemma pres_pipes [pres_rules]:
  "preserves (\<lambda>t. pipes t p = x) (acquire_lk l)" "preserves (\<lambda>t. pipes t p = x) (release_lk l)"
  "preserves (\<lambda>t. pipes t p = x) (wakeup ch)" "preserves (\<lambda>t. pipes t p = x) (sleep ch l)" "preserves (\<lambda>t. pipes t p = x) killed"
  by (rule pres_sched_ops; simp)+

lemma pipewrite_from_end:
  assumes "pipe_inv (pipes s p)" shows "write_end p addr n i s (pipewrite_from p addr n i s)"
  using assms
proof (induction p addr n i arbitrary: s rule: pipewrite_from.induct)
  case (1 p addr n i)
  let ?x = "pipes s p"
  note inv = "1.prems"
  consider (fin) "\<not> i < n" | (full) "i < n" "pi_nwrite ?x = u32 (pi_nread ?x + PIPESIZE)"
    | (put) "i < n" "pi_nwrite ?x \<noteq> u32 (pi_nread ?x + PIPESIZE)" by blast
  then show ?case
  proof cases
    case fin
    then have "pipewrite_from p addr n i s = kthen (wakeup (Ch_pipe_nread p)) (kthen (release_lk (LK_pipe p)) (kret n)) s"
      by (subst pipewrite_from.simps) simp
    also have "write_end p addr n i s \<dots>"
      by (rule write_end_pres [where k = 0], intro pres_rules, rule wrote_0 [OF inv])
        (use fin in \<open>auto simp: max_def wakeup_release(2) dest: wakeup_release(1)\<close>)
    finally show ?thesis .
  next
    case full
    then have l: "length (queue ?x) = PIPESIZE" using pipe_full [OF inv] by simp
    let ?m = "kbind killed (\<lambda>k. if \<not> pi_readopen ?x \<or> k then kthen (release_lk (LK_pipe p)) (kret (-1 :: int))
         else kthen (wakeup (Ch_pipe_nread p)) (sleep (Ch_pipe_nwrite p) (LK_pipe p)))"
    have "pipewrite_from p addr n i s = ?m s"
      using full by (subst pipewrite_from.simps) (simp add: kbind_def kget_def)
    also have "write_end p addr n i s \<dots>"
    proof (rule write_end_pres [where m = ?m and k = 0])
      show "preserves (\<lambda>t. pipes t p = pipes s p) ?m" by (intro pres_rules)
      show "wrote addr i (pipes s p) 0 (pipes s p)" using inv by (rule wrote_0)
      fix r t assume "?m s = Ok r t"
      then have "r = -1" by (auto simp: kbind_Ok kthen_def kret_def split: if_splits)
      then show "r = n \<and> int 0 = max 0 (n - i) \<or> r = -1 \<and> int 0 < n - i \<and> length (queue (pipes s p)) = PIPESIZE"
        using l full by simp
    qed (use l full in simp)
    finally show ?thesis .
  next
    case put
    then have l: "length (queue ?x) < PIPESIZE"
      using pipe_full [OF inv] inv by (auto simp: pipe_inv_def queue_length)
    let ?s = "s\<lparr>pipes := (pipes s)(p := pipe_put (addr (nat i)) ?x)\<rparr>"
    have "pipewrite_from p addr n i s = pipewrite_from p addr n (i + 1) ?s"
      using put by (subst pipewrite_from.simps) (simp add: kern_defs set_pipe_def)
    moreover have w: "write_end p addr n (i + 1) ?s (pipewrite_from p addr n (i + 1) ?s)"
      using put pipe_put_queue(2) [OF inv l] by (intro "1.IH") (simp_all add: fun_upd_def)
    have "write_end p addr n i s (pipewrite_from p addr n (i + 1) ?s)"
    proof (cases "pipewrite_from p addr n (i + 1) ?s")
      case (Ok r t)
      then obtain k where k: "wrote addr (i + 1) (pipe_put (addr (nat i)) ?x) k (pipes t p)"
        "r = n \<and> int k = max 0 (n - (i + 1)) \<or> r = -1 \<and> int k < n - (i + 1) \<and> length (queue (pipes t p)) = PIPESIZE"
        using w by (auto simp: write_end_def)
      then have "r = n \<and> int (Suc k) = max 0 (n - i) \<or> r = -1 \<and> int (Suc k) < n - i \<and> length (queue (pipes t p)) = PIPESIZE"
        using put by auto
      then show ?thesis using wrote_Suc [OF inv l k(1)] unfolding Ok write_end_def kres.case by blast
    next
      case (Sleeping t)
      then obtain k where k: "wrote addr (i + 1) (pipe_put (addr (nat i)) ?x) k (pipes t p)"
        "int k < n - (i + 1)" "length (queue (pipes t p)) = PIPESIZE"
        using w by (auto simp: write_end_def)
      then have "int (Suc k) < n - i" by simp
      then show ?thesis using wrote_Suc [OF inv l k(1)] k(3) unfolding Sleeping write_end_def kres.case by blast
    qed (simp add: write_end_def)
    ultimately show ?thesis by simp
  qed
qed

lemma wakeup_release_state:
  "kthen (wakeup ch) (kthen (release_lk l) (kret v)) s = Ok r t \<Longrightarrow> pipes t p = pipes s p"
  by (rule preservesD [of "\<lambda>t. pipes t p = pipes s p" "kthen (wakeup ch) (kthen (release_lk l) (kret v))" s r t])
    (intro pres_rules, simp_all)

definition copy_end :: "nat \<Rightarrow> int \<Rightarrow> int \<Rightarrow> byte list \<Rightarrow> 'z pipe_st_scheme \<Rightarrow> ('z pipe_st_scheme, int \<times> byte list) kres \<Rightarrow> bool" where
  "copy_end p n i bs s res \<longleftrightarrow> (case res of
      Ok r t \<Rightarrow> \<exists>l. snd r = bs @ l \<and> queue (pipes s p) = l @ queue (pipes t p) \<and> pipe_inv (pipes t p) \<and>
        fst r = i + int (length l) \<and> length l = min (nat (n - i)) (length (queue (pipes s p)))
    | Sleeping t \<Rightarrow> False | Panic e \<Rightarrow> True)"

lemma copy_end_Suc:
  assumes q: "queue (pipes s p) = c # queue (pipes s' p)" and i: "i < n"
    and e: "copy_end p n (i + 1) (bs @ [c]) s' res"
  shows "copy_end p n i bs s res"
proof (cases res)
  case (Ok r t)
  obtain l where l: "snd r = (bs @ [c]) @ l" "queue (pipes s' p) = l @ queue (pipes t p)" "pipe_inv (pipes t p)"
    "fst r = i + 1 + int (length l)" "length l = min (nat (n - (i + 1))) (length (queue (pipes s' p)))"
    using e unfolding Ok copy_end_def kres.case by blast
  have "length (c # l) = min (nat (n - i)) (length (queue (pipes s p)))" 
  proof -
    have "nat (n - i) = Suc (nat (n - (i + 1)))" using i by linarith
    then show ?thesis by (simp only: q length_Cons l(5) min_Suc_Suc)
  qed
  then show ?thesis
    unfolding copy_end_def Ok kres.case using q l(1-4) by (intro exI [of _ "c # l"]) simp
qed (use e in \<open>simp_all add: copy_end_def\<close>)

lemma piperead_copy_end:
  assumes "pipe_inv (pipes s p)" shows "copy_end p n i bs s (piperead_copy p n i bs s)"
  using assms
proof (induction p n i bs arbitrary: s rule: piperead_copy.induct)
  case (1 p n i bs s)
  let ?x = "pipes s p"
  note inv = "1.prems"
  show ?case
  proof (cases "i < n \<and> pi_nread ?x \<noteq> pi_nwrite ?x")
    case True
    let ?y = "?x\<lparr>pi_nread := u32 (pi_nread ?x + 1)\<rparr>" and ?c = "pi_data ?x (pi_nread ?x mod PIPESIZE)"
    let ?s = "s\<lparr>pipes := (pipes s)(p := ?y)\<rparr>"
    have e: "piperead_copy p n i bs s = piperead_copy p n (i + 1) (bs @ [?c]) ?s"
      using True by (subst piperead_copy.simps) (simp add: kern_defs set_pipe_def)
    have ne: "queue ?x \<noteq> []" using True pipe_empty [OF inv] by auto
    note g = pipe_get_queue [OF inv ne]
    have "copy_end p n (i + 1) (bs @ [?c]) ?s (piperead_copy p n (i + 1) (bs @ [?c]) ?s)"
      using True g(2) by (intro "1.IH") (simp_all add: fun_upd_def)
    then show ?thesis
      unfolding e by (rule copy_end_Suc [rotated 2]) (use g(1) True in simp_all)
  next
    case False
    let ?m = "kthen (wakeup (Ch_pipe_nwrite p)) (kthen (release_lk (LK_pipe p)) (kret (i, bs)))"
    have e: "piperead_copy p n i bs s = ?m s"
      using False by (subst piperead_copy.simps) (auto simp: kbind_def kget_def)
    have "queue ?x = [] \<or> n \<le> i" using False pipe_empty [OF inv] by auto
    then have z: "0 = min (nat (n - i)) (length (queue ?x))" by auto
    show ?thesis
    proof (cases "?m s")
      case (Ok r t)
      then have "r = (i, bs)" "pipes t p = pipes s p" by (rule wakeup_release, rule wakeup_release_state)
      then show ?thesis unfolding e Ok copy_end_def kres.case using inv z by (intro exI [of _ "[]"]) simp
    qed (simp_all add: e copy_end_def wakeup_release(2))
  qed
qed

lemma copy_not_Sleeping: "pipe_inv (pipes s p) \<Longrightarrow> piperead_copy p n 0 [] s \<noteq> Sleeping t"
  using piperead_copy_end [of s p n 0 "[]"] by (cases "piperead_copy p n 0 [] s") (simp_all add: copy_end_def)

text \<open>How a piece of \<open>piperead\<close> can end: nothing is taken, or the first bytes of the queue are.\<close>

lemma piperead_from_end:
  assumes inv: "pipe_inv (pipes s p)"
  shows "piperead_from p n s = Sleeping t \<Longrightarrow> pipes t p = pipes s p \<and> queue (pipes s p) = [] \<and> pi_writeopen (pipes s p)"
    "piperead_from p n s = Ok (k, out) t \<Longrightarrow> queue (pipes s p) = out @ queue (pipes t p) \<and> pipe_inv (pipes t p) \<and>
       (k = -1 \<and> out = [] \<and> pi_writeopen (pipes s p) \<or>
        k = int (length out) \<and> length out = min (nat n) (length (queue (pipes s p))) \<and> (out = [] \<longrightarrow> n \<le> 0 \<or> \<not> pi_writeopen (pipes s p)))"
proof -
  let ?x = "pipes s p"
  let ?m = "kbind killed (\<lambda>k. if k then kthen (release_lk (LK_pipe p)) (kret (-1 :: int, [] :: byte list))
      else sleep (Ch_pipe_nread p) (LK_pipe p))"
  have w: "piperead_from p n s = (if pi_nread ?x = pi_nwrite ?x \<and> pi_writeopen ?x then ?m s else piperead_copy p n 0 [] s)"
    by (simp add: piperead_from_def kbind_def kget_def)
  have m: "preserves (\<lambda>t. pipes t p = pipes s p) ?m" by (intro pres_rules)
  show "piperead_from p n s = Sleeping t \<Longrightarrow> pipes t p = pipes s p \<and> queue (pipes s p) = [] \<and> pi_writeopen (pipes s p)"
    using preservesD_sleep [OF m refl, of t] copy_not_Sleeping [OF inv, of n t] pipe_empty [OF inv]
    by (simp add: w split: if_splits)
  assume o: "piperead_from p n s = Ok (k, out) t"
  show "queue (pipes s p) = out @ queue (pipes t p) \<and> pipe_inv (pipes t p) \<and>
       (k = -1 \<and> out = [] \<and> pi_writeopen (pipes s p) \<or>
        k = int (length out) \<and> length out = min (nat n) (length (queue (pipes s p))) \<and> (out = [] \<longrightarrow> n \<le> 0 \<or> \<not> pi_writeopen (pipes s p)))"
  proof (cases "pi_nread ?x = pi_nwrite ?x \<and> pi_writeopen ?x")
    case True
    then have "?m s = Ok (k, out) t" using o by (simp add: w)
    moreover from this have "k = -1 \<and> out = []" by (auto simp: kbind_Ok kthen_def kret_def split: if_splits)
    ultimately show ?thesis using preservesD [OF m refl] inv True by simp
  next
    case False
    have e: "piperead_copy p n 0 [] s = Ok (k, out) t" using o unfolding w if_not_P [OF False] .
    obtain l where l: "snd (k, out) = [] @ l" "queue ?x = l @ queue (pipes t p)" "pipe_inv (pipes t p)"
      "fst (k, out) = 0 + int (length l)" "length l = min (nat (n - 0)) (length (queue ?x))"
      using piperead_copy_end [OF inv, of n 0 "[]"] unfolding e copy_end_def kres.case by blast
    have "queue ?x = out @ queue (pipes t p)" using l(1,2) by simp
    moreover have "k = int (length out)" "length out = min (nat n) (length (queue ?x))" using l(1,4,5) by simp_all
    moreover have "out = [] \<longrightarrow> n \<le> 0 \<or> \<not> pi_writeopen ?x"
      using l(1,5) False pipe_empty [OF inv] by (auto simp: min_def split: if_splits)
    ultimately show ?thesis using l(3) by blast
  qed
qed

text \<open>With the pipe lock as the only lock held and a current process, the calls do not panic.\<close>

lemma sleep_sleeps: "held s = {LK_pipe p} \<Longrightarrow> curproc s = Some c \<Longrightarrow> \<exists>t. sleep ch (LK_pipe p) s = Sleeping t"
  by (simp add: sleep_def kern_defs acquire_lk_def release_lk_def set_proc_def sched_def)

lemma wakeup_Ok: "LK_ptable \<notin> held s \<Longrightarrow> wakeup ch s = Ok () (s\<lparr>ptable := wakeup_tab ch (ptable s)\<rparr>)"
proof -
  assume "LK_ptable \<notin> held s"
  then have "wp (wakeup ch) (\<lambda>_ t. t = s\<lparr>ptable := wakeup_tab ch (ptable s)\<rparr>) s" by simp
  then show ?thesis by (auto simp del: wp_wakeup simp: wp_iff)
qed

lemma killed_Ok: "curproc s = Some c \<Longrightarrow> killed s = Ok (p_killed (ptable s c)) s"
  by (simp add: killed_def kern_defs)

lemma release_Ok: "l \<in> held s \<Longrightarrow> release_lk l s = Ok () (s\<lparr>held := held s - {l}\<rparr>)"
  by (simp add: release_lk_def)

lemma wakeup_then_sleep:
  assumes "held s = {LK_pipe p}" "curproc s = Some c"
  shows "\<exists>t. kthen (wakeup ch) (sleep ch' (LK_pipe p)) s = Sleeping t"
  using assms sleep_sleeps [of "s\<lparr>ptable := wakeup_tab ch (ptable s)\<rparr>" p c ch'] by (simp add: kern_defs wakeup_Ok)

lemma wakeup_then_release:
  "held s = {LK_pipe p} \<Longrightarrow> \<exists>t. kthen (wakeup ch) (kthen (release_lk (LK_pipe p)) (kret v)) s = Ok v t"
  by (simp add: kern_defs wakeup_Ok release_Ok)

lemma release_then: "held s = {LK_pipe p} \<Longrightarrow> \<exists>t. kthen (release_lk (LK_pipe p)) (kret v) s = Ok v t"
  by (simp add: kern_defs release_Ok)

lemma pipewrite_from_no_panic:
  "held s = {LK_pipe p} \<Longrightarrow> curproc s = Some c \<Longrightarrow> pipewrite_from p addr n i s \<noteq> Panic e"
proof (induction p addr n i arbitrary: s rule: pipewrite_from.induct)
  case (1 p addr n i)
  let ?x = "pipes s p"
  consider (fin) "\<not> i < n" | (full) "i < n" "pi_nwrite ?x = u32 (pi_nread ?x + PIPESIZE)"
    | (put) "i < n" "pi_nwrite ?x \<noteq> u32 (pi_nread ?x + PIPESIZE)" by blast
  then show ?case
  proof cases
    case fin
    then have "pipewrite_from p addr n i s = kthen (wakeup (Ch_pipe_nread p)) (kthen (release_lk (LK_pipe p)) (kret n)) s"
      by (subst pipewrite_from.simps) simp
    then show ?thesis using wakeup_then_release [OF "1.prems"(1), of "Ch_pipe_nread p" n] by auto
  next
    case full
    obtain t where t: "kthen (wakeup (Ch_pipe_nread p)) (sleep (Ch_pipe_nwrite p) (LK_pipe p)) s = (Sleeping t :: (_, int) kres)"
      by (rule exE [OF wakeup_then_sleep [OF "1.prems"]])
    obtain u where u: "kthen (release_lk (LK_pipe p)) (kret (-1 :: int)) s = Ok (-1) u"
      by (rule exE [OF release_then [OF "1.prems"(1)]])
    have "kbind killed (\<lambda>k. if \<not> pi_readopen ?x \<or> k then kthen (release_lk (LK_pipe p)) (kret (-1 :: int))
         else kthen (wakeup (Ch_pipe_nread p)) (sleep (Ch_pipe_nwrite p) (LK_pipe p))) s \<noteq> Panic e"
      unfolding kbind_def killed_Ok [OF "1.prems"(2)] kres.case using t u by (simp split: if_split)
    then show ?thesis using full by (subst pipewrite_from.simps) (simp add: kbind_def kget_def)
  next
    case put
    have "pipewrite_from p addr n i s = pipewrite_from p addr n (i + 1) (s\<lparr>pipes := (pipes s)(p := pipe_put (addr (nat i)) ?x)\<rparr>)"
      using put by (subst pipewrite_from.simps) (simp add: kern_defs set_pipe_def)
    then show ?thesis using "1.IH" [OF put(1) put(2)] "1.prems" by simp
  qed
qed

lemma piperead_copy_no_panic: "held s = {LK_pipe p} \<Longrightarrow> piperead_copy p n i bs s \<noteq> Panic e"
proof (induction p n i bs arbitrary: s rule: piperead_copy.induct)
  case (1 p n i bs)
  let ?x = "pipes s p"
  show ?case
  proof (cases "i < n \<and> pi_nread ?x \<noteq> pi_nwrite ?x")
    case True
    then have "piperead_copy p n i bs s = piperead_copy p n (i + 1) (bs @ [pi_data ?x (pi_nread ?x mod PIPESIZE)])
        (s\<lparr>pipes := (pipes s)(p := ?x\<lparr>pi_nread := u32 (pi_nread ?x + 1)\<rparr>)\<rparr>)"
      by (subst piperead_copy.simps) (simp add: kern_defs set_pipe_def)
    then show ?thesis using "1.IH" [OF True] "1.prems" by simp
  next
    case False
    then have "piperead_copy p n i bs s = kthen (wakeup (Ch_pipe_nwrite p)) (kthen (release_lk (LK_pipe p)) (kret (i, bs))) s"
      by (subst piperead_copy.simps) (auto simp: kbind_def kget_def)
    then show ?thesis using wakeup_then_release [OF "1.prems", of "Ch_pipe_nwrite p" "(i, bs)"] by auto
  qed
qed

lemma piperead_from_no_panic:
  assumes "held s = {LK_pipe p}" "curproc s = Some c" shows "piperead_from p n s \<noteq> Panic e"
proof -
  let ?x = "pipes s p"
  obtain t where t: "sleep (Ch_pipe_nread p) (LK_pipe p) s = (Sleeping t :: (_, int \<times> byte list) kres)"
    by (rule exE [OF sleep_sleeps [OF assms]])
  obtain u where u: "kthen (release_lk (LK_pipe p)) (kret (-1 :: int, [] :: byte list)) s = Ok (-1, []) u"
    by (rule exE [OF release_then [OF assms(1)]])
  have "kbind killed (\<lambda>k. if k then kthen (release_lk (LK_pipe p)) (kret (-1 :: int, [] :: byte list))
      else sleep (Ch_pipe_nread p) (LK_pipe p)) s \<noteq> Panic e"
    unfolding kbind_def killed_Ok [OF assms(2)] kres.case using t u by (simp split: if_split)
  then show ?thesis using piperead_copy_no_panic [OF assms(1), of n 0 "[]" e]
    by (simp add: piperead_from_def kbind_def kget_def)
qed

section \<open>Interleaved transfers\<close>

text \<open>
  A run of one pipe: any number of processes write and read in pieces, in any order, with other
  activity that leaves the buffer alone (\<open>pipeclose\<close>, scheduling) in between.  \<open>W\<close> is what the
  writers have put in, piece by piece, and \<open>R\<close> what the readers have been given.
\<close>

inductive pipe_run :: "nat \<Rightarrow> 'z pipe_st_scheme \<Rightarrow> byte list \<Rightarrow> byte list \<Rightarrow> 'z pipe_st_scheme \<Rightarrow> bool" for p s0 where
  start: "pipe_run p s0 [] [] s0"
| write_piece: "pipe_run p s0 W R s \<Longrightarrow> pipewrite_from p addr n i s = Ok r t \<or> pipewrite_from p addr n i s = Sleeping t \<Longrightarrow>
    k = ring_count (pi_nwrite (pipes s p)) (pi_nwrite (pipes t p)) \<Longrightarrow> pipe_run p s0 (W @ map (\<lambda>j. addr (nat (i + int j))) [0..<k]) R t"
| read_piece: "pipe_run p s0 W R s \<Longrightarrow> piperead_from p n s = Ok (k, out) t \<Longrightarrow> pipe_run p s0 W (R @ out) t"
| read_wait: "pipe_run p s0 W R s \<Longrightarrow> piperead_from p n s = Sleeping t \<Longrightarrow> pipe_run p s0 W R t"
| other: "pipe_run p s0 W R s \<Longrightarrow> pi_data (pipes t p) = pi_data (pipes s p) \<Longrightarrow> pi_nread (pipes t p) = pi_nread (pipes s p) \<Longrightarrow>
    pi_nwrite (pipes t p) = pi_nwrite (pipes s p) \<Longrightarrow> pipe_run p s0 W R t"

lemma wrote_count:
  assumes "pipe_inv x" "wrote addr i x k y" shows "ring_count (pi_nwrite x) (pi_nwrite y) = k"
proof -
  note W = assms(2) [unfolded wrote_def]
  have "pipe_inv y" using W by simp
  then have "length (queue y) \<le> PIPESIZE" by (simp add: pipe_inv_def queue_length)
  moreover have "length (queue y) = length (queue x) + k" using W by simp
  ultimately have "k < 2 ^ 32" by (simp add: PIPESIZE_def)
  then show ?thesis using W assms(1) ring_full [of "pi_nwrite x" "pi_nwrite y" k] by (simp add: pipe_inv_def)
qed

lemma pipe_run_queue:
  assumes "pipe_run p s W R t" "pipe_inv (pipes s p)"
  shows "pipe_inv (pipes t p) \<and> queue (pipes s p) @ W = R @ queue (pipes t p)"
  using assms
proof (induction rule: pipe_run.induct)
  case (write_piece W R u addr n i r t k)
  have inv: "pipe_inv (pipes u p)" and q: "queue (pipes s p) @ W = R @ queue (pipes u p)" using write_piece by auto
  obtain k' where w: "wrote addr i (pipes u p) k' (pipes t p)"
    using pipewrite_from_end [OF inv, of addr n i] write_piece.hyps(2) by (auto simp: write_end_def)
  then have "k' = k" using wrote_count [OF inv w] write_piece.hyps(3) by simp
  then show ?case using w q by (simp add: wrote_def)
next
  case (read_piece W R u n k out t)
  then show ?case using piperead_from_end(2) [of u p n k out t] by simp
next
  case (read_wait W R u n t)
  then show ?case using piperead_from_end(1) [of u p n t] by simp
next
  case (other W R u t)
  then show ?case by (simp add: pipe_inv_def queue_def)
qed simp

section \<open>Properties\<close>

text \<open>C17. A pipe is a first-in first-out channel: however the pieces of concurrent \<open>pipewrite\<close> and
  \<open>piperead\<close> calls are interleaved, and through every wrap of the ring and of its 32-bit counters, what the
  readers have received followed by what is still in the buffer is exactly what was in the buffer at the
  start followed by what the writers have put in; and the buffer never holds more than \<open>PIPESIZE\<close> bytes.\<close>

theorem pipe_fifo:
  assumes "pipe_run p s W R t" and "pipe_inv (pipes s p)"
  shows "queue (pipes s p) @ W = R @ queue (pipes t p) \<and> pipe_inv (pipes t p) \<and> length (queue (pipes t p)) \<le> PIPESIZE"
  using pipe_run_queue [OF assms] by (auto simp: pipe_inv_def queue_length)


text \<open>An empty pipe in page 5, with its lock held, before and after two bytes are written.\<close>

definition wit_pipe :: pipe where
  "wit_pipe = \<lparr>pi_data = (\<lambda>_. 0), pi_nread = 4294967295, pi_nwrite = 4294967295, pi_readopen = True, pi_writeopen = True\<rparr>"

definition wit_pipe_st :: pipe_st where
  "wit_pipe_st = (mem_st.extend wit_mem (pipe_st.fields (\<lambda>_. wit_pipe)))\<lparr>held := {LK_pipe 5}, curproc := Some 0\<rparr>"

definition wit_pipe_full :: pipe_st where
  "wit_pipe_full = wit_pipe_st\<lparr>pipes := (\<lambda>_. wit_pipe)(5 := pipe_put 105 (pipe_put 104 wit_pipe)), held := {},
     ptable := wakeup_tab (Ch_pipe_nread 5) (ptable wit_pipe_st)\<rparr>"

lemma wit_pipe_st: "pipes wit_pipe_st = (\<lambda>_. wit_pipe)" "held wit_pipe_st = {LK_pipe 5}" "pipe_inv wit_pipe" "queue wit_pipe = []" "curproc wit_pipe_st = Some 0"
  by (simp_all add: wit_pipe_st_def mem_st.extend_def pipe_st.fields_def pipe_inv_def wit_pipe_def PIPESIZE_def queue_def ring_items_def)

lemma wit_pipe_write: "pipewrite_from 5 (cstr [104, 105]) 2 0 wit_pipe_st = Ok 2 wit_pipe_full"
proof -
  have "wp (pipewrite_from 5 (cstr [104, 105]) 2 0) (\<lambda>r t. r = 2 \<and> t = wit_pipe_full) wit_pipe_st"
    by (simp add: pipewrite_from.simps set_pipe_def wit_pipe_st wit_pipe_full_def)
      (simp add: wit_pipe_def pipe_put_def PIPESIZE_def u32_def cstr_def)
  then show ?thesis by (auto simp: wp_iff)
qed

lemma wit_pipe_read: "\<exists>v. piperead_from 5 1 (wit_pipe_full\<lparr>held := {LK_pipe 5}\<rparr>) = Ok (1, [104]) v"
proof -
  have "wp (piperead_from 5 1) (\<lambda>r _. r = (1, [104])) (wit_pipe_full\<lparr>held := {LK_pipe 5}\<rparr>)"
    by (simp add: piperead_from_def piperead_copy.simps set_pipe_def wit_pipe_full_def)
      (simp add: wit_pipe_def pipe_put_def PIPESIZE_def u32_def)
  then show ?thesis by (auto simp: wp_iff)
qed

theorem pipe_fifo_witness: "\<exists>v. pipe_run 5 wit_pipe_st [104, 105] [104] v \<and> queue (pipes v 5) = [105]"
proof -
  obtain v where v: "piperead_from 5 1 (wit_pipe_full\<lparr>held := {LK_pipe 5}\<rparr>) = Ok (1, [104]) v" using wit_pipe_read by blast
  have c: "ring_count (pi_nwrite (pipes wit_pipe_st 5)) (pi_nwrite (pipes wit_pipe_full 5)) = 2"
    by (simp add: wit_pipe_st wit_pipe_full_def pipe_put_def wit_pipe_def ring_count_def u32_def)
  have "pipe_run 5 wit_pipe_st ([] @ map (\<lambda>j. cstr [104, 105] (nat (0 + int j))) [0..<2]) [] wit_pipe_full"
    by (rule pipe_run.write_piece [OF pipe_run.start, where n = 2 and r = 2]) (simp_all add: wit_pipe_write c)
  then have "pipe_run 5 wit_pipe_st [104, 105] [] wit_pipe_full" by (simp add: cstr_def upt_rec)
  then have "pipe_run 5 wit_pipe_st [104, 105] [] (wit_pipe_full\<lparr>held := {LK_pipe 5}\<rparr>)"
    by (rule pipe_run.other) simp_all
  from pipe_run.read_piece [OF this v] have r: "pipe_run 5 wit_pipe_st [104, 105] [104] v" by simp
  then show ?thesis using pipe_fifo [OF r] wit_pipe_st by auto
qed


end
