(* ===== verification/File.thy ===== *)
theory File
  imports Pipe
begin

text \<open>
  Open files (\<open>file.c\<close>, and \<open>pipealloc\<close> of \<open>pipe.c\<close>): the file table, reference counts, and reading,
  writing and closing through a \<open>struct file\<close>.

  \<open>file_st\<close> extends the state by \<open>ftable.file\<close>; a file pointer is an index into it.  User buffers
  are an array on the way in and a byte list on the way out.
\<close>

section \<open>Operations\<close>

definition NFILE :: nat where "NFILE = 100"

datatype ftype = FD_NONE | FD_PIPE | FD_INODE

record file_rec =
  f_type :: ftype
  f_ref :: int
  f_readable :: bool
  f_writable :: bool
  f_pipe :: nat
  f_ip :: nat
  f_off :: nat

record file_st = pipe_st +
  files :: "nat \<Rightarrow> file_rec"

type_synonym 'z fdevsw = "('z file_st_ext pipe_st_ext mem_st_ext) devsw"

definition set_file :: "nat \<Rightarrow> (file_rec \<Rightarrow> file_rec) \<Rightarrow> ('z file_st_scheme, unit) kern" where
  "set_file f g = kmod (\<lambda>s. s\<lparr>files := (files s)(f := g (files s f))\<rparr>)"

fun filealloc_scan :: "(nat \<Rightarrow> file_rec) \<Rightarrow> nat list \<Rightarrow> nat option" where
  "filealloc_scan fs [] = None"
| "filealloc_scan fs (f # l) = (if f_ref (fs f) = 0 then Some f else filealloc_scan fs l)"

definition filealloc :: "('z file_st_scheme, nat option) kern" where
  "filealloc =
    kthen (acquire_lk LK_ftable) (
    kbind (kget (\<lambda>s. filealloc_scan (files s) [0..<NFILE])) (\<lambda>r.
    case r of
      Some f \<Rightarrow>
        kthen (set_file f (\<lambda>x. x\<lparr>f_ref := 1\<rparr>)) (
        kthen (release_lk LK_ftable) (
        kret (Some f)))
    | None \<Rightarrow>
        kthen (release_lk LK_ftable) (
        kret None)))"

definition filedup :: "nat \<Rightarrow> ('z file_st_scheme, nat) kern" where
  "filedup f =
    kthen (acquire_lk LK_ftable) (
    kbind (kget (\<lambda>s. f_ref (files s f))) (\<lambda>r.
    if r < 1 then kpanic ''filedup''
    else
      kthen (set_file f (\<lambda>x. x\<lparr>f_ref := f_ref x + 1\<rparr>)) (
      kthen (release_lk LK_ftable) (
      kret f))))"

definition fileclose :: "nat \<Rightarrow> ('z file_st_scheme, unit) kern" where
  "fileclose f =
    kthen (acquire_lk LK_ftable) (
    kbind (kget (\<lambda>s. f_ref (files s f))) (\<lambda>r.
    if r < 1 then kpanic ''fileclose''
    else
      kthen (set_file f (\<lambda>x. x\<lparr>f_ref := f_ref x - 1\<rparr>)) (
      if r - 1 > 0 then release_lk LK_ftable
      else
        kbind (kget (\<lambda>s. files s f)) (\<lambda>ff.
        kthen (set_file f (\<lambda>x. x\<lparr>f_ref := 0, f_type := FD_NONE\<rparr>)) (
        kthen (release_lk LK_ftable) (
        if f_type ff = FD_PIPE then pipeclose (f_pipe ff) (f_writable ff)
        else if f_type ff = FD_INODE then
          kthen begin_trans (
          kthen (iput (f_ip ff)) (
          commit_trans))
        else kret ()))))))"

text \<open>The label \<open>bad\<close> of \<open>pipealloc\<close>, where the pointers may be null.\<close>

definition pipealloc_bad :: "nat option \<Rightarrow> nat option \<Rightarrow> ('z file_st_scheme, (nat \<times> nat) option) kern" where
  "pipealloc_bad f0 f1 =
    kthen (case f0 of Some f \<Rightarrow> fileclose f | None \<Rightarrow> kret ()) (
    kthen (case f1 of Some f \<Rightarrow> fileclose f | None \<Rightarrow> kret ()) (
    kret None))"

text \<open>The two files, or \<open>None\<close> for the result -1.\<close>

definition pipealloc :: "('z file_st_scheme, (nat \<times> nat) option) kern" where
  "pipealloc =
    kbind filealloc (\<lambda>r0.
    case r0 of None \<Rightarrow> pipealloc_bad None None
    | Some f0 \<Rightarrow>
      kbind filealloc (\<lambda>r1.
      case r1 of None \<Rightarrow> pipealloc_bad (Some f0) None
      | Some f1 \<Rightarrow>
        kbind kalloc (\<lambda>p.
        if p = 0 then pipealloc_bad (Some f0) (Some f1)
        else
          kthen (set_pipe p (\<lambda>x. x\<lparr>pi_readopen := True, pi_writeopen := True, pi_nwrite := 0, pi_nread := 0\<rparr>)) (
          kthen (set_file f0 (\<lambda>x. x\<lparr>f_type := FD_PIPE, f_readable := True, f_writable := False, f_pipe := p\<rparr>)) (
          kthen (set_file f1 (\<lambda>x. x\<lparr>f_type := FD_PIPE, f_readable := False, f_writable := True, f_pipe := p\<rparr>)) (
          kret (Some (f0, f1))))))))"

definition filestat :: "nat \<Rightarrow> ('z file_st_scheme, stat option) kern" where
  "filestat f =
    kbind (kget (\<lambda>s. files s f)) (\<lambda>x.
    if f_type x = FD_INODE then
      kthen (ilock (Some (f_ip x))) (
      kbind (stati (f_ip x)) (\<lambda>st.
      kthen (iunlock (Some (f_ip x))) (
      kret (Some st))))
    else kret None)"

text \<open>An \<open>int\<close> passed as \<open>uint\<close>.\<close>

definition as_uint :: "int \<Rightarrow> nat" where
  "as_uint n = nat (n mod 4294967296)"

definition fileread :: "'z fdevsw \<Rightarrow> nat \<Rightarrow> int \<Rightarrow> ('z file_st_scheme, int \<times> byte list) kern" where
  "fileread dv f n =
    kbind (kget (\<lambda>s. files s f)) (\<lambda>x.
    if \<not> f_readable x then kret (-1, [])
    else case f_type x of
      FD_PIPE \<Rightarrow> piperead (f_pipe x) n
    | FD_INODE \<Rightarrow>
        kthen (ilock (Some (f_ip x))) (
        kbind (readi dv (f_ip x) (f_off x) (as_uint n)) (\<lambda>(r, bs).
        kthen (kwhen (r > 0) (set_file f (\<lambda>x. x\<lparr>f_off := u32 (f_off x + nat r)\<rparr>))) (
        kthen (iunlock (Some (f_ip x))) (
        kret (r, bs)))))
    | FD_NONE \<Rightarrow> kpanic ''fileread'')"

definition WRITE_MAX :: int where
  "WRITE_MAX = (int LOGSIZE - 1 - 1 - 2) div 2 * 512"

function filewrite_from :: "'z fdevsw \<Rightarrow> nat \<Rightarrow> bytes \<Rightarrow> int \<Rightarrow> int \<Rightarrow> ('z file_st_scheme, int) kern" where
  "filewrite_from dv f addr n i =
    (if i < n then
       kthen begin_trans (
       kbind (kget (\<lambda>s. files s f)) (\<lambda>x.
       kthen (ilock (Some (f_ip x))) (
       kbind (writei dv (f_ip x) (\<lambda>k. addr (nat i + k)) (f_off x) (nat (min (n - i) WRITE_MAX))) (\<lambda>r.
       kthen (kwhen (r > 0) (set_file f (\<lambda>x. x\<lparr>f_off := u32 (f_off x + nat r)\<rparr>))) (
       kthen (iunlock (Some (f_ip x))) (
       kthen commit_trans (
       if r < 0 then kret (if i = n then n else -1)
       else if r \<noteq> min (n - i) WRITE_MAX then kpanic ''short filewrite''
       else filewrite_from dv f addr n (i + min (n - i) WRITE_MAX))))))))
     else kret (if i = n then n else -1))"
  by pat_completeness auto

termination
  by (relation "measure (\<lambda>(dv, f, addr, n, i). nat (n - i))") (auto simp: WRITE_MAX_def LOGSIZE_def)

declare filewrite_from.simps [simp del]

definition filewrite :: "'z fdevsw \<Rightarrow> nat \<Rightarrow> bytes \<Rightarrow> int \<Rightarrow> ('z file_st_scheme, int) kern" where
  "filewrite dv f addr n =
    kbind (kget (\<lambda>s. files s f)) (\<lambda>x.
    if \<not> f_writable x then kret (-1)
    else case f_type x of
      FD_PIPE \<Rightarrow> pipewrite (f_pipe x) addr n
    | FD_INODE \<Rightarrow> filewrite_from dv f addr n 0
    | FD_NONE \<Rightarrow> kpanic ''filewrite'')"

end
