(* ===== verification/Proc.thy ===== *)
theory Proc
  imports File
begin

text \<open>
  Process creation and termination (\<open>proc.c\<close>): \<open>allocproc\<close>, \<open>userinit\<close>, \<open>growproc\<close>, \<open>fork\<close>, \<open>exit\<close>,
  \<open>wait\<close>.  The scheduling primitives are in theory \<open>Sched\<close>.

  The trap frame is a field of the process record; the saved context below it on the kernel stack
  (which starts a new process in \<open>forkret\<close>) is not part of the state.  A process pointer is an index
  into the table and the null pointer is \<open>None\<close>.
\<close>

section \<open>Operations\<close>

definition SEG_UCODE :: nat where "SEG_UCODE = 4"
definition SEG_UDATA :: nat where "SEG_UDATA = 5"
definition DPL_USER :: nat where "DPL_USER = 3"
definition FL_IF :: nat where "FL_IF = 512"

fun unused_scan :: "(nat \<Rightarrow> proc) \<Rightarrow> nat list \<Rightarrow> nat option" where
  "unused_scan pt [] = None"
| "unused_scan pt (p # l) = (if p_state (pt p) = UNUSED then Some p else unused_scan pt l)"

definition allocproc :: "('z mem_st_scheme, nat option) kern" where
  "allocproc =
    kthen (acquire_lk LK_ptable) (
    kbind (kget (\<lambda>s. unused_scan (ptable s) [0..<NPROC])) (\<lambda>r.
    case r of
      None \<Rightarrow>
        kthen (release_lk LK_ptable) (
        kret None)
    | Some p \<Rightarrow>
        kthen (set_proc p (\<lambda>x. x\<lparr>p_state := EMBRYO\<rparr>)) (
        kbind (kget nextpid) (\<lambda>pid.
        kthen (set_proc p (\<lambda>x. x\<lparr>p_pid := pid\<rparr>)) (
        kthen (kmod (\<lambda>s. s\<lparr>nextpid := s32 (pid + 1)\<rparr>)) (
        kthen (release_lk LK_ptable) (
        kbind kalloc (\<lambda>st.
        kthen (set_proc p (\<lambda>x. x\<lparr>p_kstack := st\<rparr>)) (
        if st = 0 then
          kthen (set_proc p (\<lambda>x. x\<lparr>p_state := UNUSED\<rparr>)) (
          kret None)
        else kret (Some p)))))))))) "

definition zero_tf :: trapframe where
  "zero_tf = \<lparr>tf_eax = 0, tf_ebx = 0, tf_ecx = 0, tf_edx = 0, tf_esi = 0, tf_edi = 0, tf_ebp = 0, tf_gs = 0, tf_fs = 0,
     tf_es = 0, tf_ds = 0, tf_trapno = 0, tf_err = 0, tf_eip = 0, tf_cs = 0, tf_eflags = 0, tf_esp = 0, tf_ss = 0\<rparr>"

definition user_tf :: trapframe where
  "user_tf = zero_tf\<lparr>tf_cs := SEG_UCODE * 8 + DPL_USER, tf_ds := SEG_UDATA * 8 + DPL_USER, tf_es := SEG_UDATA * 8 + DPL_USER,
     tf_ss := SEG_UDATA * 8 + DPL_USER, tf_eflags := FL_IF, tf_esp := PGSIZE, tf_eip := 0\<rparr>"

text \<open>\<open>init\<close> is the linked-in image of \<open>initcode.S\<close>.\<close>

definition userinit :: "('z mem_st_ext) devsw \<Rightarrow> byte list \<Rightarrow> ('z mem_st_scheme, unit) kern" where
  "userinit dv init =
    kbind allocproc (\<lambda>r.
    kthen (kmod (\<lambda>s. s\<lparr>initproc := r\<rparr>)) (
    case r of None \<Rightarrow> kpanic ''trap''
    | Some p \<Rightarrow>
      kbind setupkvm (\<lambda>d.
      kthen (set_proc p (\<lambda>x. x\<lparr>p_pgdir := d\<rparr>)) (
      if d = 0 then kpanic ''userinit: out of memory?''
      else
        kthen (inituvm d init) (
        kthen (set_proc p (\<lambda>x. x\<lparr>p_sz := PGSIZE, p_tf := user_tf, p_name := ''initcode''\<rparr>)) (
        kbind (namei dv [slash]) (\<lambda>cwd.
        set_proc p (\<lambda>x. x\<lparr>p_cwd := cwd, p_state := RUNNABLE\<rparr>))))))))"

definition growproc :: "int \<Rightarrow> ('z mem_st_scheme, int) kern" where
  "growproc n =
    kbind (kget curproc) (\<lambda>cp.
    case cp of None \<Rightarrow> kpanic ''trap''
    | Some c \<Rightarrow>
      kbind (kget (\<lambda>s. ptable s c)) (\<lambda>x.
      kbind
        (if n > 0 then allocuvm (p_pgdir x) (p_sz x) (u32 (p_sz x + nat n))
         else if n < 0 then deallocuvm (p_pgdir x) (p_sz x) (as_uint (int (p_sz x) + n))
         else kret (p_sz x)) (\<lambda>sz.
      if n \<noteq> 0 \<and> sz = 0 then kret (-1)
      else
        kthen (set_proc c (\<lambda>x. x\<lparr>p_sz := sz\<rparr>)) (
        kthen (switchuvm c) (
        kret 0)))))"

text \<open>The copy of the open files in \<open>fork\<close>.\<close>

fun fork_files :: "nat \<Rightarrow> nat \<Rightarrow> nat list \<Rightarrow> ('z file_st_scheme, unit) kern" where
  "fork_files c np [] = kret ()"
| "fork_files c np (i # l) =
    kbind (kget (\<lambda>s. p_ofile (ptable s c) i)) (\<lambda>fo.
    kthen (
      case fo of None \<Rightarrow> kret ()
      | Some f \<Rightarrow>
        kbind (filedup f) (\<lambda>g.
        set_proc np (\<lambda>x. x\<lparr>p_ofile := (p_ofile x)(i := Some g)\<rparr>))) (
    fork_files c np l))"

definition fork :: "('z file_st_scheme, int) kern" where
  "fork =
    kbind allocproc (\<lambda>r.
    case r of None \<Rightarrow> kret (-1)
    | Some np \<Rightarrow>
      kbind (kget curproc) (\<lambda>cp.
      case cp of None \<Rightarrow> kpanic ''trap''
      | Some c \<Rightarrow>
        kbind (kget (\<lambda>s. ptable s c)) (\<lambda>x.
        kbind (copyuvm (p_pgdir x) (p_sz x)) (\<lambda>d.
        kthen (set_proc np (\<lambda>y. y\<lparr>p_pgdir := d\<rparr>)) (
        if d = 0 then
          kbind (kget (\<lambda>s. p_kstack (ptable s np))) (\<lambda>st.
          kthen (kfree st) (
          kthen (set_proc np (\<lambda>y. y\<lparr>p_kstack := 0, p_state := UNUSED\<rparr>)) (
          kret (-1))))
        else
          kthen (set_proc np (\<lambda>y. y\<lparr>p_sz := p_sz x, p_parent := Some c, p_tf := (p_tf x)\<lparr>tf_eax := 0\<rparr>\<rparr>)) (
          kthen (fork_files c np [0..<NOFILE]) (
          case p_cwd x of None \<Rightarrow> kpanic ''trap''
          | Some ip \<Rightarrow>
            kbind (idup ip) (\<lambda>cwd.
            kthen (set_proc np (\<lambda>y. y\<lparr>p_cwd := Some cwd\<rparr>)) (
            kbind (kget (\<lambda>s. p_pid (ptable s np))) (\<lambda>pid.
            kthen (set_proc np (\<lambda>y. y\<lparr>p_state := RUNNABLE, p_name := p_name x\<rparr>)) (
            kret pid)))))))))))"

fun exit_files :: "nat \<Rightarrow> nat list \<Rightarrow> ('z file_st_scheme, unit) kern" where
  "exit_files c [] = kret ()"
| "exit_files c (fd # l) =
    kbind (kget (\<lambda>s. p_ofile (ptable s c) fd)) (\<lambda>fo.
    kthen (
      case fo of None \<Rightarrow> kret ()
      | Some f \<Rightarrow>
        kthen (fileclose f) (
        set_proc c (\<lambda>x. x\<lparr>p_ofile := (p_ofile x)(fd := None)\<rparr>))) (
    exit_files c l))"

text \<open>The children of \<open>c\<close> are given to \<open>init\<close>; \<open>Ch_proc\<close> is the address of a process as a sleep channel.\<close>

fun exit_children :: "nat \<Rightarrow> nat option \<Rightarrow> nat list \<Rightarrow> (nat \<Rightarrow> proc) \<Rightarrow> (nat \<Rightarrow> proc)" where
  "exit_children c ini [] pt = pt"
| "exit_children c ini (p # l) pt =
    exit_children c ini l
      (if p_parent (pt p) = Some c then
         let pt = pt(p := (pt p)\<lparr>p_parent := ini\<rparr>)
         in case ini of Some i \<Rightarrow> if p_state (pt p) = ZOMBIE then wakeup1_from (Ch_proc i) [0..<NPROC] pt else pt | None \<Rightarrow> pt
       else pt)"

definition exit :: "('z file_st_scheme, 'a) kern" where
  "exit =
    kbind (kget curproc) (\<lambda>cp.
    kbind (kget initproc) (\<lambda>ini.
    if cp = ini then kpanic ''init exiting''
    else case cp of None \<Rightarrow> kpanic ''trap''
    | Some c \<Rightarrow>
      kthen (exit_files c [0..<NOFILE]) (
      kbind (kget (\<lambda>s. p_cwd (ptable s c))) (\<lambda>cwd.
      case cwd of None \<Rightarrow> kpanic ''trap''
      | Some ip \<Rightarrow>
        kthen (iput ip) (
        kthen (set_proc c (\<lambda>x. x\<lparr>p_cwd := None\<rparr>)) (
        kthen (acquire_lk LK_ptable) (
        kbind (kget (\<lambda>s. p_parent (ptable s c))) (\<lambda>par.
        kthen (case par of Some q \<Rightarrow> wakeup1 (Ch_proc q) | None \<Rightarrow> kret ()) (
        kthen (kmod (\<lambda>s. s\<lparr>ptable := exit_children c ini [0..<NPROC] (ptable s)\<rparr>)) (
        kthen (set_proc c (\<lambda>x. x\<lparr>p_state := ZOMBIE\<rparr>)) (
        kthen (sched :: (_, unit) kern) (
        kpanic ''zombie exit''))))))))))))"

text \<open>The scan of \<open>wait\<close>: the first zombie child, or whether there is a child at all.\<close>

fun wait_scan :: "nat \<Rightarrow> (nat \<Rightarrow> proc) \<Rightarrow> nat list \<Rightarrow> bool \<Rightarrow> nat + bool" where
  "wait_scan c pt [] havekids = Inr havekids"
| "wait_scan c pt (p # l) havekids =
    (if p_parent (pt p) \<noteq> Some c then wait_scan c pt l havekids
     else if p_state (pt p) = ZOMBIE then Inl p
     else wait_scan c pt l True)"

definition wait :: "('z mem_st_scheme, int) kern" where
  "wait =
    kthen (acquire_lk LK_ptable) (
    kbind (kget curproc) (\<lambda>cp.
    case cp of None \<Rightarrow> kpanic ''trap''
    | Some c \<Rightarrow>
      kbind (kget (\<lambda>s. wait_scan c (ptable s) [0..<NPROC] False)) (\<lambda>r.
      case r of
        Inl p \<Rightarrow>
          kbind (kget (\<lambda>s. ptable s p)) (\<lambda>x.
          kthen (kfree (p_kstack x)) (
          kthen (set_proc p (\<lambda>y. y\<lparr>p_kstack := 0\<rparr>)) (
          kthen (freevm (p_pgdir x)) (
          kthen (set_proc p (\<lambda>y. y\<lparr>p_state := UNUSED, p_pid := 0, p_parent := None, p_name := [], p_killed := False\<rparr>)) (
          kthen (release_lk LK_ptable) (
          kret (p_pid x)))))))
      | Inr havekids \<Rightarrow>
          kbind (kget (\<lambda>s. p_killed (ptable s c))) (\<lambda>k.
          if \<not> havekids \<or> k then
            kthen (release_lk LK_ptable) (
            kret (-1))
          else sleep (Ch_proc c) LK_ptable))))"

end
