(* ===== verification/Uaccess.thy ===== *)
theory Uaccess
  imports Proc
begin

unbundle bit_operations_syntax

text \<open>
  The kernel's access to the memory and the system call arguments of the current process
  (\<open>syscall.c\<close>: \<open>fetchint\<close>, \<open>fetchstr\<close>, \<open>argint\<close>, \<open>argptr\<close>, \<open>argstr\<close>; \<open>sysfile.c\<close>: \<open>argfd\<close>, \<open>fdalloc\<close>)
  and \<open>exec\<close> (\<open>exec.c\<close>).

  The code dereferences user pointers directly, through the page table of the process; the model
  reads and writes the page it finds there, and a page that is not present is a fault in kernel mode.
  A fetched string is the list of its bytes.  A result \<open>None\<close> stands for -1.
\<close>

section \<open>User memory\<close>

definition uva_pa :: "bytes \<Rightarrow> nat \<Rightarrow> nat \<Rightarrow> nat option" where
  "uva_pa m d va = map_option (\<lambda>e. PTE_ADDR e + va mod PGSIZE) (pte_val m d va)"

definition myproc :: "('z kst_scheme, nat) kern" where
  "myproc = kbind (kget curproc) (\<lambda>cp. case cp of None \<Rightarrow> kpanic ''trap'' | Some c \<Rightarrow> kret c)"

definition uload :: "nat \<Rightarrow> ('z mem_st_scheme, byte) kern" where
  "uload va =
    kbind myproc (\<lambda>c.
    kbind (kget (\<lambda>s. map_option (phys s) (uva_pa (phys s) (p_pgdir (ptable s c)) va))) (\<lambda>r.
    case r of None \<Rightarrow> kpanic ''trap'' | Some b \<Rightarrow> kret b))"

definition uload32 :: "nat \<Rightarrow> ('z mem_st_scheme, nat) kern" where
  "uload32 va =
    kbind (uload va) (\<lambda>b0.
    kbind (uload (va + 1)) (\<lambda>b1.
    kbind (uload (va + 2)) (\<lambda>b2.
    kbind (uload (va + 3)) (\<lambda>b3.
    kret (unat b0 + 256 * unat b1 + 65536 * unat b2 + 16777216 * unat b3)))))"

text \<open>The user bytes from \<open>va\<close> on as the kernel sees them, and bytes stored there.\<close>

definition ubytes :: "bytes \<Rightarrow> nat \<Rightarrow> nat \<Rightarrow> bytes" where
  "ubytes m d va = (\<lambda>k. case uva_pa m d (va + k) of Some pa \<Rightarrow> m pa | None \<Rightarrow> 0)"

fun uput :: "nat \<Rightarrow> nat \<Rightarrow> byte list \<Rightarrow> bytes \<Rightarrow> bytes" where
  "uput d va [] m = m"
| "uput d va (b # bs) m = uput d (va + 1) bs (case uva_pa m d va of Some pa \<Rightarrow> m(pa := b) | None \<Rightarrow> m)"

definition ustore :: "nat \<Rightarrow> byte list \<Rightarrow> ('z mem_st_scheme, unit) kern" where
  "ustore va bs = kbind myproc (\<lambda>c. kmod (\<lambda>s. s\<lparr>phys := uput (p_pgdir (ptable s c)) va bs (phys s)\<rparr>))"

definition ubuf :: "nat \<Rightarrow> ('z mem_st_scheme, bytes) kern" where
  "ubuf va = kbind myproc (\<lambda>c. kget (\<lambda>s. ubytes (phys s) (p_pgdir (ptable s c)) va))"

definition as_int :: "nat \<Rightarrow> int" where
  "as_int v = s32 (int v)"

section \<open>Arguments\<close>

definition fetchint :: "nat \<Rightarrow> ('z mem_st_scheme, int option) kern" where
  "fetchint addr =
    kbind myproc (\<lambda>c.
    kbind (kget (\<lambda>s. p_sz (ptable s c))) (\<lambda>sz.
    if addr \<ge> sz \<or> u32 (addr + 4) > sz then kret None
    else kbind (uload32 addr) (\<lambda>v. kret (Some (as_int v)))))"

function fetchstr_from :: "nat \<Rightarrow> nat \<Rightarrow> byte list \<Rightarrow> ('z mem_st_scheme, byte list option) kern" where
  "fetchstr_from s ep acc =
    (if s < ep then
       kbind (uload s) (\<lambda>b.
       if b = 0 then kret (Some acc)
       else fetchstr_from (s + 1) ep (acc @ [b]))
     else kret None)"
  by pat_completeness auto

termination
  by (relation "measure (\<lambda>(s, ep, acc). ep - s)") auto

declare fetchstr_from.simps [simp del]

definition fetchstr :: "nat \<Rightarrow> ('z mem_st_scheme, byte list option) kern" where
  "fetchstr addr =
    kbind myproc (\<lambda>c.
    kbind (kget (\<lambda>s. p_sz (ptable s c))) (\<lambda>sz.
    if addr \<ge> sz then kret None
    else fetchstr_from addr sz []))"

definition argint :: "nat \<Rightarrow> ('z mem_st_scheme, int option) kern" where
  "argint n =
    kbind myproc (\<lambda>c.
    kbind (kget (\<lambda>s. tf_esp (p_tf (ptable s c)))) (\<lambda>esp.
    fetchint (u32 (esp + 4 + 4 * n))))"

definition argptr :: "nat \<Rightarrow> int \<Rightarrow> ('z mem_st_scheme, nat option) kern" where
  "argptr n sz =
    kbind (argint n) (\<lambda>r.
    case r of None \<Rightarrow> kret None
    | Some i \<Rightarrow>
      kbind myproc (\<lambda>c.
      kbind (kget (\<lambda>s. p_sz (ptable s c))) (\<lambda>psz.
      if as_uint i \<ge> psz \<or> u32 (as_uint i + as_uint sz) > psz then kret None
      else kret (Some (as_uint i)))))"

definition argstr :: "nat \<Rightarrow> ('z mem_st_scheme, byte list option) kern" where
  "argstr n =
    kbind (argint n) (\<lambda>r.
    case r of None \<Rightarrow> kret None
    | Some addr \<Rightarrow> fetchstr (as_uint addr))"

definition argfd :: "nat \<Rightarrow> ('z mem_st_scheme, (nat \<times> nat) option) kern" where
  "argfd n =
    kbind (argint n) (\<lambda>r.
    case r of None \<Rightarrow> kret None
    | Some fd \<Rightarrow>
      if fd < 0 \<or> fd \<ge> int NOFILE then kret None
      else
        kbind myproc (\<lambda>c.
        kbind (kget (\<lambda>s. p_ofile (ptable s c) (nat fd))) (\<lambda>fo.
        case fo of None \<Rightarrow> kret None
        | Some f \<Rightarrow> kret (Some (nat fd, f)))))"

fun fd_scan :: "(nat \<Rightarrow> nat option) \<Rightarrow> nat list \<Rightarrow> nat option" where
  "fd_scan fs [] = None"
| "fd_scan fs (fd # l) = (if fs fd = None then Some fd else fd_scan fs l)"

definition fdalloc :: "nat \<Rightarrow> ('z mem_st_scheme, int) kern" where
  "fdalloc f =
    kbind myproc (\<lambda>c.
    kbind (kget (\<lambda>s. fd_scan (p_ofile (ptable s c)) [0..<NOFILE])) (\<lambda>r.
    case r of None \<Rightarrow> kret (-1)
    | Some fd \<Rightarrow>
      kthen (set_proc c (\<lambda>x. x\<lparr>p_ofile := (p_ofile x)(fd := Some f)\<rparr>)) (
      kret (int fd))))"

section \<open>Exec\<close>

definition MAXARG :: nat where "MAXARG = 32"
definition ELF_MAGIC :: nat where "ELF_MAGIC = 0x464C457F"
definition ELF_PROG_LOAD :: nat where "ELF_PROG_LOAD = 1"

record elfhdr =
  elf_magic :: nat
  elf_entry :: nat
  elf_phoff :: nat
  elf_phnum :: nat

record proghdr =
  ph_type :: nat
  ph_off :: nat
  ph_vaddr :: nat
  ph_filesz :: nat
  ph_memsz :: nat

definition get_elfhdr :: "bytes \<Rightarrow> elfhdr" where
  "get_elfhdr d = \<lparr>elf_magic = get32 d 0, elf_entry = get32 d 24, elf_phoff = get32 d 28, elf_phnum = get16 d 44\<rparr>"

definition get_proghdr :: "bytes \<Rightarrow> proghdr" where
  "get_proghdr d = \<lparr>ph_type = get32 d 0, ph_off = get32 d 4, ph_vaddr = get32 d 8, ph_filesz = get32 d 16, ph_memsz = get32 d 20\<rparr>"

text \<open>A buffer of the kernel stack after \<open>readi\<close>: bytes that were not read keep what was there before.\<close>

definition stack_buf :: "bytes \<Rightarrow> byte list \<Rightarrow> bytes" where
  "stack_buf junk bs = (\<lambda>i. if i < length bs then bs ! i else junk i)"

text \<open>The loop over the program headers; \<open>None\<close> jumps to \<open>bad\<close>.\<close>

fun exec_load :: "('z mem_st_ext) devsw \<Rightarrow> nat \<Rightarrow> nat \<Rightarrow> nat \<Rightarrow> nat \<Rightarrow> nat \<Rightarrow> ('z mem_st_scheme, nat option) kern" where
  "exec_load dv ip d 0 off sz = kret (Some sz)"
| "exec_load dv ip d (Suc k) off sz =
    kbind (readi dv ip off 32) (\<lambda>(r, bs).
    let ph = get_proghdr (\<lambda>i. bs ! i) in
    if r \<noteq> 32 then kret None
    else if ph_type ph \<noteq> ELF_PROG_LOAD then exec_load dv ip d k (u32 (off + 32)) sz
    else if ph_memsz ph < ph_filesz ph then kret None
    else
      kbind (allocuvm d sz (u32 (ph_vaddr ph + ph_memsz ph))) (\<lambda>sz'.
      if sz' = 0 then kret None
      else
        kbind (loaduvm dv d (ph_vaddr ph) ip (ph_off ph) (ph_filesz ph)) (\<lambda>l.
        if l < 0 then kret None
        else exec_load dv ip d k (u32 (off + 32)) sz')))"

text \<open>The arguments are pushed on the new stack; the result is the stack pointer and the words of \<open>ustack\<close> after the third.\<close>

fun exec_args :: "nat \<Rightarrow> byte list list \<Rightarrow> nat \<Rightarrow> nat \<Rightarrow> nat list \<Rightarrow> ('z mem_st_scheme, (nat \<times> nat list) option) kern" where
  "exec_args d [] argc sp us = kret (Some (sp, us))"
| "exec_args d (a # as) argc sp us =
    (if argc \<ge> MAXARG then kret None
     else
       kbind (copyout d (u32 (sp + 4294967296 - (length a + 1)) div 4 * 4) (a @ [0])) (\<lambda>r.
       if r < 0 then kret None
       else exec_args d as (argc + 1) (u32 (sp + 4294967296 - (length a + 1)) div 4 * 4)
         (us @ [u32 (sp + 4294967296 - (length a + 1)) div 4 * 4])))"

definition word_bytes :: "nat \<Rightarrow> byte list" where
  "word_bytes v = [of_nat v, of_nat (v div 256), of_nat (v div 65536), of_nat (v div 16777216)]"

definition exec_bad :: "nat \<Rightarrow> nat option \<Rightarrow> ('z mem_st_scheme, int) kern" where
  "exec_bad d ipo =
    kthen (kwhen (d \<noteq> 0) (freevm d)) (
    kthen (case ipo of Some ip \<Rightarrow> iunlockput ip | None \<Rightarrow> kret ()) (
    kret (-1)))"

text \<open>The part of the path after its last slash.\<close>

definition last_part :: "byte list \<Rightarrow> byte list" where
  "last_part path = rev (takeWhile (\<lambda>c. c \<noteq> slash) (rev path))"

definition exec_commit :: "byte list \<Rightarrow> nat \<Rightarrow> nat \<Rightarrow> nat \<Rightarrow> nat \<Rightarrow> ('z mem_st_scheme, int) kern" where
  "exec_commit path d sz entry sp =
    kbind myproc (\<lambda>c.
    kthen (set_proc c (\<lambda>x. x\<lparr>p_name := map (\<lambda>b. char_of (unat b)) (take 15 (last_part path))\<rparr>)) (
    kbind (kget (\<lambda>s. p_pgdir (ptable s c))) (\<lambda>old.
    kthen (set_proc c (\<lambda>x. x\<lparr>p_pgdir := d, p_sz := sz, p_tf := (p_tf x)\<lparr>tf_eip := entry, tf_esp := sp\<rparr>\<rparr>)) (
    kthen (switchuvm c) (
    kthen (freevm old) (
    kret 0))))))"

text \<open>The part of \<open>exec\<close> after the program is loaded, with \<open>ip\<close> released.\<close>

definition exec_stack :: "byte list \<Rightarrow> byte list list \<Rightarrow> nat \<Rightarrow> nat \<Rightarrow> nat \<Rightarrow> ('z mem_st_scheme, int) kern" where
  "exec_stack path argv d entry sz0 =
    kbind (allocuvm d (PGROUNDUP sz0) (u32 (PGROUNDUP sz0 + 2 * PGSIZE))) (\<lambda>sz.
    if sz = 0 then exec_bad d None
    else
      kthen (clearpteu d (u32 (sz + 4294967296 - 2 * PGSIZE))) (
      kbind (exec_args d argv 0 sz []) (\<lambda>r.
      case r of None \<Rightarrow> exec_bad d None
      | Some (sp, us) \<Rightarrow>
        let argc = length argv;
            ustack = [0xffffffff, argc, u32 (sp + 4294967296 - (argc + 1) * 4)] @ us @ [0];
            sp' = u32 (sp + 4294967296 - (3 + argc + 1) * 4)
        in
        kbind (copyout d sp' (concat (map word_bytes ustack))) (\<lambda>r.
        if r < 0 then exec_bad d None
        else exec_commit path d sz entry sp'))))"

text \<open>\<open>junk\<close> is what the stack holds where \<open>elf\<close> is.\<close>

definition exec :: "('z mem_st_ext) devsw \<Rightarrow> bytes \<Rightarrow> byte list \<Rightarrow> byte list list \<Rightarrow> ('z mem_st_scheme, int) kern" where
  "exec dv junk path argv =
    kbind (namei dv path) (\<lambda>r.
    case r of None \<Rightarrow> kret (-1)
    | Some ip \<Rightarrow>
      kthen (ilock (Some ip)) (
      kbind (readi dv ip 0 52) (\<lambda>(r, bs).
      let elf = get_elfhdr (stack_buf junk bs) in
      if as_uint r < 52 then exec_bad 0 (Some ip)
      else if elf_magic elf \<noteq> ELF_MAGIC then exec_bad 0 (Some ip)
      else
        kbind setupkvm (\<lambda>d.
        if d = 0 then exec_bad 0 (Some ip)
        else
          kbind (exec_load dv ip d (elf_phnum elf) (elf_phoff elf) 0) (\<lambda>r.
          case r of None \<Rightarrow> exec_bad d (Some ip)
          | Some sz \<Rightarrow>
            kthen (iunlockput ip) (
            exec_stack path argv d (elf_entry elf) sz))))))"

section \<open>What the kernel fetches\<close>

definition user_pages :: "'z mem_st_scheme \<Rightarrow> nat \<Rightarrow> bool" where
  "user_pages s c \<longleftrightarrow> (\<forall>va < p_sz (ptable s c). uva_pa (phys s) (p_pgdir (ptable s c)) va \<noteq> None)"

abbreviation ubyte :: "'z mem_st_scheme \<Rightarrow> nat \<Rightarrow> nat \<Rightarrow> byte" where
  "ubyte s c va \<equiv> ubytes (phys s) (p_pgdir (ptable s c)) va 0"

definition uword :: "'z mem_st_scheme \<Rightarrow> nat \<Rightarrow> nat \<Rightarrow> nat" where
  "uword s c va = get32 (ubytes (phys s) (p_pgdir (ptable s c)) va) 0"

lemma myproc_eq: "myproc s = (case curproc s of None \<Rightarrow> Panic ''trap'' | Some c \<Rightarrow> Ok c s)"
  by (simp add: myproc_def kern_defs split: option.splits)

lemma uload_eq:
  assumes "curproc s = Some c" "user_pages s c" "va < p_sz (ptable s c)"
  shows "uload va s = Ok (ubyte s c va) s"
  using assms by (auto simp: uload_def kbind_def kget_def kret_def myproc_eq ubytes_def user_pages_def split: option.splits)

lemma uload_state: "uload va s = Ok b t \<Longrightarrow> t = s"
  by (auto simp: uload_def myproc_eq kern_defs split: option.splits kres.splits)

lemma uload32_state: "uload32 va s = Ok b t \<Longrightarrow> t = s"
  by (auto simp: uload32_def kbind_Ok kret_def dest!: uload_state)

lemma fetchint_state: "fetchint a s = Ok b t \<Longrightarrow> t = s"
  by (auto simp: fetchint_def kbind_Ok kret_def kget_def myproc_eq dest!: uload32_state split: if_splits option.splits)

lemma argint_state: "argint n s = Ok b t \<Longrightarrow> t = s"
  by (auto simp: argint_def kbind_Ok kget_def myproc_eq dest!: fetchint_state split: option.splits)

lemma ubytes_at: "ubytes m d (va + i) 0 = ubytes m d va i"
  by (simp add: ubytes_def)

lemma uload32_eq:
  assumes "curproc s = Some c" "user_pages s c" "va + 4 \<le> p_sz (ptable s c)"
  shows "uload32 va s = Ok (uword s c va) s"
  using assms ubytes_at [of "phys s" "p_pgdir (ptable s c)" va 1] ubytes_at [of "phys s" "p_pgdir (ptable s c)" va 2]
    ubytes_at [of "phys s" "p_pgdir (ptable s c)" va 3]
  by (simp add: uload32_def kbind_def kret_def uload_eq uword_def get32_def numeral_2_eq_2)

lemma uword_less: "uword s c va < 4294967296"
  using get32_less [of "ubytes (phys s) (p_pgdir (ptable s c)) va" 0] by (simp add: uword_def)

lemma argint_eq:
  assumes "curproc s = Some c" "user_pages s c" "p_sz (ptable s c) \<le> KERNBASE"
    "tf_esp (p_tf (ptable s c)) + 8 + 4 * n \<le> p_sz (ptable s c)"
  shows "argint n s = Ok (Some (as_int (uword s c (tf_esp (p_tf (ptable s c)) + 4 + 4 * n)))) s"
proof -
  have "u32 (tf_esp (p_tf (ptable s c)) + 4 + 4 * n) = tf_esp (p_tf (ptable s c)) + 4 + 4 * n"
    "u32 (tf_esp (p_tf (ptable s c)) + 4 + 4 * n + 4) = tf_esp (p_tf (ptable s c)) + 4 + 4 * n + 4"
    using assms(3,4) by (simp_all add: u32_def KERNBASE_def)
  then show ?thesis using assms(1,2,4)
    by (simp add: argint_def fetchint_def kbind_def kget_def kret_def myproc_eq uload32_eq [OF assms(1,2)])
qed

lemma as_uint_as_int: "v < 4294967296 \<Longrightarrow> as_uint (as_int v) = v"
  by (simp add: as_uint_def as_int_def s32_def mod_diff_left_eq)

lemma fetchstr_from_eq:
  assumes "curproc s = Some c" "user_pages s c" "ep \<le> p_sz (ptable s c)"
  shows "fetchstr_from va ep acc s =
    Ok (if 0 \<in> set (map (ubyte s c) [va..<ep]) then Some (acc @ takeWhile (\<lambda>b. b \<noteq> 0) (map (ubyte s c) [va..<ep])) else None) s"
  using assms(3)
proof (induction va ep acc rule: fetchstr_from.induct)
  case (1 va ep acc)
  show ?case
  proof (cases "va < ep")
    case True
    then have u: "uload va s = Ok (ubyte s c va) s" using assms(1,2) 1(2) by (intro uload_eq) auto
    show ?thesis
    proof (cases "ubyte s c va = 0")
      case True
      then show ?thesis using \<open>va < ep\<close> u
        by (simp add: fetchstr_from.simps [of va] kbind_def kret_def upt_conv_Cons)
    next
      case False
      then show ?thesis using \<open>va < ep\<close> u 1(1) [OF True False 1(2)]
        by (auto simp add: fetchstr_from.simps [of va] kbind_def upt_conv_Cons)
    qed
  qed (simp add: fetchstr_from.simps [of va] kret_def)
qed

section \<open>Properties\<close>

text \<open>C23. A pointer argument that the kernel accepts is inside the process: if \<open>argptr\<close> succeeds for a block of
  \<open>sz\<close> bytes, the whole block lies below \<open>proc->sz\<close> (the additions do not wrap), and when the argument itself is
  in memory, \<open>argptr\<close> accepts just the pointers for which that holds.\<close>

theorem argptr_bounds:
  assumes "curproc s = Some c" "user_pages s c" "p_sz (ptable s c) \<le> KERNBASE" "0 \<le> sz" "sz < 2147483648"
  shows "(\<forall>a t. argptr n sz s = Ok (Some a) t \<longrightarrow> t = s \<and> a < p_sz (ptable s c) \<and> a + nat sz \<le> p_sz (ptable s c)) \<and>
    (tf_esp (p_tf (ptable s c)) + 8 + 4 * n \<le> p_sz (ptable s c) \<longrightarrow>
      argptr n sz s = Ok (let a = uword s c (tf_esp (p_tf (ptable s c)) + 4 + 4 * n) in
        if a < p_sz (ptable s c) \<and> a + nat sz \<le> p_sz (ptable s c) then Some a else None) s)"
proof (intro conjI allI impI)
  have w: "u32 (a + as_uint sz) = a + nat sz" if "a < p_sz (ptable s c)" for a
    using that assms(3-5) by (simp add: as_uint_def KERNBASE_def u32_def)
  show "t = s" "a < p_sz (ptable s c)" "a + nat sz \<le> p_sz (ptable s c)" if "argptr n sz s = Ok (Some a) t" for a t
    using that assms(1) w by (auto simp: argptr_def kbind_Ok kget_def kret_def myproc_eq dest!: argint_state
      split: option.splits if_splits)
  assume "tf_esp (p_tf (ptable s c)) + 8 + 4 * n \<le> p_sz (ptable s c)"
  then show "argptr n sz s = Ok (let a = uword s c (tf_esp (p_tf (ptable s c)) + 4 + 4 * n) in
        if a < p_sz (ptable s c) \<and> a + nat sz \<le> p_sz (ptable s c) then Some a else None) s"
    using assms(1) w by (simp add: argptr_def kbind_def kget_def kret_def myproc_eq argint_eq [OF assms(1-3)]
      as_uint_as_int uword_less Let_def not_le)
qed

text \<open>A string argument: \<open>fetchstr\<close> gives the bytes of the process from the address up to the first NUL
  when there is one below \<open>proc->sz\<close>, and fails otherwise; it reads nothing outside the process.\<close>

theorem fetchstr_string:
  assumes "curproc s = Some c" "user_pages s c"
  shows "fetchstr addr s =
    Ok (let bs = map (ubyte s c) [addr..<p_sz (ptable s c)] in
        if 0 \<in> set bs then Some (takeWhile (\<lambda>b. b \<noteq> 0) bs) else None) s"
  using assms(1) by (simp add: fetchstr_def kbind_def kget_def kret_def myproc_eq fetchstr_from_eq [OF assms order_refl] Let_def)

definition wit_user :: mem_st where
  "wit_user = wit_mem\<lparr>phys := put32 (put32 (put32 (put32 zero_bytes 0x400000 0x500007) 0x500000 0x600007) 0x600104 0x200) 0x600200 0x6968,
     curproc := Some 0,
     ptable := (ptable wit_mem)(0 := (ptable wit_mem 0)\<lparr>p_pgdir := 0x80400000, p_sz := 4096,
       p_tf := zero_tf\<lparr>tf_esp := 0x100\<rparr>\<rparr>)\<rparr>"

lemma wit_user_pa: "va < 4096 \<Longrightarrow> uva_pa (phys wit_user) 0x80400000 va = Some (0x600000 + va)"
  by (simp add: uva_pa_def pte_val_def pgtab_def ent_def wit_user_def PDX_def PTX_def PTE_ADDR_def v2p_def p2v_def
      u32_def KERNBASE_def PGSIZE_def)

lemma wit_user: "curproc wit_user = Some 0" "p_sz (ptable wit_user 0) = 4096" "p_pgdir (ptable wit_user 0) = 0x80400000"
  "tf_esp (p_tf (ptable wit_user 0)) = 0x100" "user_pages wit_user 0"
  by (simp_all add: wit_user_def user_pages_def) (simp_all add: wit_user_pa [unfolded wit_user_def, simplified])

lemma wit_user_word: "uword wit_user 0 0x104 = 0x200"
proof -
  have "get32 (ubytes (phys wit_user) 0x80400000 0x104) 0 = get32 (phys wit_user) 0x600104"
    by (simp add: get32_def ubytes_def wit_user_pa)
  also have "\<dots> = 0x200" by (simp add: wit_user_def)
  finally show ?thesis by (simp add: uword_def wit_user)
qed

theorem argptr_bounds_witness: "argptr 0 0xE00 wit_user = Ok (Some 0x200) wit_user \<and> argptr 0 0xE01 wit_user = Ok None wit_user"
proof -
  have k: "p_sz (ptable wit_user 0) \<le> KERNBASE" by (simp add: wit_user KERNBASE_def)
  have "argptr 0 sz wit_user = Ok (if 0x200 + nat sz \<le> 4096 then Some 0x200 else None) wit_user"
    if "0 \<le> sz" "sz < 2147483648" for sz
    using argptr_bounds [OF wit_user(1,5) k that, of 0, THEN conjunct2] by (simp add: wit_user wit_user_word)
  then show ?thesis by simp
qed

theorem fetchstr_string_witness: "fetchstr 0x200 wit_user = Ok (Some [104, 105]) wit_user"
proof -
  have b: "ubytes (phys wit_user) 0x80400000 va 0 = (if va = 0x200 then 104 else if va = 0x201 then 105 else 0)" if "0x200 \<le> va" "va < 4096" for va
    using that by (simp add: ubytes_def wit_user_pa) (simp add: wit_user_def put32_def zero_bytes_def)
  have "map (ubyte wit_user 0) [0x200..<4096] = 104 # 105 # 0 # map (ubyte wit_user 0) [0x203..<4096]"
    by (simp add: upt_conv_Cons [of 512] upt_conv_Cons [of 513] upt_conv_Cons [of 514] wit_user b del: upt_rec_numeral)
  then show ?thesis using fetchstr_string [OF wit_user(1,5), of "0x200"] unfolding wit_user(2) by (simp del: upt_rec_numeral)
qed

end
