(* ===== verification/Console.thy ===== *)
theory Console
  imports Uaccess
begin

unbundle bit_operations_syntax

text \<open>
  The console (\<open>console.c\<close>), the keyboard driver (\<open>kbd.c\<close>, \<open>kbd.h\<close>), the serial port (\<open>uart.c\<close>) and
  \<open>procdump\<close> of \<open>proc.c\<close>.

  \<open>con\<close> holds the globals of \<open>console.c\<close>, the bytes that were sent to the serial line, the CGA memory
  and the cursor register of the screen.  \<open>cons_st\<close> extends the state by it.  The \<open>uint\<close> indices of the
  input buffer, and the positions that are only compared with them, are \<open>32 word\<close>s.  The two
  tables that the shell passes to the kernel are flat arrays, as in memory; an access outside an array is
  \<open>Panic ''undefined''\<close>.  The loop of an interrupt handler over \<open>getc\<close> runs over the list of its results.
\<close>

section \<open>State\<close>

definition H_ITEMS :: nat where "H_ITEMS = 32"
definition H_LEN :: nat where "H_LEN = 128"
definition MAX_EXECMD :: nat where "MAX_EXECMD = 128"
definition EXECMD_LEN :: nat where "EXECMD_LEN = 64"
definition INPUT_BUF :: nat where "INPUT_BUF = 128"

record HistoryStruct =
  hs_len :: int
  hs_start :: int
  hs_current :: int
  hs_history :: bytes

record ExecutedCmd =
  ec_len :: int
  ec_commands :: bytes

definition SHELL :: int where "SHELL = 0"
definition EDITOR :: int where "EDITOR = 1"
definition CAT :: int where "CAT = 2"

record inbuf =
  in_buf :: bytes
  in_r :: "32 word"
  in_w :: "32 word"
  in_e :: "32 word"

record con =
  c_locking :: bool
  c_panicked :: bool
  c_input :: inbuf
  tab_loc :: "32 word"
  constant_tab :: int
  last_tab_loc :: "32 word"
  blanks :: "nat \<Rightarrow> 32 word"
  blank_len :: int
  firstInput :: bool
  program_status :: int
  first :: bool
  hs :: HistoryStruct
  ec :: ExecutedCmd
  uart :: bool
  serial_out :: "byte list"
  crt :: "nat \<Rightarrow> 16 word"
  crt_pos :: nat

record cons_st = file_st +
  con :: con

type_synonym 'z cdevsw = "('z cons_st_ext) fdevsw"

definition cmod :: "(con \<Rightarrow> con) \<Rightarrow> ('z cons_st_scheme, unit) kern" where
  "cmod f = kmod (\<lambda>s. s\<lparr>con := f (con s)\<rparr>)"

definition cget :: "(con \<Rightarrow> 'a) \<Rightarrow> ('z cons_st_scheme, 'a) kern" where
  "cget f = kget (\<lambda>s. f (con s))"

definition undefined_behaviour :: "('s, 'a) kern" where
  "undefined_behaviour = kpanic ''undefined''"

section \<open>Output\<close>

definition uart_send :: "int \<Rightarrow> con \<Rightarrow> con" where
  "uart_send c x = (if uart x then x\<lparr>serial_out := serial_out x @ [of_int c]\<rparr> else x)"

definition BACKSPACE :: int where "BACKSPACE = 0x100"

text \<open>\<open>cgaputc\<close>: the new contents of the screen and position of the cursor.\<close>

definition cga_advance :: "int \<Rightarrow> (nat \<Rightarrow> 16 word) \<Rightarrow> nat \<Rightarrow> (nat \<Rightarrow> 16 word) \<times> nat" where
  "cga_advance c m pos =
    (if c = 10 then (m, pos + (80 - pos mod 80))
     else if c = BACKSPACE then (m, if pos > 0 then pos - 1 else pos)
     else (m(pos := of_int c AND 0xff OR 0x0700), pos + 1))"

definition cga_scroll :: "(nat \<Rightarrow> 16 word) \<Rightarrow> nat \<Rightarrow> (nat \<Rightarrow> 16 word) \<times> nat" where
  "cga_scroll m pos =
    (if pos div 80 \<ge> 24 then
       (\<lambda>i. if pos - 80 \<le> i \<and> i < 24 * 80 then 0 else if i < 23 * 80 then m (i + 80) else m i, pos - 80)
     else (m, pos))"

definition cgaputc :: "int \<Rightarrow> ('z cons_st_scheme, unit) kern" where
  "cgaputc c =
    kbind (cget (\<lambda>x. (crt x, crt_pos x))) (\<lambda>(m, pos).
    case cga_advance c m pos of (m1, pos1) \<Rightarrow>
    case cga_scroll m1 pos1 of (m2, pos2) \<Rightarrow>
    if pos2 > 24 * 80 then undefined_behaviour
    else cmod (\<lambda>x. x\<lparr>crt := m2(pos2 := 0x0720), crt_pos := pos2\<rparr>))"

definition consputc :: "int \<Rightarrow> ('z cons_st_scheme, unit) kern" where
  "consputc c =
    kbind (cget c_panicked) (\<lambda>p.
    if p then kpanic ''panicked''
    else
      kthen (if c = BACKSPACE then cmod (\<lambda>x. uart_send 8 (uart_send 32 (uart_send 8 x)))
             else cmod (uart_send c)) (
      cgaputc c))"

fun consputs :: "byte list \<Rightarrow> ('z cons_st_scheme, unit) kern" where
  "consputs [] = kret ()"
| "consputs (b # bs) = kthen (consputc (sint b)) (consputs bs)"

text \<open>\<open>printint\<close>: the digits, lowest first, and the characters in the order of printing.
  The base is 10 or 16; with the test \<open>base \<ge> 2\<close> the recursion ends for every argument.\<close>

definition digit_chars :: "byte list" where
  "digit_chars = map of_char ''0123456789abcdef''"

function digits_of :: "nat \<Rightarrow> nat \<Rightarrow> byte list" where
  "digits_of base x =
    (digit_chars ! (x mod base)) # (if base \<ge> 2 \<and> x div base \<noteq> 0 then digits_of base (x div base) else [])"
  by pat_completeness auto

termination
  by (relation "measure snd") (auto intro!: div_less_dividend Nat.gr0I)

declare digits_of.simps [simp del]

definition printint_chars :: "int \<Rightarrow> nat \<Rightarrow> bool \<Rightarrow> byte list" where
  "printint_chars xx base sg =
    (if sg \<and> xx < 0 then rev (digits_of base (as_uint (- xx)) @ [45])
     else rev (digits_of base (as_uint xx)))"

definition printint :: "int \<Rightarrow> nat \<Rightarrow> bool \<Rightarrow> ('z cons_st_scheme, unit) kern" where
  "printint xx base sg = consputs (printint_chars xx base sg)"

text \<open>The arguments of \<open>cprintf\<close>: a word, or a pointer to a string, which may be null.\<close>

datatype carg = CInt int | CStr "byte list option"

fun cprintf_loop :: "byte list \<Rightarrow> carg list \<Rightarrow> ('z cons_st_scheme, unit) kern" where
  "cprintf_loop [] as = kret ()"
| "cprintf_loop (c # fmt) as =
    (if c = 0 then kret ()
     else if c \<noteq> 37 then kthen (consputc (uint c)) (cprintf_loop fmt as)
     else case fmt of [] \<Rightarrow> kret ()
     | d # fmt' \<Rightarrow>
       if d = 0 then kret ()
       else if d = 100 then
         (case as of CInt x # as' \<Rightarrow> kthen (printint x 10 True) (cprintf_loop fmt' as')
          | _ \<Rightarrow> undefined_behaviour)
       else if d = 120 \<or> d = 112 then
         (case as of CInt x # as' \<Rightarrow> kthen (printint x 16 False) (cprintf_loop fmt' as')
          | _ \<Rightarrow> undefined_behaviour)
       else if d = 115 then
         (case as of
            CStr None # as' \<Rightarrow> kthen (consputs (map of_char ''(null)'')) (cprintf_loop fmt' as')
          | CStr (Some t) # as' \<Rightarrow> kthen (consputs t) (cprintf_loop fmt' as')
          | _ \<Rightarrow> undefined_behaviour)
       else if d = 37 then kthen (consputc 37) (cprintf_loop fmt' as)
       else kthen (consputc 37) (kthen (consputc (uint d)) (cprintf_loop fmt' as)))"

definition cprintf :: "string \<Rightarrow> carg list \<Rightarrow> ('z cons_st_scheme, unit) kern" where
  "cprintf fmt as =
    kbind (cget c_locking) (\<lambda>locking.
    kthen (kwhen locking (acquire_lk LK_cons)) (
    kthen (cprintf_loop (map of_char fmt) as) (
    kwhen locking (release_lk LK_cons))))"

text \<open>\<open>pcs p\<close> are the return addresses that \<open>getcallerpcs\<close> finds on the kernel stack of process \<open>p\<close>.\<close>

definition state_name :: "procstate \<Rightarrow> string" where
  "state_name st = (case st of
      UNUSED \<Rightarrow> ''unused'' | EMBRYO \<Rightarrow> ''embryo'' | SLEEPING \<Rightarrow> ''sleep ''
    | RUNNABLE \<Rightarrow> ''runble'' | RUNNING \<Rightarrow> ''run   '' | ZOMBIE \<Rightarrow> ''zombie'')"

fun procdump_pcs :: "nat list \<Rightarrow> ('z cons_st_scheme, unit) kern" where
  "procdump_pcs [] = kret ()"
| "procdump_pcs (pc # l) =
    (if pc = 0 then kret () else kthen (cprintf '' %p'' [CInt (s32 (int pc))]) (procdump_pcs l))"

fun procdump_from :: "(nat \<Rightarrow> nat list) \<Rightarrow> nat list \<Rightarrow> ('z cons_st_scheme, unit) kern" where
  "procdump_from pcs [] = kret ()"
| "procdump_from pcs (p # l) =
    kbind (kget (\<lambda>s. ptable s p)) (\<lambda>x.
    if p_state x = UNUSED then procdump_from pcs l
    else
      kthen (cprintf ''%d %s %s'' [CInt (p_pid x), CStr (Some (map of_char (state_name (p_state x)))),
        CStr (Some (map of_char (p_name x)))]) (
      kthen (kwhen (p_state x = SLEEPING) (procdump_pcs (take 10 (pcs p)))) (
      kthen (cprintf [char_of (10 :: nat)] []) (
      procdump_from pcs l))))"

definition procdump :: "(nat \<Rightarrow> nat list) \<Rightarrow> ('z cons_st_scheme, unit) kern" where
  "procdump pcs = procdump_from pcs [0..<NPROC]"

section \<open>Input\<close>

text \<open>Bytes from \<open>a\<close> at \<open>i\<close> up to the first NUL, which must be among the \<open>n\<close> bytes of the array.\<close>

fun str_within :: "bytes \<Rightarrow> nat \<Rightarrow> nat \<Rightarrow> byte list option" where
  "str_within a i 0 = None"
| "str_within a i (Suc n) = (if a i = 0 then Some [] else map_option ((#) (a i)) (str_within a (i + 1) n))"

definition in_put :: "byte \<Rightarrow> inbuf \<Rightarrow> inbuf" where
  "in_put b x = x\<lparr>in_buf := (in_buf x)(unat (in_e x) mod INPUT_BUF := b), in_e := in_e x + 1\<rparr>"

definition imod :: "(inbuf \<Rightarrow> inbuf) \<Rightarrow> ('z cons_st_scheme, unit) kern" where
  "imod f = cmod (\<lambda>x. x\<lparr>c_input := f (c_input x)\<rparr>)"

fun type_bytes :: "byte list \<Rightarrow> ('z cons_st_scheme, unit) kern" where
  "type_bytes [] = kret ()"
| "type_bytes (b # bs) = kthen (imod (in_put b)) (kthen (consputc (sint b)) (type_bytes bs))"

fun put_bytes :: "byte list \<Rightarrow> inbuf \<Rightarrow> inbuf" where
  "put_bytes [] x = x"
| "put_bytes (b # bs) x = put_bytes bs (in_put b x)"

text \<open>\<open>memset(\&blanks, 0, 32)\<close> clears 32 bytes, which are 8 entries.\<close>

definition initBlank :: "('z cons_st_scheme, unit) kern" where
  "initBlank =
    kbind (cget firstInput) (\<lambda>fi.
    kwhen fi (cmod (\<lambda>x. x\<lparr>firstInput := False, blank_len := 1,
      blanks := (\<lambda>i. if i < 8 then 0 else blanks x i)(0 := in_w (c_input x))\<rparr>)))"

text \<open>The search of \<open>checkPrefix\<close> for a command that starts with the bytes of \<open>buffer\<close>.\<close>

function prefix_scan :: "bytes \<Rightarrow> nat \<Rightarrow> ExecutedCmd \<Rightarrow> int \<Rightarrow> ('z cons_st_scheme, int option) kern" where
  "prefix_scan buffer bl x i =
    (if i < ec_len x then
       if i \<ge> int MAX_EXECMD then undefined_behaviour
       else if strncmp buffer (\<lambda>k. ec_commands x (EXECMD_LEN * nat i + k)) bl = 0 then kret (Some i)
       else prefix_scan buffer bl x (i + 1)
     else kret None)"
  by pat_completeness auto

termination
  by (relation "measure (\<lambda>(buffer, bl, x, i). nat (ec_len x - i))") auto

declare prefix_scan.simps [simp del]

text \<open>
  The call of itself at the end of \<open>checkPrefix\<close> counts down \<open>n\<close>; it is reached with \<open>constant_tab\<close> -1,
  which the next call raises to 0, where it returns.
\<close>

fun checkPrefix_n :: "nat \<Rightarrow> ('z cons_st_scheme, unit) kern" where
  "checkPrefix_n 0 = undefined_behaviour"
| "checkPrefix_n (Suc n) =
    kbind (cget (\<lambda>x. x)) (\<lambda>x.
    let len = unat (in_e (c_input x) - tab_loc x);
        line = (if tab_loc x < in_e (c_input x)
          then map (\<lambda>k. in_buf (c_input x) (unat (tab_loc x + of_nat k) mod INPUT_BUF)) [0..<len] else []);
        bl = length (takeWhile (\<lambda>b. b \<noteq> 0) line)
    in
    if len \<ge> INPUT_BUF then undefined_behaviour
    else
      kthen (cmod (\<lambda>x. x\<lparr>constant_tab := constant_tab x + 1\<rparr>)) (
      kbind (prefix_scan (cstr line) bl (ec x) (constant_tab x + 1)) (\<lambda>r.
      case r of
        None \<Rightarrow>
          if constant_tab x + 1 = 0 then kret ()
          else
            kthen (cmod (\<lambda>x. x\<lparr>constant_tab := -1\<rparr>)) (
            checkPrefix_n n)
      | Some i \<Rightarrow>
          kthen (cmod (\<lambda>x. x\<lparr>constant_tab := i\<rparr>)) (
          case str_within (ec_commands (ec x)) (EXECMD_LEN * nat i) (MAX_EXECMD * EXECMD_LEN - EXECMD_LEN * nat i) of
            None \<Rightarrow> undefined_behaviour
          | Some cmd \<Rightarrow> type_bytes (drop bl cmd)))))"

definition checkPrefix :: "('z cons_st_scheme, unit) kern" where
  "checkPrefix = checkPrefix_n 2"

text \<open>The loops that erase the line back to \<open>lim\<close>; the second one stops after a newline.\<close>

function erase_to :: "32 word \<Rightarrow> 32 word \<Rightarrow> ('z cons_st_scheme, unit) kern" where
  "erase_to lim e =
    (if e \<noteq> lim then
       kthen (imod (\<lambda>x. x\<lparr>in_e := e - 1\<rparr>)) (
       kthen (consputc BACKSPACE) (
       erase_to lim (e - 1)))
     else kret ())"
  by pat_completeness auto

termination
proof (relation "measure (\<lambda>(lim, e). unat (e - lim))")
  fix lim e :: "32 word"
  assume "e \<noteq> lim"
  then have "e - lim \<noteq> 0" by simp
  then have "unat (e - lim - 1) < unat (e - lim)"
    by (metis measure_unat)
  then show "((lim, e - 1), lim, e) \<in> measure (\<lambda>(lim, e). unat (e - lim))"
    by (simp add: algebra_simps)
qed simp

declare erase_to.simps [simp del]

function kill_line :: "bytes \<Rightarrow> 32 word \<Rightarrow> 32 word \<Rightarrow> ('z cons_st_scheme, unit) kern" where
  "kill_line buf lim e =
    (if e \<noteq> lim \<and> buf (unat (e - 1) mod INPUT_BUF) \<noteq> 10 then
       kthen (imod (\<lambda>x. x\<lparr>in_e := e - 1\<rparr>)) (
       kthen (consputc BACKSPACE) (
       kill_line buf lim (e - 1)))
     else kret ())"
  by pat_completeness auto

termination
proof (relation "measure (\<lambda>(buf :: bytes, lim, e). unat (e - lim))")
  fix buf :: bytes and lim e :: "32 word"
  assume "e \<noteq> lim \<and> buf (unat (e - 1) mod INPUT_BUF) \<noteq> 10"
  then have "e - lim \<noteq> 0" by simp
  then have "unat (e - lim - 1) < unat (e - lim)"
    by (metis measure_unat)
  then show "((buf, lim, e - 1), buf, lim, e) \<in> measure (\<lambda>(buf :: bytes, lim, e). unat (e - lim))"
    by (simp add: algebra_simps)
qed simp

declare kill_line.simps [simp del]

definition key_kill :: "('z cons_st_scheme, unit) kern" where
  "key_kill = kbind (cget c_input) (\<lambda>x. kill_line (in_buf x) (in_w x) (in_e x))"

definition key_backspace :: "('z cons_st_scheme, unit) kern" where
  "key_backspace =
    kthen (cmod (\<lambda>x. x\<lparr>constant_tab := -1\<rparr>)) (
    kbind (cget (\<lambda>x. x)) (\<lambda>x.
    if in_e (c_input x) \<noteq> in_w (c_input x) then
      if blank_len x - 1 < 0 \<or> blank_len x - 1 \<ge> 32 then undefined_behaviour
      else
        kthen (if in_e (c_input x) = blanks x (nat (blank_len x - 1)) then
            if blank_len x - 2 < 0 then undefined_behaviour
            else cmod (\<lambda>x. x\<lparr>blanks := (blanks x)(nat (blank_len x - 1) := 0), blank_len := blank_len x - 1,
              tab_loc := blanks x (nat (blank_len x - 2))\<rparr>)
          else kret ()) (
        kthen (imod (\<lambda>i. i\<lparr>in_e := in_e i - 1\<rparr>)) (
        consputc BACKSPACE))
    else kret ()))"

text \<open>ESC and \<open>^S\<close> put a command line in the buffer and hand it to the reader.\<close>

definition send_command :: "string \<Rightarrow> ('z cons_st_scheme, unit) kern" where
  "send_command cmd =
    kthen (cmod (\<lambda>x. x\<lparr>firstInput := True\<rparr>)) (
    kthen (imod (\<lambda>i. i\<lparr>in_w := in_e i\<rparr>)) (
    kthen (imod (put_bytes (map of_char cmd @ [10]))) (
    kthen (imod (\<lambda>i. i\<lparr>in_w := in_e i\<rparr>)) (
    kthen (cmod (\<lambda>x. x\<lparr>tab_loc := in_e (c_input x)\<rparr>)) (
    wakeup Ch_input)))))"

definition key_esc :: "('z cons_st_scheme, unit) kern" where
  "key_esc =
    kbind (cget program_status) (\<lambda>st.
    if st = SHELL \<or> st = CAT then send_command ''ESC''
    else if st = EDITOR then send_command ''exit''
    else kret ())"

definition key_save :: "('z cons_st_scheme, unit) kern" where
  "key_save =
    kbind (cget program_status) (\<lambda>st.
    if st = EDITOR then send_command ''save'' else kret ())"

definition key_tab :: "('z cons_st_scheme, unit) kern" where
  "key_tab =
    kbind (cget program_status) (\<lambda>st.
    if st = SHELL then
      kthen initBlank (
      kthen (cmod (\<lambda>x. if tab_loc x = -1 then x\<lparr>tab_loc := in_w (c_input x), last_tab_loc := 0\<rparr> else x)) (
      kbind (cget (\<lambda>x. x)) (\<lambda>x.
      kthen (if constant_tab x \<noteq> -1 then erase_to (last_tab_loc x) (in_e (c_input x))
             else cmod (\<lambda>x. x\<lparr>last_tab_loc := in_e (c_input x)\<rparr>)) (
      checkPrefix))))
    else if st = CAT \<or> st = EDITOR then type_bytes [32, 32, 32, 32]
    else kret ())"

text \<open>The history entry at \<open>hs.current\<close> replaces the line.\<close>

definition type_history :: "('z cons_st_scheme, unit) kern" where
  "type_history =
    kbind (cget hs) (\<lambda>h.
    if hs_current h < 0 \<or> hs_current h \<ge> int H_ITEMS then undefined_behaviour
    else case str_within (hs_history h) (H_LEN * nat (hs_current h)) (H_ITEMS * H_LEN - H_LEN * nat (hs_current h)) of
      None \<Rightarrow> undefined_behaviour
    | Some l \<Rightarrow> type_bytes l)"

text \<open>The remainder of C, which has the sign of the dividend.\<close>

definition c_rem :: "int \<Rightarrow> int \<Rightarrow> int" where
  "c_rem a b = (if a < 0 then - ((- a) mod b) else a mod b)"

definition hist_up :: "HistoryStruct \<Rightarrow> HistoryStruct" where
  "hist_up h =
    (if hs_len h \<ge> int H_ITEMS then
       h\<lparr>hs_current := if hs_current h \<noteq> c_rem (hs_start h + 1) (int H_ITEMS)
          then c_rem (hs_current h - 1 + int H_ITEMS) (int H_ITEMS) else hs_current h\<rparr>
     else h\<lparr>hs_current := if hs_current h > 0 then hs_current h - 1 else hs_current h\<rparr>)"

definition hist_down :: "HistoryStruct \<Rightarrow> HistoryStruct" where
  "hist_down h =
    (if hs_len h \<ge> int H_ITEMS then
       h\<lparr>hs_current := if hs_current h \<noteq> hs_start h
          then c_rem (hs_current h + 1) (int H_ITEMS) else hs_current h\<rparr>
     else h\<lparr>hs_current := if hs_current h < hs_start h then hs_current h + 1 else hs_current h\<rparr>)"

definition key_up :: "('z cons_st_scheme, unit) kern" where
  "key_up =
    kbind (cget program_status) (\<lambda>st.
    if st = SHELL then
      kthen (cmod (\<lambda>x. x\<lparr>constant_tab := -1\<rparr>)) (
      kbind (cget c_input) (\<lambda>i.
      kthen (erase_to (in_w i) (in_e i)) (
      kbind (cget first) (\<lambda>f.
      if f then
        kthen type_history (
        cmod (\<lambda>x. x\<lparr>first := False\<rparr>))
      else
        kthen (cmod (\<lambda>x. x\<lparr>hs := hist_up (hs x)\<rparr>)) (
        type_history)))))
    else kret ())"

definition key_down :: "('z cons_st_scheme, unit) kern" where
  "key_down =
    kbind (cget program_status) (\<lambda>st.
    if st = SHELL then
      kthen (cmod (\<lambda>x. x\<lparr>constant_tab := -1\<rparr>)) (
      kbind (cget c_input) (\<lambda>i.
      kthen (erase_to (in_w i) (in_e i)) (
      kbind (cget hs) (\<lambda>h.
      if hs_current h = hs_start h then cmod (\<lambda>x. x\<lparr>first := True\<rparr>)
      else
        kthen (cmod (\<lambda>x. x\<lparr>hs := hist_down (hs x)\<rparr>)) (
        type_history)))))
    else kret ())"

definition key_default :: "int \<Rightarrow> ('z cons_st_scheme, unit) kern" where
  "key_default c0 =
    kbind (cget c_input) (\<lambda>i.
    if c0 \<noteq> 0 \<and> unat (in_e i - in_r i) < INPUT_BUF then
      kthen initBlank (
      kthen (cmod (\<lambda>x. x\<lparr>constant_tab := -1\<rparr>)) (
      let c = (if c0 = 13 then 10 else c0) in
      kthen (imod (in_put (of_int c))) (
      kthen (consputc c) (
      kthen (if c = 32 then
          kbind (cget blank_len) (\<lambda>n.
          if n < 0 \<or> n \<ge> 32 then undefined_behaviour
          else cmod (\<lambda>x. x\<lparr>blank_len := n + 1, blanks := (blanks x)(nat n := in_e (c_input x)),
            tab_loc := in_e (c_input x)\<rparr>))
        else kret ()) (
      kbind (cget c_input) (\<lambda>i.
      if c = 10 \<or> c = 4 \<or> in_e i = in_r i + of_nat INPUT_BUF then
        kthen (cmod (\<lambda>x. x\<lparr>firstInput := True\<rparr>)) (
        kthen (imod (\<lambda>i. i\<lparr>in_w := in_e i\<rparr>)) (
        kthen (cmod (\<lambda>x. x\<lparr>tab_loc := in_e (c_input x)\<rparr>)) (
        wakeup Ch_input)))
      else kret ()))))))
    else kret ())"

definition consoleintr_key :: "(nat \<Rightarrow> nat list) \<Rightarrow> int \<Rightarrow> ('z cons_st_scheme, unit) kern" where
  "consoleintr_key pcs c =
    (if c = 16 then procdump pcs
     else if c = 21 then key_kill
     else if c = 8 \<or> c = 127 then key_backspace
     else if c = 27 then key_esc
     else if c = 19 then key_save
     else if c = 9 then key_tab
     else if c = 0xE2 then key_up
     else if c = 0xE3 then key_down
     else if c = 0xE4 \<or> c = 0xE5 then kret ()
     else key_default c)"

fun consoleintr_loop :: "(nat \<Rightarrow> nat list) \<Rightarrow> int list \<Rightarrow> ('z cons_st_scheme, unit) kern" where
  "consoleintr_loop pcs [] = kret ()"
| "consoleintr_loop pcs (c # cs) =
    (if c \<ge> 0 then kthen (consoleintr_key pcs c) (consoleintr_loop pcs cs) else kret ())"

definition consoleintr :: "(nat \<Rightarrow> nat list) \<Rightarrow> int list \<Rightarrow> ('z cons_st_scheme, unit) kern" where
  "consoleintr pcs cs =
    kthen (acquire_lk LK_input) (
    kthen (consoleintr_loop pcs cs) (
    release_lk LK_input))"

text \<open>
  \<open>consoleread\<close>: the loop with \<open>n\<close> bytes left of \<open>target\<close>, the bytes read so far in \<open>bs\<close>, and the input
  lock held.
\<close>

function consoleread_from :: "nat \<Rightarrow> int \<Rightarrow> int \<Rightarrow> byte list \<Rightarrow> ('z cons_st_scheme, int \<times> byte list) kern" where
  "consoleread_from ip target n bs =
    (if n > 0 then
       kbind (cget c_input) (\<lambda>i.
       if in_r i = in_w i then
         kbind killed (\<lambda>k.
         if k then
           kthen (release_lk LK_input) (
           kthen (ilock (Some ip)) (
           kret (-1, bs)))
         else sleep Ch_input LK_input)
       else
         kthen (imod (\<lambda>i. i\<lparr>in_r := in_r i + 1\<rparr>)) (
         let c = in_buf i (unat (in_r i) mod INPUT_BUF) in
         if c = 4 then
           kthen (kwhen (n < target) (imod (\<lambda>i. i\<lparr>in_r := in_r i - 1\<rparr>))) (
           kthen (release_lk LK_input) (
           kthen (ilock (Some ip)) (
           kret (target - n, bs))))
         else if c = 10 then
           kthen (release_lk LK_input) (
           kthen (ilock (Some ip)) (
           kret (target - (n - 1), bs @ [c])))
         else consoleread_from ip target (n - 1) (bs @ [c])))
     else
       kthen (release_lk LK_input) (
       kthen (ilock (Some ip)) (
       kret (target - n, bs))))"
  by pat_completeness auto

termination
  by (relation "measure (\<lambda>(ip, target, n, bs). nat n)") auto

declare consoleread_from.simps [simp del]

definition consoleread :: "nat \<Rightarrow> int \<Rightarrow> ('z cons_st_scheme, int \<times> byte list) kern" where
  "consoleread ip n =
    kthen (iunlock (Some ip)) (
    kthen (acquire_lk LK_input) (
    consoleread_from ip n n []))"

fun consolewrite_loop :: "byte list \<Rightarrow> ('z cons_st_scheme, unit) kern" where
  "consolewrite_loop [] = kret ()"
| "consolewrite_loop (b # bs) = kthen (consputc (uint b)) (consolewrite_loop bs)"

definition consolewrite :: "nat \<Rightarrow> bytes \<Rightarrow> int \<Rightarrow> ('z cons_st_scheme, int) kern" where
  "consolewrite ip buf n =
    kthen (iunlock (Some ip)) (
    kthen (acquire_lk LK_cons) (
    kthen (consolewrite_loop (map buf [0..<nat n])) (
    kthen (release_lk LK_cons) (
    kthen (ilock (Some ip)) (
    kret n)))))"

definition CONSOLE :: nat where "CONSOLE = 1"

text \<open>The device table and the console after \<open>consoleinit\<close>; enabling the interrupt lines is left to the hardware.\<close>

definition console_devsw :: "'z cdevsw" where
  "console_devsw = \<lparr>
    dev_read = (\<lambda>m. if m = CONSOLE then Some consoleread else None),
    dev_write = (\<lambda>m. if m = CONSOLE then Some consolewrite else None)\<rparr>"

definition consoleinit :: "('z cons_st_scheme, unit) kern" where
  "consoleinit = cmod (\<lambda>x. x\<lparr>c_locking := True\<rparr>)"

section \<open>Keyboard\<close>

text \<open>The key tables of \<open>kbd.h\<close>, by scan code; entries that are not set are 0.\<close>

definition shiftcode :: "nat \<Rightarrow> nat" where
  "shiftcode d = (if d = 0x1D then 2 else if d = 0x2A then 1 else if d = 0x36 then 1 else if d = 0x38 then 4 else if d = 0x9D then 2 else if d = 0xB8 then 4 else 0)"

definition togglecode :: "nat \<Rightarrow> nat" where
  "togglecode d = (if d = 0x3A then 8 else if d = 0x45 then 16 else if d = 0x46 then 32 else 0)"

definition normalmap_row :: "nat list" where
  "normalmap_row = [
    0, 27, 49, 50, 51, 52, 53, 54, 55, 56, 57, 48, 45, 61, 8, 9,
    113, 119, 101, 114, 116, 121, 117, 105, 111, 112, 91, 93, 10, 0, 97, 115,
    100, 102, 103, 104, 106, 107, 108, 59, 39, 96, 0, 92, 122, 120, 99, 118,
    98, 110, 109, 44, 46, 47, 0, 42, 0, 32, 0, 0, 0, 0, 0, 0,
    0, 0, 0, 0, 0, 0, 0, 55, 56, 57, 45, 52, 53, 54, 43, 49,
    50, 51, 48, 46, 0, 0, 0, 0]"

definition normalmap :: "nat \<Rightarrow> nat" where
  "normalmap d =
    (if d < 88 then normalmap_row ! d
     else if d = 0x97 then 0xE0 else if d = 0x9C then 0xA else if d = 0xB5 then 0x2F else if d = 0xC8 then 0xE2
     else if d = 0xC9 then 0xE6 else if d = 0xCB then 0xE4 else if d = 0xCD then 0xE5 else if d = 0xCF then 0xE1
     else if d = 0xD0 then 0xE3 else if d = 0xD1 then 0xE7 else if d = 0xD2 then 0xE8 else if d = 0xD3 then 0xE9
     else 0)"

definition shiftmap_row :: "nat list" where
  "shiftmap_row = [
    0, 27, 33, 64, 35, 36, 37, 94, 38, 42, 40, 41, 95, 43, 8, 9,
    81, 87, 69, 82, 84, 89, 85, 73, 79, 80, 123, 125, 10, 0, 65, 83,
    68, 70, 71, 72, 74, 75, 76, 58, 34, 126, 0, 124, 90, 88, 67, 86,
    66, 78, 77, 60, 62, 63, 0, 42, 0, 32, 0, 0, 0, 0, 0, 0,
    0, 0, 0, 0, 0, 0, 0, 55, 56, 57, 45, 52, 53, 54, 43, 49,
    50, 51, 48, 46, 0, 0, 0, 0]"

definition shiftmap :: "nat \<Rightarrow> nat" where
  "shiftmap d =
    (if d < 88 then shiftmap_row ! d
     else if d = 0x97 then 0xE0 else if d = 0x9C then 0xA else if d = 0xB5 then 0x2F else if d = 0xC8 then 0xE2
     else if d = 0xC9 then 0xE6 else if d = 0xCB then 0xE4 else if d = 0xCD then 0xE5 else if d = 0xCF then 0xE1
     else if d = 0xD0 then 0xE3 else if d = 0xD1 then 0xE7 else if d = 0xD2 then 0xE8 else if d = 0xD3 then 0xE9
     else 0)"

definition ctlmap_row :: "nat list" where
  "ctlmap_row = [
    0, 0, 0, 0, 0, 0, 0, 0, 0, 0, 0, 0, 0, 0, 0, 0,
    17, 23, 5, 18, 20, 25, 21, 9, 15, 16, 0, 0, 13, 0, 1, 19,
    4, 6, 7, 8, 10, 11, 12, 0, 0, 0, 0, 28, 26, 24, 3, 22,
    2, 14, 13, 0, 0, 239, 0, 0]"

definition ctlmap :: "nat \<Rightarrow> nat" where
  "ctlmap d =
    (if d < 56 then ctlmap_row ! d
     else if d = 0x97 then 0xE0 else if d = 0x9C then 0xD else if d = 0xB5 then 0xEF else if d = 0xC8 then 0xE2
     else if d = 0xC9 then 0xE6 else if d = 0xCB then 0xE4 else if d = 0xCD then 0xE5 else if d = 0xCF then 0xE1
     else if d = 0xD0 then 0xE3 else if d = 0xD1 then 0xE7 else if d = 0xD2 then 0xE8 else if d = 0xD3 then 0xE9
     else 0)"

definition charcode :: "nat \<Rightarrow> nat \<Rightarrow> nat" where
  "charcode k d = (if k = 0 then normalmap d else if k = 1 then shiftmap d else ctlmap d)"

text \<open>
  \<open>kbdgetc\<close> for a byte \<open>data\<close> that waits in the controller: the result and the new value of \<open>shift\<close>.
  Bit 6 of \<open>shift\<close> is \<open>E0ESC\<close>.
\<close>

definition kbd_key :: "nat \<Rightarrow> nat \<Rightarrow> nat \<times> nat" where
  "kbd_key shift0 data =
    (let shift = (shift0 OR shiftcode data) XOR togglecode data;
         c = charcode (shift AND 3) data
     in (if shift AND 8 \<noteq> 0 then
           if 97 \<le> c \<and> c \<le> 122 then c - 32
           else if 65 \<le> c \<and> c \<le> 90 then c + 32
           else c
         else c, shift))"

definition clear_bits :: "nat \<Rightarrow> nat \<Rightarrow> nat" where
  "clear_bits x m = nat (int x AND NOT (int m))"

definition kbdgetc :: "nat \<Rightarrow> nat list \<Rightarrow> int \<times> nat \<times> nat list" where
  "kbdgetc shift port =
    (case port of [] \<Rightarrow> (-1, shift, [])
     | data # rest \<Rightarrow>
       if data = 0xE0 then (0, shift OR 64, rest)
       else if data AND 0x80 \<noteq> 0 then
         (0, clear_bits shift (shiftcode (if shift AND 64 \<noteq> 0 then data else data AND 0x7F) OR 64), rest)
       else if shift AND 64 \<noteq> 0 then
         (case kbd_key (clear_bits shift 64) (data OR 0x80) of (c, sh) \<Rightarrow> (int c, sh, rest))
       else (case kbd_key shift data of (c, sh) \<Rightarrow> (int c, sh, rest)))"

fun kbd_chars :: "nat \<Rightarrow> nat list \<Rightarrow> int list \<times> nat" where
  "kbd_chars shift [] = ([], shift)"
| "kbd_chars shift (d # l) =
    (case kbdgetc shift (d # l) of (c, sh, rest) \<Rightarrow> case kbd_chars sh l of (cs, sh') \<Rightarrow> (c # cs, sh'))"

definition kbdintr :: "(nat \<Rightarrow> nat list) \<Rightarrow> nat \<Rightarrow> nat list \<Rightarrow> ('z cons_st_scheme, nat) kern" where
  "kbdintr pcs shift port =
    (case kbd_chars shift port of (cs, sh) \<Rightarrow> kthen (consoleintr pcs cs) (kret sh))"

text \<open>The serial line: the bytes that wait in the receive register are the results of \<open>uartgetc\<close>.\<close>

definition uartintr :: "(nat \<Rightarrow> nat list) \<Rightarrow> byte list \<Rightarrow> ('z cons_st_scheme, unit) kern" where
  "uartintr pcs line =
    kbind (cget uart) (\<lambda>u.
    consoleintr pcs (if u then map uint line else []))"

section \<open>The screen and the serial line\<close>

lemma wp_cmod [simp]: "wp (cmod f) Q = (\<lambda>s. Q () (s\<lparr>con := f (con s)\<rparr>))"
  by (simp add: cmod_def)

lemma wp_cget [simp]: "wp (cget f) Q = (\<lambda>s. Q (f (con s)) s)"
  by (simp add: cget_def)

lemma wp_imod [simp]: "wp (imod f) Q = (\<lambda>s. Q () (s\<lparr>con := (con s)\<lparr>c_input := f (c_input (con s))\<rparr>\<rparr>))"
  by (simp add: imod_def)

definition con_ok :: "con \<Rightarrow> bool" where
  "con_ok x \<longleftrightarrow> \<not> c_panicked x \<and> crt_pos x < 24 * 80"

text \<open>One character on the serial line and on the screen.\<close>

definition con_out :: "int \<Rightarrow> con \<Rightarrow> con" where
  "con_out c x =
    (let y = (if c = BACKSPACE then uart_send 8 (uart_send 32 (uart_send 8 x)) else uart_send c x);
         (m1, p1) = cga_advance c (crt y) (crt_pos y); (m2, p2) = cga_scroll m1 p1
     in y\<lparr>crt := m2(p2 := 0x0720), crt_pos := p2\<rparr>)"

lemma uart_send_fields [simp]:
  "crt (uart_send c x) = crt x" "crt_pos (uart_send c x) = crt_pos x" "c_panicked (uart_send c x) = c_panicked x"
  "c_input (uart_send c x) = c_input x" "uart (uart_send c x) = uart x" "blanks (uart_send c x) = blanks x"
  "blank_len (uart_send c x) = blank_len x" "tab_loc (uart_send c x) = tab_loc x" "firstInput (uart_send c x) = firstInput x"
  "constant_tab (uart_send c x) = constant_tab x" "program_status (uart_send c x) = program_status x"
  "hs (uart_send c x) = hs x" "ec (uart_send c x) = ec x" "first (uart_send c x) = first x"
  "last_tab_loc (uart_send c x) = last_tab_loc x" "c_locking (uart_send c x) = c_locking x"
  by (simp_all add: uart_send_def)

lemma con_out_fields [simp]:
  "c_panicked (con_out c x) = c_panicked x" "c_input (con_out c x) = c_input x" "uart (con_out c x) = uart x"
  "blanks (con_out c x) = blanks x" "blank_len (con_out c x) = blank_len x" "tab_loc (con_out c x) = tab_loc x"
  "firstInput (con_out c x) = firstInput x" "constant_tab (con_out c x) = constant_tab x"
  "program_status (con_out c x) = program_status x" "hs (con_out c x) = hs x" "ec (con_out c x) = ec x"
  "first (con_out c x) = first x" "last_tab_loc (con_out c x) = last_tab_loc x" "c_locking (con_out c x) = c_locking x"
  by (simp_all add: con_out_def Let_def split: prod.split)

lemma cga_advance_pos: "p < 24 * 80 \<Longrightarrow> snd (cga_advance c m p) \<le> 24 * 80"
proof -
  assume p: "p < 24 * 80"
  have "p div 80 < 24" using p by simp
  moreover have "p + (80 - p mod 80) = 80 * (p div 80) + 80"
    using mult_div_mod_eq [of 80 p] mod_less_divisor [of 80 p] by linarith
  ultimately have "p + (80 - p mod 80) \<le> 24 * 80" by linarith
  then show ?thesis using p by (auto simp: cga_advance_def)
qed

lemma cga_scroll_pos: "p \<le> 24 * 80 \<Longrightarrow> snd (cga_scroll m p) < 24 * 80"
  by (auto simp: cga_scroll_def)

lemma con_out_pos: "crt_pos x < 24 * 80 \<Longrightarrow> crt_pos (con_out c x) < 24 * 80"
  using cga_advance_pos cga_scroll_pos by (simp add: con_out_def Let_def split: prod.split) (metis snd_conv)

lemma con_out_ok [simp]: "con_ok x \<Longrightarrow> con_ok (con_out c x)"
  using con_out_pos by (simp add: con_ok_def)

text \<open>No cell outside the 24 lines of the screen changes.\<close>

lemma con_out_crt: "crt_pos x < 24 * 80 \<Longrightarrow> 24 * 80 \<le> i \<Longrightarrow> crt (con_out c x) i = crt x i"
proof -
  assume p: "crt_pos x < 24 * 80" and i: "24 * 80 \<le> i"
  obtain m1 p1 m2 p2 where e: "cga_advance c (crt x) (crt_pos x) = (m1, p1)" "cga_scroll m1 p1 = (m2, p2)" by fastforce
  have p1: "p1 \<le> 24 * 80" using cga_advance_pos [OF p, of c "crt x"] e by simp
  have "p2 < 24 * 80" using cga_scroll_pos [OF p1, of m1] e by simp
  moreover have "m1 i = crt x i" using e(1) p i by (auto simp: cga_advance_def split: if_splits)
  moreover have "m2 i = m1 i" using e(2) i by (auto simp: cga_scroll_def split: if_splits)
  ultimately show ?thesis using e i by (cases "c = BACKSPACE") (simp_all add: con_out_def Let_def)
qed

lemma consputc_eq: "con_ok (con s) \<Longrightarrow> consputc c s = Ok () (s\<lparr>con := con_out c (con s)\<rparr>)"
  for s :: "'z cons_st_scheme"
proof -
  assume ok: "con_ok (con s)"
  let ?y = "if c = BACKSPACE then uart_send 8 (uart_send 32 (uart_send 8 (con s))) else uart_send c (con s)"
  obtain m1 p1 m2 p2 where e: "cga_advance c (crt (con s)) (crt_pos (con s)) = (m1, p1)" "cga_scroll m1 p1 = (m2, p2)" by fastforce
  have p1: "p1 \<le> 24 * 80" using cga_advance_pos [of "crt_pos (con s)" c "crt (con s)"] ok e by (simp add: con_ok_def)
  have "p2 < 24 * 80" using cga_scroll_pos [OF p1, of m1] e by simp
  then show ?thesis using ok e
    by (cases "c = BACKSPACE") (simp_all add: consputc_def cgaputc_def con_out_def con_ok_def cget_def cmod_def kern_defs)
qed

lemma wp_consputc: "con_ok (con s) \<Longrightarrow> wp (consputc c) Q s = Q () (s\<lparr>con := con_out c (con s)\<rparr>)"
  by (simp add: wp_Ok [OF consputc_eq])

lemma wp_consolewrite_loop: "con_ok (con s) \<Longrightarrow> wp (consolewrite_loop bs) Q s = Q () (s\<lparr>con := fold con_out (map uint bs) (con s)\<rparr>)"
  by (induction bs arbitrary: s) (simp_all add: wp_consputc)

lemma fold_out_ok [simp]: "con_ok x \<Longrightarrow> con_ok (fold con_out cs x)"
  by (induction cs arbitrary: x) simp_all

lemma fold_out_fields [simp]: "c_input (fold con_out cs x) = c_input x" "uart (fold con_out cs x) = uart x"
  by (induction cs arbitrary: x) simp_all

lemma fold_out_serial:
  "\<forall>c\<in>set cs. c \<noteq> BACKSPACE \<Longrightarrow> uart x \<Longrightarrow> serial_out (fold con_out cs x) = serial_out x @ map of_int cs"
  by (induction cs arbitrary: x) (simp_all add: con_out_def uart_send_def Let_def split: prod.split)

lemma fold_out_crt: "crt_pos x < 24 * 80 \<Longrightarrow> 24 * 80 \<le> i \<Longrightarrow> crt (fold con_out cs x) i = crt x i"
  by (induction cs arbitrary: x) (simp_all add: con_out_pos [simplified] con_out_crt [simplified])

section \<open>The input buffer as a queue and a line\<close>

interpretation console_ring: ring INPUT_BUF
  by unfold_locales (simp_all add: INPUT_BUF_def)

lemma unat32: "unat w < 4294967296" for w :: "32 word"
proof -
  have "unat w < 2 ^ LENGTH(32)" by (rule unsigned_less)
  then show ?thesis by simp
qed

lemma ring_count_word: "ring_count (unat r) (unat w) = unat (w - r)" for r w :: "32 word"
proof (cases "unat r \<le> unat w")
  case True
  then have e: "unat w + 2 ^ 32 - unat r = unat w - unat r + 2 ^ 32" by simp
  have "unat w - unat r < 2 ^ 32" using unat32 [of w] by simp
  then have "ring_count (unat r) (unat w) = unat w - unat r"
    unfolding ring_count_def u32_def e mod_add_self2 by (rule mod_less)
  then show ?thesis using True by (simp add: unat_sub_if')
next
  case False
  then show ?thesis using unat32 [of w] unat32 [of r] by (simp add: ring_count_def u32_def unat_sub_if')
qed

lemma unat_plus_1: "unat (w + 1) = u32 (unat w + 1)" for w :: "32 word"
  by (simp add: u32_def unat_word_ariths)

text \<open>All bytes in the buffer, the bytes handed to the reader, and the line being edited.\<close>

definition in_all :: "inbuf \<Rightarrow> byte list" where
  "in_all x = ring_items INPUT_BUF (in_buf x) (unat (in_r x)) (unat (in_e x))"

definition in_queue :: "inbuf \<Rightarrow> byte list" where
  "in_queue x = take (unat (in_w x - in_r x)) (in_all x)"

definition in_line :: "inbuf \<Rightarrow> byte list" where
  "in_line x = drop (unat (in_w x - in_r x)) (in_all x)"

definition in_inv :: "inbuf \<Rightarrow> bool" where
  "in_inv x \<longleftrightarrow> unat (in_w x - in_r x) \<le> unat (in_e x - in_r x) \<and> unat (in_e x - in_r x) \<le> INPUT_BUF"

lemma in_all_length: "length (in_all x) = unat (in_e x - in_r x)"
  by (simp add: in_all_def console_ring.length_items ring_count_word)

lemma in_queue_line: "in_queue x @ in_line x = in_all x"
  by (simp add: in_queue_def in_line_def)

lemma in_line_empty: "in_inv x \<Longrightarrow> in_line x = [] \<longleftrightarrow> in_e x = in_w x"
  unfolding in_inv_def in_line_def drop_eq_Nil in_all_length
  by (metis diff_add_cancel dual_order.antisym order_refl word_unat_eq_iff)

lemma in_queue_empty: "in_inv x \<Longrightarrow> in_queue x = [] \<longleftrightarrow> in_r x = in_w x"
  using in_all_length [of x] by (auto simp: in_inv_def in_queue_def unat_eq_0)

lemma word_succ_diff: "unat (e - r) < 128 \<Longrightarrow> unat (e + 1 - r) = unat (e - r) + 1" for e r :: "32 word"
proof -
  assume "unat (e - r) < 128"
  then have "unat (e - r + 1) = unat (e - r) + 1" using unat_plus_1 [of "e - r"] by simp
  then show ?thesis by (simp only: add_diff_eq diff_add_eq [symmetric])
qed

lemma word_pred_diff: "e \<noteq> r \<Longrightarrow> unat (e - 1 - r) = unat (e - r) - 1" for e r :: "32 word"
proof -
  assume "e \<noteq> r"
  then have "e - r \<noteq> 0" by simp
  moreover have "e - 1 - r = e - r - 1" by simp
  ultimately show ?thesis using unat_minus_one by metis
qed

lemma in_put_all: "unat (in_e x - in_r x) < INPUT_BUF \<Longrightarrow> in_all (in_put b x) = in_all x @ [b]"
  using console_ring.write_items [of "unat (in_r x)" "unat (in_e x)" "in_buf x" b] unat32 [of "in_r x"] unat32 [of "in_e x"]
  by (simp add: in_all_def in_put_def ring_count_word unat_plus_1 INPUT_BUF_def)

lemma in_put_line:
  assumes "in_inv x" "unat (in_e x - in_r x) < INPUT_BUF"
  shows "in_inv (in_put b x)" "in_queue (in_put b x) = in_queue x" "in_line (in_put b x) = in_line x @ [b]"
proof -
  have "in_w (in_put b x) = in_w x" "in_r (in_put b x) = in_r x" "in_e (in_put b x) = in_e x + 1"
    by (simp_all add: in_put_def)
  note f = this
  have l: "unat (in_w x - in_r x) \<le> length (in_all x)" using assms(1) by (simp add: in_inv_def in_all_length)
  show "in_inv (in_put b x)" using assms word_succ_diff [of "in_e x" "in_r x"] by (simp add: in_inv_def f INPUT_BUF_def)
  show "in_queue (in_put b x) = in_queue x" "in_line (in_put b x) = in_line x @ [b]"
    using l by (simp_all add: in_queue_def in_line_def in_put_all [OF assms(2)] f)
qed

lemma in_commit:
  assumes "in_inv x"
  shows "in_inv (x\<lparr>in_w := in_e x\<rparr>)" "in_queue (x\<lparr>in_w := in_e x\<rparr>) = in_queue x @ in_line x" "in_line (x\<lparr>in_w := in_e x\<rparr>) = []"
  using assms in_all_length [of x] by (simp_all add: in_inv_def in_queue_line) (simp_all add: in_queue_def in_line_def in_all_def)

lemma in_erase:
  assumes "in_inv x" "in_e x \<noteq> in_w x"
  shows "in_inv (x\<lparr>in_e := in_e x - 1\<rparr>)" "in_queue (x\<lparr>in_e := in_e x - 1\<rparr>) = in_queue x"
    "in_line (x\<lparr>in_e := in_e x - 1\<rparr>) = butlast (in_line x)"
proof -
  have n: "unat (in_w x - in_r x) < unat (in_e x - in_r x)"
    using assms in_line_empty [OF assms(1)] by (auto simp: in_inv_def in_line_def in_all_length)
  then have ne: "in_e x \<noteq> in_r x" and n': "unat (in_w x - in_r x) \<le> unat (in_e x - in_r x) - Suc 0" by auto
  have a: "in_all (x\<lparr>in_e := in_e x - 1\<rparr>) = butlast (in_all x)"
    by (simp add: in_all_def ring_items_def ring_count_word word_pred_diff [OF ne] butlast_conv_take take_map)
  show "in_inv (x\<lparr>in_e := in_e x - 1\<rparr>)"
    using assms n word_pred_diff [OF ne] by (auto simp: in_inv_def)
  show "in_queue (x\<lparr>in_e := in_e x - 1\<rparr>) = in_queue x" "in_line (x\<lparr>in_e := in_e x - 1\<rparr>) = butlast (in_line x)"
    using n n' by (simp_all add: in_queue_def in_line_def a butlast_conv_take in_all_length drop_take take_take min_def)
qed

lemma in_take:
  assumes "in_inv x" "in_r x \<noteq> in_w x"
  shows "in_inv (x\<lparr>in_r := in_r x + 1\<rparr>)" "in_queue x = in_buf x (unat (in_r x) mod INPUT_BUF) # in_queue (x\<lparr>in_r := in_r x + 1\<rparr>)"
    "in_line (x\<lparr>in_r := in_r x + 1\<rparr>) = in_line x"
proof -
  have p: "unat (v - (in_r x + 1)) = unat (v - in_r x) - 1" if "v \<noteq> in_r x" for v
    using word_pred_diff [OF that] by (simp add: algebra_simps)
  have n: "0 < unat (in_w x - in_r x)" using assms(2) by (simp add: unat_gt_0)
  then have e: "in_e x \<noteq> in_r x" using assms(1) by (auto simp: in_inv_def)
  then have u: "unat (in_e x) \<noteq> unat (in_r x)" by (metis word_unat_eq_iff)
  have a: "in_all x = in_buf x (unat (in_r x) mod INPUT_BUF) # in_all (x\<lparr>in_r := in_r x + 1\<rparr>)"
    using console_ring.read_items [OF _ _ u, of "in_buf x"] unat32 [of "in_r x"] unat32 [of "in_e x"]
    by (simp add: in_all_def unat_plus_1)
  show "in_inv (x\<lparr>in_r := in_r x + 1\<rparr>)" using assms p [OF e] p [of "in_w x"] by (auto simp: in_inv_def)
  obtain k where k: "unat (in_w x - in_r x) = Suc k" using n gr0_implies_Suc by blast
  then have "unat (in_w x - (in_r x + 1)) = k" using p [of "in_w x"] assms(2) by simp
  then show "in_queue x = in_buf x (unat (in_r x) mod INPUT_BUF) # in_queue (x\<lparr>in_r := in_r x + 1\<rparr>)"
    "in_line (x\<lparr>in_r := in_r x + 1\<rparr>) = in_line x"
    by (simp_all add: in_queue_def in_line_def a k)
qed

section \<open>Line editing\<close>

text \<open>The specification: a queue of bytes for the reader and the line being typed.\<close>

definition line_step :: "int \<Rightarrow> byte list \<times> byte list \<Rightarrow> byte list \<times> byte list" where
  "line_step c ql =
    (let (q, l) = ql; b = (if c = 13 then 10 else of_int c) in
     if c = 21 then (q, rev (dropWhile (\<lambda>b. b \<noteq> 10) (rev l)))
     else if c = 8 \<or> c = 127 then (q, butlast l)
     else if c = 0 \<or> length q + length l \<ge> INPUT_BUF then (q, l)
     else if b = 10 \<or> b = 4 \<or> length q + length l + 1 = INPUT_BUF then (q @ l @ [b], [])
     else (q, l @ [b]))"

definition plain_key :: "int \<Rightarrow> bool" where
  "plain_key c \<longleftrightarrow> 0 \<le> c \<and> c < 256 \<and> c \<notin> {16, 27, 19, 9, 0xE2, 0xE3, 0xE4, 0xE5}"

definition con_abs :: "con \<Rightarrow> byte list \<times> byte list" where
  "con_abs x = (in_queue (c_input x), in_line (c_input x))"

definition n_blanks :: "con \<Rightarrow> int" where
  "n_blanks x = (if firstInput x then 1 else blank_len x)"

definition edit_ok :: "con \<Rightarrow> bool" where
  "edit_ok x \<longleftrightarrow> con_ok x \<and> in_inv (c_input x) \<and> (in_e (c_input x) \<noteq> in_w (c_input x) \<longrightarrow> \<not> firstInput x) \<and>
    (\<not> firstInput x \<longrightarrow> 1 \<le> blank_len x \<and> blank_len x \<le> 32 \<and> blanks x 0 = in_w (c_input x))"

lemma con_ok_upd [simp]:
  "con_ok (x\<lparr>c_input := i\<rparr>) = con_ok x" "con_ok (x\<lparr>constant_tab := k\<rparr>) = con_ok x" "con_ok (x\<lparr>firstInput := f\<rparr>) = con_ok x"
  "con_ok (x\<lparr>blank_len := k\<rparr>) = con_ok x" "con_ok (x\<lparr>blanks := bs\<rparr>) = con_ok x" "con_ok (x\<lparr>tab_loc := w\<rparr>) = con_ok x"
  by (simp_all add: con_ok_def)

lemma edit_okD:
  assumes "edit_ok x"
  shows "con_ok x" "in_inv (c_input x)"
  using assms by (simp_all add: edit_ok_def)

lemma con_abs_length: "in_inv (c_input x) \<Longrightarrow> length (fst (con_abs x)) + length (snd (con_abs x)) = unat (in_e (c_input x) - in_r (c_input x))"
  using in_all_length [of "c_input x"] in_queue_line [of "c_input x"] by (metis con_abs_def fst_conv length_append snd_conv)

text \<open>What an editing key does to the state: one step of the specification, at most one blank more.\<close>

definition edit_post :: "int \<Rightarrow> 'z cons_st_scheme \<Rightarrow> 'z cons_st_scheme \<Rightarrow> bool" where
  "edit_post c s t \<longleftrightarrow> edit_ok (con t) \<and> con_abs (con t) = line_step c (con_abs (con s)) \<and> held t = held s \<and>
    n_blanks (con t) \<le> n_blanks (con s) + (if c = 32 then 1 else 0)"

lemma kill_line_wp:
  assumes "edit_ok (con s)" "buf = in_buf (c_input (con s))" "lim = in_w (c_input (con s))" "e = in_e (c_input (con s))"
  shows "wp (kill_line buf lim e) (\<lambda>_ t. edit_ok (con t) \<and> held t = held s \<and> n_blanks (con t) = n_blanks (con s) \<and>
    con_abs (con t) = (fst (con_abs (con s)), rev (dropWhile (\<lambda>b. b \<noteq> 10) (rev (snd (con_abs (con s))))))) s"
  using assms
proof (induction buf lim e arbitrary: s rule: kill_line.induct)
  case (1 buf lim e)
  let ?x = "c_input (con s)"
  note ok = edit_okD [OF "1.prems"(1)] and eqs = "1.prems"(2-4)
  show ?case
  proof (cases "e \<noteq> lim")
    case True
    then have ne: "in_e ?x \<noteq> in_w ?x" using eqs by simp
    have l: "in_line ?x \<noteq> []" using in_line_empty [OF ok(2)] ne by simp
    have last: "last (in_line ?x) = buf (unat (e - 1) mod INPUT_BUF)"
    proof -
      have n: "unat (in_w ?x - in_r ?x) < unat (in_e ?x - in_r ?x)" using l by (simp add: in_line_def in_all_length)
      then have er: "in_e ?x \<noteq> in_r ?x" by auto
      have "last (in_line ?x) = in_all ?x ! (unat (in_e ?x - in_r ?x) - 1)"
        using n l by (simp add: in_line_def last_conv_nth in_all_length)
      also have "\<dots> = in_buf ?x ((unat (in_r ?x) + (unat (in_e ?x - in_r ?x) - 1)) mod INPUT_BUF)"
        using n by (simp add: in_all_def console_ring.items ring_count_word)
      also have "unat (in_e ?x - in_r ?x) - 1 = ring_count (unat (in_r ?x)) (unat (in_e ?x - 1))"
        using word_pred_diff [OF er] by (simp add: ring_count_word)
      also have "(unat (in_r ?x) + \<dots>) mod INPUT_BUF = unat (in_e ?x - 1) mod INPUT_BUF"
        using ring_pos [of "unat (in_r ?x)" "unat (in_e ?x - 1)"] unat32 [of "in_r ?x"] unat32 [of "in_e ?x - 1"]
          console_ring.index_mod [of "unat (in_r ?x) + ring_count (unat (in_r ?x)) (unat (in_e ?x - 1))"] by simp
      finally show ?thesis using eqs by simp
    qed
    show ?thesis
    proof (cases "buf (unat (e - 1) mod INPUT_BUF) = 10")
      case False
      let ?u = "s\<lparr>con := con_out BACKSPACE ((con s)\<lparr>c_input := ?x\<lparr>in_e := e - 1\<rparr>\<rparr>)\<rparr>"
      have p: "in_inv (?x\<lparr>in_e := e - 1\<rparr>)" "in_queue (?x\<lparr>in_e := e - 1\<rparr>) = in_queue ?x"
        "in_line (?x\<lparr>in_e := e - 1\<rparr>) = butlast (in_line ?x)"
        using in_erase [OF ok(2) ne] eqs by simp_all
      have u: "edit_ok (con ?u)" using "1.prems"(1) p ne by (simp add: edit_ok_def)
      have d: "dropWhile (\<lambda>b. b \<noteq> 10) (rev (in_line ?x)) = dropWhile (\<lambda>b. b \<noteq> 10) (rev (butlast (in_line ?x)))"
        using l last False by (metis (mono_tags, lifting) append_butlast_last_id dropWhile.simps(2) rev_eq_Cons_iff rev_rev_ident)
      have "wp (kill_line buf lim (e - 1)) (\<lambda>_ t. edit_ok (con t) \<and> held t = held ?u \<and> n_blanks (con t) = n_blanks (con ?u) \<and>
          con_abs (con t) = (fst (con_abs (con ?u)), rev (dropWhile (\<lambda>b. b \<noteq> 10) (rev (snd (con_abs (con ?u))))))) ?u"
        using True False u eqs by (intro "1.IH") simp_all
      moreover have "con_abs (con ?u) = (in_queue ?x, butlast (in_line ?x))" using p by (simp add: con_abs_def)
      moreover have "n_blanks (con ?u) = n_blanks (con s)" by (simp add: n_blanks_def)
      ultimately have "wp (kill_line buf lim (e - 1)) (\<lambda>_ t. edit_ok (con t) \<and> held t = held s \<and> n_blanks (con t) = n_blanks (con s) \<and>
          con_abs (con t) = (in_queue ?x, rev (dropWhile (\<lambda>b. b \<noteq> 10) (rev (in_line ?x))))) ?u"
        using d by simp
      then show ?thesis using True False ok
        by (subst kill_line.simps) (simp add: wp_consputc con_abs_def)
    next
      case b: True
      have "dropWhile (\<lambda>b. b \<noteq> 10) (rev (in_line ?x)) = rev (in_line ?x)"
        using l last b by (metis (mono_tags, lifting) append_butlast_last_id dropWhile.simps(2) rev_eq_Cons_iff rev_rev_ident)
      then show ?thesis using b "1.prems"(1) by (subst kill_line.simps) (simp add: con_abs_def)
    qed
  next
    case False
    then have "in_line ?x = []" using in_line_empty [OF ok(2)] eqs by simp
    then show ?thesis using False "1.prems"(1) by (subst kill_line.simps) (simp add: con_abs_def)
  qed
qed

lemma key_kill_wp: "edit_ok (con s) \<Longrightarrow> wp key_kill (\<lambda>_. edit_post 21 s) s"
  unfolding key_kill_def
  by (simp, rule wp_mono [OF kill_line_wp]) (auto simp: edit_post_def line_step_def split: prod.splits)

lemma n_blanks_pos: "edit_ok x \<Longrightarrow> 1 \<le> n_blanks x"
  by (auto simp: edit_ok_def n_blanks_def)

lemma key_backspace_wp:
  assumes ok: "edit_ok (con s)" and c: "c = 8 \<or> c = 127"
  shows "wp key_backspace (\<lambda>_. edit_post c s) s"
proof (cases "in_e (c_input (con s)) = in_w (c_input (con s))")
  case True
  then have "in_line (c_input (con s)) = []" using in_line_empty edit_okD [OF ok] by blast
  then show ?thesis using True ok c
    by (auto simp: key_backspace_def edit_post_def line_step_def con_abs_def edit_ok_def n_blanks_def)
next
  case False
  let ?x = "con s"
  have b: "1 \<le> blank_len ?x" "blank_len ?x \<le> 32" "blanks ?x 0 = in_w (c_input ?x)" "\<not> firstInput ?x"
    using ok False by (auto simp: edit_ok_def)
  have e: "in_inv ((c_input ?x)\<lparr>in_e := in_e (c_input ?x) - 1\<rparr>)"
    "in_queue ((c_input ?x)\<lparr>in_e := in_e (c_input ?x) - 1\<rparr>) = in_queue (c_input ?x)"
    "in_line ((c_input ?x)\<lparr>in_e := in_e (c_input ?x) - 1\<rparr>) = butlast (in_line (c_input ?x))"
    using in_erase [OF edit_okD(2) [OF ok] False] .
  show ?thesis
  proof (cases "in_e (c_input ?x) = blanks ?x (nat (blank_len ?x - 1))")
    case True
    then have "blank_len ?x \<noteq> 1" using False b by auto
    then show ?thesis using True False b e c edit_okD(1) [OF ok]
      by (auto simp: key_backspace_def wp_consputc edit_post_def line_step_def con_abs_def edit_ok_def n_blanks_def)
  next
    case neq: False
    then show ?thesis using False b e c edit_okD(1) [OF ok]
      by (auto simp: key_backspace_def wp_consputc edit_post_def line_step_def con_abs_def edit_ok_def n_blanks_def)
  qed
qed

lemma wp_initBlank [simp]: "wp initBlank Q s =
  Q () (if firstInput (con s) then s\<lparr>con := (con s)\<lparr>firstInput := False, blank_len := 1,
      blanks := (\<lambda>i. if i < 8 then 0 else blanks (con s) i)(0 := in_w (c_input (con s)))\<rparr>\<rparr> else s)"
  by (simp add: initBlank_def)

text \<open>The state after the common part of an ordinary key: the byte is in the line and on the screen.\<close>

definition typed :: "int \<Rightarrow> con \<Rightarrow> con" where
  "typed c x =
    con_out c ((if firstInput x then x\<lparr>firstInput := False, blank_len := 1,
        blanks := (\<lambda>i. if i < 8 then 0 else blanks x i)(0 := in_w (c_input x))\<rparr> else x)
      \<lparr>constant_tab := -1, c_input := in_put (of_int c) (c_input x)\<rparr>)"

definition spaced :: "con \<Rightarrow> con" where
  "spaced x = x\<lparr>blank_len := blank_len x + 1, blanks := (blanks x)(nat (blank_len x) := in_e (c_input x)),
    tab_loc := in_e (c_input x)\<rparr>"

lemma wp_key_default:
  assumes "con_ok (con s)" "c0 \<noteq> 0" "unat (in_e (c_input (con s)) - in_r (c_input (con s))) < INPUT_BUF"
    and c: "c = (if c0 = 13 then 10 else c0)"
    and b: "c = 32 \<Longrightarrow> 0 \<le> n_blanks (con s) \<and> n_blanks (con s) < 32"
    and y: "y = (if c = 32 then spaced (typed c (con s)) else typed c (con s))"
  shows "wp (key_default c0) Q s =
    (if c = 10 \<or> c = 4 \<or> in_e (c_input y) = in_r (c_input y) + of_nat INPUT_BUF
     then LK_ptable \<notin> held s \<and> Q () (s\<lparr>con := y\<lparr>firstInput := True, c_input := (c_input y)\<lparr>in_w := in_e (c_input y)\<rparr>,
       tab_loc := in_e (c_input y)\<rparr>, ptable := wakeup_tab Ch_input (ptable s)\<rparr>)
     else Q () (s\<lparr>con := y\<rparr>))"
proof -
  have k: "con_ok ((if firstInput (con s) then (con s)\<lparr>firstInput := False, blank_len := 1,
        blanks := (\<lambda>i. if i < 8 then 0 else blanks (con s) i)(0 := in_w (c_input (con s)))\<rparr> else con s)
      \<lparr>constant_tab := -1, c_input := in_put (of_int c) (c_input (con s))\<rparr>)"
    using assms(1) by simp
  have n: "blank_len (typed c (con s)) = n_blanks (con s)" by (simp add: typed_def n_blanks_def)
  show ?thesis
  proof (cases "firstInput (con s)")
    case True
    then show ?thesis using assms k n
      by (simp add: key_default_def Let_def c [symmetric] wp_consputc typed_def spaced_def n_blanks_def)
  next
    case False
    then show ?thesis using assms k n
      by (cases "c = 32") (simp_all add: key_default_def Let_def c [symmetric] wp_consputc typed_def spaced_def n_blanks_def)
  qed
qed

lemma typed_fields [simp]:
  "c_input (typed c x) = in_put (of_int c) (c_input x)" "firstInput (typed c x) = False" "blank_len (typed c x) = n_blanks x"
  "con_ok x \<Longrightarrow> con_ok (typed c x)"
  by (simp_all add: typed_def n_blanks_def)

lemma spaced_fields [simp]:
  "c_input (spaced x) = c_input x" "firstInput (spaced x) = firstInput x" "blank_len (spaced x) = blank_len x + 1"
  "con_ok (spaced x) = con_ok x"
  by (simp_all add: spaced_def)

lemma in_put_w [simp]: "in_w (in_put b x) = in_w x" "in_r (in_put b x) = in_r x" "in_e (in_put b x) = in_e x + 1"
  by (simp_all add: in_put_def)

lemma blanks_typed: "edit_ok x \<Longrightarrow> blanks (typed c x) 0 = in_w (c_input x)"
  by (auto simp: typed_def edit_ok_def)

lemma byte_eq: "0 \<le> c \<Longrightarrow> c < 256 \<Longrightarrow> (of_int c :: byte) = of_int k \<longleftrightarrow> c = k" if "0 \<le> k" "k < 256" for c k :: int
proof -
  assume "0 \<le> c" "c < 256"
  then have "uint (of_int c :: byte) = c" "uint (of_int k :: byte) = k"
    using that by (simp_all add: uint_word_of_int)
  then show ?thesis by metis
qed

lemma word_full: "unat (e + 1 - r) \<le> 128 \<Longrightarrow> e + 1 = r + 128 \<longleftrightarrow> unat (e + 1 - r) = 128" for e r :: "32 word"
proof
  assume "e + 1 = r + 128"
  then show "unat (e + 1 - r) = 128" by simp
next
  assume "unat (e + 1 - r) = 128"
  then have "unat (e + 1 - r) = unat (128 :: 32 word)" by simp
  then have "e + 1 - r = 128" by (simp only: word_unat_eq_iff [symmetric])
  then show "e + 1 = r + 128" by (simp add: algebra_simps)
qed

lemma key_default_wp:
  assumes ok: "edit_ok (con s)" and h: "LK_ptable \<notin> held s" and c0: "0 \<le> c0" "c0 < 256" "c0 \<notin> {21, 8, 127}"
    and b: "c0 = 32 \<Longrightarrow> n_blanks (con s) < 32"
  shows "wp (key_default c0) (\<lambda>_. edit_post c0 s) s"
proof (cases "c0 \<noteq> 0 \<and> unat (in_e (c_input (con s)) - in_r (c_input (con s))) < INPUT_BUF")
  case False
  then have "line_step c0 (con_abs (con s)) = con_abs (con s)"
    using con_abs_length [OF edit_okD(2) [OF ok]] c0 by (auto simp: line_step_def Let_def split: prod.splits)
  then show ?thesis using False ok by (auto simp: key_default_def edit_post_def)
next
  case True
  let ?i = "c_input (con s)"
  define c where "c = (if c0 = 13 then 10 else c0)"
  define y where "y = (if c = 32 then spaced (typed c (con s)) else typed c (con s))"
  define bt where "bt = (of_int c :: byte)"
  have y: "c_input y = in_put bt ?i" "firstInput y = False" "con_ok y" "blank_len y = n_blanks (con s) + (if c0 = 32 then 1 else 0)"
    "blanks y 0 = in_w ?i"
    using edit_okD(1) [OF ok] blanks_typed [OF ok] n_blanks_pos [OF ok]
    by (auto simp: y_def c_def bt_def spaced_def)
  note p = in_put_line [OF edit_okD(2) [OF ok] conjunct2 [OF True], of bt]
  note q = in_commit [OF p(1)]
  have bc: "bt = 10 \<longleftrightarrow> c = 10" "bt = 4 \<longleftrightarrow> c = 4" "bt = (if c0 = 13 then 10 else of_int c0)"
    using byte_eq [of 10 c] byte_eq [of 4 c] c0 by (auto simp: bt_def c_def)
  have len: "length (in_queue ?i) + length (in_line ?i) = unat (in_e ?i - in_r ?i)"
    using con_abs_length [OF edit_okD(2) [OF ok]] by (simp add: con_abs_def)
  have sc: "unat (in_e ?i + 1 - in_r ?i) = unat (in_e ?i - in_r ?i) + 1"
    using True by (intro word_succ_diff) (simp add: INPUT_BUF_def)
  have full: "in_e ?i + 1 = in_r ?i + 128 \<longleftrightarrow> length (in_queue ?i) + length (in_line ?i) + 1 = INPUT_BUF"
    using word_full [of "in_e ?i" "in_r ?i"] sc len True by (simp add: INPUT_BUF_def)
  have st: "line_step c0 (con_abs (con s)) =
    (if c = 10 \<or> c = 4 \<or> length (in_queue ?i) + length (in_line ?i) + 1 = INPUT_BUF then (in_queue ?i @ in_line ?i @ [bt], []) else (in_queue ?i, in_line ?i @ [bt]))"
    using c0 True len bc by (simp add: line_step_def con_abs_def Let_def not_le)
  have nb: "blank_len y \<le> 32" "1 \<le> blank_len y" using y(4) b ok n_blanks_pos [OF ok] by (auto simp: edit_ok_def n_blanks_def)
  have key: "wp (key_default c0) (\<lambda>_. edit_post c0 s) s =
    (if c = 10 \<or> c = 4 \<or> in_e ?i + 1 = in_r ?i + 128
     then LK_ptable \<notin> held s \<and> edit_post c0 s (s\<lparr>con := y\<lparr>firstInput := True, c_input := (c_input y)\<lparr>in_w := in_e (c_input y)\<rparr>,
       tab_loc := in_e (c_input y)\<rparr>, ptable := wakeup_tab Ch_input (ptable s)\<rparr>)
     else edit_post c0 s (s\<lparr>con := y\<rparr>))"
    using wp_key_default [OF edit_okD(1) [OF ok] conjunct1 [OF True] conjunct2 [OF True] c_def _ y_def] b n_blanks_pos [OF ok]
    by (auto simp: y(1) INPUT_BUF_def c_def split: if_splits)
  show ?thesis unfolding key full st edit_post_def
    using h y p q nb n_blanks_pos [OF ok] by (auto simp: con_abs_def edit_ok_def n_blanks_def st)
qed

lemma consoleintr_key_wp:
  assumes "edit_ok (con s)" "LK_ptable \<notin> held s" "plain_key c" "c = 32 \<Longrightarrow> n_blanks (con s) < 32"
  shows "wp (consoleintr_key pcs c) (\<lambda>_. edit_post c s) s"
proof -
  consider "c = 21" | "c = 8 \<or> c = 127" | "c \<notin> {21, 8, 127}" by auto
  then show ?thesis
  proof cases
    case 1
    then show ?thesis using key_kill_wp [OF assms(1)] by (simp add: consoleintr_key_def)
  next
    case 2
    then show ?thesis using key_backspace_wp [OF assms(1) 2] by (auto simp: consoleintr_key_def)
  next
    case 3
    then show ?thesis using key_default_wp [OF assms(1,2) _ _ 3 assms(4)] assms(3) by (simp add: consoleintr_key_def plain_key_def)
  qed
qed

lemma consoleintr_loop_wp:
  "edit_ok (con s) \<Longrightarrow> LK_ptable \<notin> held s \<Longrightarrow> \<forall>c\<in>set cs. plain_key c \<Longrightarrow> n_blanks (con s) + int (count_list cs 32) \<le> 32 \<Longrightarrow>
    wp (consoleintr_loop pcs cs) (\<lambda>_ t. edit_ok (con t) \<and> con_abs (con t) = fold line_step cs (con_abs (con s)) \<and> held t = held s) s"
proof (induction cs arbitrary: s)
  case (Cons c cs)
  have "wp (consoleintr_key pcs c) (\<lambda>_. edit_post c s) s"
    using Cons.prems by (intro consoleintr_key_wp) auto
  then have "wp (consoleintr_key pcs c) (\<lambda>_. wp (consoleintr_loop pcs cs)
      (\<lambda>_ t. edit_ok (con t) \<and> con_abs (con t) = fold line_step (c # cs) (con_abs (con s)) \<and> held t = held s)) s"
  proof (rule wp_mono)
    fix u t assume t: "edit_post c s t"
    then have "wp (consoleintr_loop pcs cs) (\<lambda>_ v. edit_ok (con v) \<and> con_abs (con v) = fold line_step cs (con_abs (con t)) \<and> held v = held t) t"
      using Cons.prems by (intro Cons.IH) (auto simp: edit_post_def split: if_splits)
    then show "wp (consoleintr_loop pcs cs)
      (\<lambda>_ t. edit_ok (con t) \<and> con_abs (con t) = fold line_step (c # cs) (con_abs (con s)) \<and> held t = held s) t"
      using t by (simp add: edit_post_def)
  qed
  then show ?case using Cons.prems(3) by (simp add: plain_key_def)
qed simp

section \<open>Reading\<close>

text \<open>What \<open>consoleread\<close> takes from the queue: the bytes and what stays, or \<open>None\<close> when it has to wait.\<close>

fun line_read :: "bool \<Rightarrow> nat \<Rightarrow> byte list \<Rightarrow> (byte list \<times> byte list) option" where
  "line_read fresh 0 q = Some ([], q)"
| "line_read fresh (Suc n) [] = None"
| "line_read fresh (Suc n) (b # q) =
    (if b = 4 then Some ([], if fresh then q else b # q)
     else if b = 10 then Some ([b], q)
     else map_option (\<lambda>(l, r). (b # l, r)) (line_read False n q))"

definition unlocked_inode :: "'z fs_st_scheme \<Rightarrow> nat \<Rightarrow> bool" where
  "unlocked_inode s ip \<longleftrightarrow> i_ref (inodes s ip) \<ge> 1 \<and> \<not> i_busy (inodes s ip) \<and> i_valid (inodes s ip) \<and> LK_icache \<notin> held s"

lemma wp_ilock_unlocked: "unlocked_inode s ip \<Longrightarrow>
  wp (ilock (Some ip)) Q s = Q () (s\<lparr>inodes := (inodes s)(ip := (inodes s ip)\<lparr>i_busy := True\<rparr>)\<rparr>)"
  by (simp add: ilock_def set_inode_def unlocked_inode_def)

lemma unlocked_upd [simp]:
  "unlocked_inode s ip \<Longrightarrow> unlocked_inode (s\<lparr>held := held s - A\<rparr>) ip"
  "unlocked_inode s ip \<Longrightarrow> unlocked_inode (s\<lparr>con := x, held := held s - A\<rparr>) ip"
  "unlocked_inode (s\<lparr>con := x\<rparr>) ip = unlocked_inode s ip" for s :: "'z cons_st_scheme"
  by (auto simp: unlocked_inode_def)

lemma consoleread_from_wp:
  assumes "in_inv (c_input (con s))" "unlocked_inode s ip" "LK_input \<in> held s" "0 \<le> n" "n \<le> target"
    "line_read (n = target) (nat n) (in_queue (c_input (con s))) = Some (l, q)"
  shows "wp (consoleread_from ip target n bs) (\<lambda>(r, out) t. r = target - n + int (length l) \<and> out = bs @ l \<and>
    in_queue (c_input (con t)) = q \<and> in_line (c_input (con t)) = in_line (c_input (con s)) \<and> held t = held s - {LK_input}) s"
  using assms
proof (induction ip target n bs arbitrary: s l rule: consoleread_from.induct)
  case (1 ip target n bs)
  let ?x = "c_input (con s)"
  note P = "1.prems"
  show ?case
  proof (cases "n > 0")
    case False
    then show ?thesis using P by (subst consoleread_from.simps) (simp add: wp_ilock_unlocked)
  next
    case True
    then obtain k where k: "nat n = Suc k" by (metis gr0_implies_Suc zero_less_nat_eq)
    have ne: "in_queue ?x \<noteq> []" using P(6) k by (cases "in_queue ?x") auto
    then have rw: "in_r ?x \<noteq> in_w ?x" using in_queue_empty [OF P(1)] by blast
    note tk = in_take [OF P(1) rw]
    let ?c = "in_buf ?x (unat (in_r ?x) mod INPUT_BUF)"
    let ?u = "s\<lparr>con := (con s)\<lparr>c_input := ?x\<lparr>in_r := in_r ?x + 1\<rparr>\<rparr>\<rparr>"
    have ul: "unlocked_inode ?u ip" "LK_input \<in> held ?u" using P(2,3) by (simp_all add: unlocked_inode_def)
    consider (eof) "?c = 4" | (nl) "?c = 10" | (go) "?c \<noteq> 4" "?c \<noteq> 10" by blast
    then show ?thesis
    proof cases
      case eof
      then show ?thesis
      proof (cases "n < target")
        case less: True
        have "l = []" "q = in_queue ?x" using P(6) k eof tk(2) less by auto
        then show ?thesis using eof less True rw P(2,3)
          by (subst consoleread_from.simps) (simp add: Let_def wp_ilock_unlocked)
      next
        case False
        then have "l = []" "q = in_queue (?x\<lparr>in_r := in_r ?x + 1\<rparr>)" using P(5,6) k eof tk(2) by auto
        then show ?thesis using eof False True rw ul tk P(2,3,5)
          by (subst consoleread_from.simps) (simp add: Let_def wp_ilock_unlocked)
      qed
    next
      case nl
      then have "l = [10]" "q = in_queue (?x\<lparr>in_r := in_r ?x + 1\<rparr>)" using P(6) k tk(2) by auto
      then show ?thesis using nl True rw ul tk P(2,3)
        by (subst consoleread_from.simps) (simp add: Let_def wp_ilock_unlocked)
    next
      case go
      then obtain l' where l: "l = ?c # l'" and r: "line_read False k (in_queue (?x\<lparr>in_r := in_r ?x + 1\<rparr>)) = Some (l', q)"
        using P(6) k tk(2) by (auto split: prod.splits)
      have "nat (n - 1) = k" using k by simp
      then have "wp (consoleread_from ip target (n - 1) (bs @ [?c])) (\<lambda>(r, out) t. r = target - (n - 1) + int (length l') \<and> out = (bs @ [?c]) @ l' \<and>
          in_queue (c_input (con t)) = q \<and> in_line (c_input (con t)) = in_line (c_input (con ?u)) \<and> held t = held ?u - {LK_input}) ?u"
        using True go rw ul tk(1) r P(5) by (intro "1.IH") simp_all
      then show ?thesis using True go rw l tk(3)
        by (subst consoleread_from.simps) (simp add: Let_def algebra_simps)
    qed
  qed
qed

section \<open>Completion and numbers\<close>

text \<open>With \<open>constant_tab\<close> -1 a pass of \<open>checkPrefix\<close> does not call itself.\<close>

lemma checkPrefix_last: "constant_tab (con s) = -1 \<Longrightarrow> checkPrefix_n (Suc n) s = checkPrefix_n (Suc m) s"
  by (simp add: kern_defs cget_def cmod_def Let_def split: kres.splits option.splits)

lemma prefix_scan_state: "prefix_scan buf bl x i s = Ok r t \<Longrightarrow> t = s"
  by (induction buf bl x i rule: prefix_scan.induct)
    (auto simp: prefix_scan.simps [of _ _ _ i for i] kret_def undefined_behaviour_def kpanic_def split: if_splits)

definition digit_val :: "byte \<Rightarrow> nat" where
  "digit_val b = (if b < 58 then unat b - 48 else unat b - 87)"

definition num_val :: "nat \<Rightarrow> byte list \<Rightarrow> nat" where
  "num_val base = foldl (\<lambda>v b. base * v + digit_val b) 0"

lemma digit_chars_nth: "d < 16 \<Longrightarrow> digit_chars ! d = (if d < 10 then of_nat (48 + d) else of_nat (87 + d))"
proof -
  have "\<forall>d\<in>set [0..<16]. digit_chars ! d = (if d < 10 then of_nat (48 + d) else of_nat (87 + d))"
    by code_simp
  then show "d < 16 \<Longrightarrow> ?thesis" by simp
qed

lemma digit_val_chars: "d < 16 \<Longrightarrow> digit_val (digit_chars ! d) = d"
proof -
  have "\<forall>d\<in>set [0..<16]. digit_val (digit_chars ! d) = d" by code_simp
  then show "d < 16 \<Longrightarrow> ?thesis" by simp
qed

lemma digits_of_val: "base = 10 \<or> base = 16 \<Longrightarrow> num_val base (rev (digits_of base x)) = x"
proof (induction base x rule: digits_of.induct)
  case (1 base x)
  have d: "digit_val (digit_chars ! (x mod base)) = x mod base" using "1.prems" by (intro digit_val_chars) auto
  show ?case
  proof (cases "x div base = 0")
    case True
    then have "x mod base = x" by (metis add_0 div_mult_mod_eq mult_0)
    then show ?thesis using d True by (subst digits_of.simps) (simp add: num_val_def)
  next
    case False
    then have "num_val base (rev (digits_of base (x div base))) = x div base" using "1.IH" "1.prems" by auto
    then show ?thesis using d False "1.prems" by (subst digits_of.simps) (auto simp: num_val_def)
  qed
qed

lemma digits_of_length: "2 \<le> base \<Longrightarrow> x < base ^ k \<Longrightarrow> 0 < k \<Longrightarrow> length (digits_of base x) \<le> k"
proof (induction k arbitrary: x)
  case (Suc k)
  show ?case
  proof (cases "x div base = 0")
    case True
    then show ?thesis by (subst digits_of.simps) simp
  next
    case False
    then have "k \<noteq> 0" using Suc.prems by (intro notI) simp
    moreover have "x div base < base ^ k" using Suc.prems by (simp add: less_mult_imp_div_less mult.commute)
    ultimately have "length (digits_of base (x div base)) \<le> k" using Suc by simp
    then show ?thesis by (subst digits_of.simps) simp
  qed
qed simp

lemma digits_of_last: "base = 10 \<or> base = 16 \<Longrightarrow> 0 < x \<Longrightarrow> last (digits_of base x) \<noteq> 48"
proof (induction base x rule: digits_of.induct)
  case (1 base x)
  show ?case
  proof (cases "x div base = 0")
    case True
    then have m: "x mod base = x" "x < 16" using "1.prems"(1) by (auto simp: div_eq_0_iff)
    have "digit_chars ! x \<noteq> 48" using digit_val_chars [OF m(2)] "1.prems"(2) by (auto simp: digit_val_def)
    then show ?thesis using True m by (subst digits_of.simps) simp
  next
    case False
    then have "last (digits_of base (x div base)) \<noteq> 48" "digits_of base (x div base) \<noteq> []"
      using "1.IH" "1.prems" by (auto simp: digits_of.simps [of base "x div base"])
    then show ?thesis using False "1.prems" by (subst digits_of.simps) auto
  qed
qed

section \<open>Properties\<close>


text \<open>C25. \<open>consoleread\<close> hands out what was typed, in order: when the queue has a line, an end of file or \<open>n\<close>
  bytes, it returns just those bytes (a \<open>^D\<close> after some bytes stays for the next call), the rest of the queue and
  the line being edited are kept, and the inode is locked again.\<close>

theorem consoleread_takes_line:
  assumes "in_inv (c_input (con s))" "held s = {}" "i_ref (inodes s ip) \<ge> 1" "i_busy (inodes s ip)" "i_valid (inodes s ip)"
    and "0 \<le> n" "line_read True (nat n) (in_queue (c_input (con s))) = Some (l, q)"
  shows "\<exists>t. consoleread ip n s = Ok (int (length l), l) t \<and> in_queue (c_input (con t)) = q \<and>
    in_line (c_input (con t)) = in_line (c_input (con s)) \<and> held t = {}"
proof -
  let ?u = "s\<lparr>inodes := (inodes s)(ip := (inodes s ip)\<lparr>i_busy := False\<rparr>), ptable := wakeup_tab (Ch_inode ip) (ptable s), held := {LK_input}\<rparr>"
  have "wp (consoleread_from ip n n []) (\<lambda>(r, out) t. r = n - n + int (length l) \<and> out = [] @ l \<and>
      in_queue (c_input (con t)) = q \<and> in_line (c_input (con t)) = in_line (c_input (con ?u)) \<and> held t = held ?u - {LK_input}) ?u"
    using assms by (intro consoleread_from_wp) (simp_all add: unlocked_inode_def)
  then have "wp (consoleread ip n) (\<lambda>(r, out) t. r = int (length l) \<and> out = l \<and>
      in_queue (c_input (con t)) = q \<and> in_line (c_input (con t)) = in_line (c_input (con s)) \<and> held t = {}) s"
    using assms by (simp add: consoleread_def iunlock_def set_inode_def)
  then show ?thesis by (auto simp: wp_iff)
qed

text \<open>C26. Output stays on the screen: writing any bytes to the console returns the count, sends just these bytes
  over the serial line, leaves the cursor inside the 24 lines of 80 cells and changes no other cell of the CGA memory.\<close>

theorem consolewrite_output:
  assumes "con_ok (con s)" "uart (con s)" "held s = {}" "i_ref (inodes s ip) \<ge> 1" "i_busy (inodes s ip)" "i_valid (inodes s ip)" "0 \<le> n"
  shows "\<exists>t. consolewrite ip buf n s = Ok n t \<and> serial_out (con t) = serial_out (con s) @ map buf [0..<nat n] \<and>
    crt_pos (con t) < 24 * 80 \<and> (\<forall>i \<ge> 24 * 80. crt (con t) i = crt (con s) i) \<and> c_input (con t) = c_input (con s)"
proof -
  let ?cs = "map uint (map buf [0..<nat n])"
  have ub: "uint b < 2 ^ LENGTH(8)" for b :: byte by (rule unsigned_less)
  have "uint b \<noteq> BACKSPACE" for b :: byte using ub [of b] by (simp add: BACKSPACE_def)
  then have nb: "\<forall>c\<in>set ?cs. c \<noteq> BACKSPACE" by auto
  have "con_ok (fold con_out ?cs (con s))" using assms(1) by (rule fold_out_ok)
  then have "crt_pos (fold con_out ?cs (con s)) < 24 * 80" unfolding con_ok_def by blast
  moreover have "crt (fold con_out ?cs (con s)) i = crt (con s) i" if "24 * 80 \<le> i" for i
    using fold_out_crt [OF _ that] assms(1) by (simp add: con_ok_def)
  moreover have "serial_out (fold con_out ?cs (con s)) = serial_out (con s) @ map buf [0..<nat n]"
    using fold_out_serial [OF nb assms(2)] by (simp add: comp_def)
  ultimately have "wp (consolewrite ip buf n) (\<lambda>r t. r = n \<and> serial_out (con t) = serial_out (con s) @ map buf [0..<nat n] \<and>
    crt_pos (con t) < 24 * 80 \<and> (\<forall>i \<ge> 24 * 80. crt (con t) i = crt (con s) i) \<and> c_input (con t) = c_input (con s)) s"
    using assms by (simp add: consolewrite_def iunlock_def set_inode_def wp_consolewrite_loop wp_ilock_unlocked unlocked_inode_def)
  then show ?thesis by (auto simp: wp_iff)
qed

text \<open>ESC does not test for room: with the input buffer full, the command it puts in overwrites the oldest
  unread byte, so that the reader gets the \<open>E\<close> of the command in its place, and leaves more than \<open>INPUT_BUF\<close> bytes
  between the read and the edit index.\<close>

theorem escape_overwrites_input:
  assumes "unat (in_e (c_input (con s)) - in_r (c_input (con s))) = INPUT_BUF" "program_status (con s) = SHELL" "held s = {LK_input}"
  shows "\<exists>t. consoleintr_key pcs 27 s = Ok () t \<and> in_r (c_input (con t)) = in_r (c_input (con s)) \<and>
    in_buf (c_input (con t)) (unat (in_r (c_input (con t))) mod INPUT_BUF) = 69 \<and> \<not> in_inv (c_input (con t))"
proof -
  let ?x = "c_input (con s)"
  have e: "in_e ?x = in_r ?x + 128"
    using assms(1) word_full [of "in_e ?x - 1" "in_r ?x"] by (simp add: INPUT_BUF_def)
  have m: "unat (in_r ?x + 128 + of_nat k) mod 128 = (unat (in_r ?x) + k) mod 128" for k
  proof -
    have "unat (in_r ?x + 128 + of_nat k) = (unat (in_r ?x) + 128 + k) mod 2 ^ 32"
      by (simp add: unat_word_ariths unat_of_nat mod_simps)
    then have "unat (in_r ?x + 128 + of_nat k) mod 128 = (unat (in_r ?x) + 128 + k) mod 128" by (simp add: mod_mod_cancel)
    also have "unat (in_r ?x) + 128 + k = unat (in_r ?x) + k + 128" by simp
    finally show ?thesis by (simp only: mod_add_self2)
  qed
  have d: "a mod 128 \<noteq> (a + k) mod 128" if "0 < k" "k < 128" for a k :: nat
  proof
    assume "a mod 128 = (a + k) mod 128"
    then have "128 dvd (a + k) - a" by (metis mod_eq_dvd_iff_nat le_add1)
    then show False using that by (auto dest: dvd_imp_le)
  qed
  have "wp (consoleintr_key pcs 27) (\<lambda>_ t. in_r (c_input (con t)) = in_r ?x \<and>
    in_buf (c_input (con t)) (unat (in_r (c_input (con t))) mod INPUT_BUF) = 69 \<and> \<not> in_inv (c_input (con t))) s"
    using assms(2,3) m [of 0] m [of 1] m [of 2] m [of 3]
      d [of 1 "unat (in_r ?x)"] d [of 2 "unat (in_r ?x)"] d [of 3 "unat (in_r ?x)"]
    by (simp add: consoleintr_key_def key_esc_def send_command_def in_put_def e in_inv_def INPUT_BUF_def)
  then show ?thesis by (auto simp: wp_iff)
qed

text \<open>\<open>printint\<close> prints the number: for base 10 and 16 the characters are the digits of the absolute value (of the
  value as \<open>uint\<close> when unsigned), after a minus sign when negative, with no leading zero, and fit \<open>buf[16]\<close>.\<close>

theorem printint_prints:
  assumes "base = 10 \<or> base = 16" "- 2147483648 \<le> xx" "xx < 2147483648"
  shows "\<exists>ds. printint_chars xx base sg = (if sg \<and> xx < 0 then 45 # ds else ds) \<and>
    num_val base ds = (if sg then nat \<bar>xx\<bar> else as_uint xx) \<and> (length ds = 1 \<or> hd ds \<noteq> 48) \<and> length (printint_chars xx base sg) \<le> 16"
proof -
  define x where "x = (if sg \<and> xx < 0 then as_uint (- xx) else as_uint xx)"
  have x: "x < 4294967296" by (simp add: x_def as_uint_def nat_less_iff)
  have v: "x = (if sg then nat \<bar>xx\<bar> else as_uint xx)" using assms(2,3) by (auto simp: x_def as_uint_def)
  let ?ds = "rev (digits_of base x)"
  have p: "printint_chars xx base sg = (if sg \<and> xx < 0 then 45 # ?ds else ?ds)" by (simp add: printint_chars_def x_def)
  have "x < base ^ 10" using x assms(1) by auto
  then have l: "length (digits_of base x) \<le> 10" using digits_of_length [of base x 10] assms(1) by auto
  have h: "length ?ds = 1 \<or> hd ?ds \<noteq> 48"
  proof (cases "x = 0")
    case True
    then show ?thesis by (subst (1) digits_of.simps) simp
  next
    case False
    have "digits_of base x \<noteq> []" by (subst digits_of.simps) simp
    then show ?thesis using digits_of_last [OF assms(1), of x] False by (simp add: hd_rev)
  qed
  show ?thesis using digits_of_val [OF assms(1), of x] p l h v by (intro exI [of _ ?ds]) auto
qed

text \<open>\<open>checkPrefix\<close> ends: its calls of itself are at most one deep.  Allowing more calls changes nothing.\<close>

theorem checkPrefix_ends: "checkPrefix_n (n + 2) = checkPrefix"
proof
  fix s :: "'a cons_st_scheme"
  show "checkPrefix_n (n + 2) s = checkPrefix s"
    unfolding checkPrefix_def numeral_2_eq_2 add_Suc_right add_0_right checkPrefix_n.simps(2) [of "Suc _"]
    by (auto simp: kern_defs cget_def cmod_def Let_def simp del: checkPrefix_n.simps intro!: checkPrefix_last split: kres.splits option.splits)
qed

section \<open>A console\<close>

definition wit_file :: file_st where
  "wit_file = pipe_st.extend wit_pipe_st (file_st.fields (\<lambda>_. \<lparr>f_type = FD_NONE, f_ref = 0, f_readable = False, f_writable = False,
    f_pipe = 0, f_ip = 0, f_off = 0\<rparr>))"

definition wit_con :: "byte list \<Rightarrow> con" where
  "wit_con q = \<lparr>c_locking = True, c_panicked = False,
    c_input = \<lparr>in_buf = cstr q, in_r = 0, in_w = of_nat (length q), in_e = of_nat (length q)\<rparr>,
    tab_loc = -1, constant_tab = -1, last_tab_loc = -1, blanks = (\<lambda>_. 0), blank_len = 0, firstInput = True, program_status = SHELL,
    first = False, hs = \<lparr>hs_len = 0, hs_start = 0, hs_current = 0, hs_history = zero_bytes\<rparr>,
    ec = \<lparr>ec_len = 0, ec_commands = zero_bytes\<rparr>, uart = True, serial_out = [], crt = (\<lambda>_. 0), crt_pos = 0\<rparr>"

definition wit_cons :: "lockid set \<Rightarrow> byte list \<Rightarrow> cons_st" where
  "wit_cons h q = (file_st.extend wit_file (cons_st.fields (wit_con q)))
    \<lparr>held := h, inodes := (inodes wit_fs)(7 := (inodes wit_fs 7)\<lparr>i_ref := 1, i_busy := True, i_valid := True\<rparr>)\<rparr>"

lemma wit_cons [simp]: "held (wit_cons h q) = h" "con (wit_cons h q) = wit_con q"
  "i_ref (inodes (wit_cons h q) 7) = 1" "i_busy (inodes (wit_cons h q) 7)" "i_valid (inodes (wit_cons h q) 7)"
  by (simp_all add: wit_cons_def file_st.extend_def cons_st.fields_def)

lemma wit_con_ok: "con_ok (wit_con q)" "uart (wit_con q)" "program_status (wit_con q) = SHELL" "serial_out (wit_con q) = []"
  by (simp_all add: wit_con_def con_ok_def)

lemma wit_con_input: "length q \<le> 128 \<Longrightarrow> in_inv (c_input (wit_con q)) \<and> in_queue (c_input (wit_con q)) = q \<and> in_line (c_input (wit_con q)) = []"
proof -
  assume l: "length q \<le> 128"
  then have n: "unat (of_nat (length q) :: 32 word) = length q" by (simp add: unat_of_nat)
  have "in_all (c_input (wit_con q)) = q" if "length q \<le> 128"
    using l by (simp add: wit_con_def in_all_def ring_items_def ring_count_def u32_def n INPUT_BUF_def)
      (auto intro!: nth_equalityI simp: cstr_def)
  then show ?thesis using l n by (simp add: in_inv_def in_queue_def in_line_def) (simp add: wit_con_def INPUT_BUF_def)
qed


theorem consoleread_takes_line_witness:
  "\<exists>t. consoleread 7 100 (wit_cons {} [104, 105, 10, 97]) = Ok (3, [104, 105, 10]) t \<and> in_queue (c_input (con t)) = [97]"
proof -
  have "line_read True (nat 100) [104, 105, 10, 97] = Some ([104, 105, 10], [97])" by code_simp
  then show ?thesis
    using consoleread_takes_line [of "wit_cons {} [104, 105, 10, 97]" 7 100 "[104, 105, 10]" "[97]"] wit_con_input [of "[104, 105, 10, 97]"]
    by auto
qed

theorem consolewrite_output_witness:
  "\<exists>t. consolewrite 7 (cstr [104, 105]) 2 (wit_cons {} []) = Ok 2 t \<and> serial_out (con t) = [104, 105]"
  using consolewrite_output [of "wit_cons {} []" 7 2 "cstr [104, 105]"] wit_con_ok by (auto simp: cstr_def upt_rec)

theorem escape_overwrites_input_witness:
  "\<exists>t. consoleintr_key (\<lambda>_. []) 27 (wit_cons {LK_input} (replicate 128 97)) = Ok () t \<and> in_buf (c_input (con t)) 0 = 69"
proof -
  have "unat (in_e (c_input (con (wit_cons {LK_input} (replicate 128 97)))) - in_r (c_input (con (wit_cons {LK_input} (replicate 128 97))))) = INPUT_BUF"
    by (simp add: wit_con_def INPUT_BUF_def)
  from escape_overwrites_input [OF this, of "\<lambda>_. []"] obtain t where
    "consoleintr_key (\<lambda>_. []) 27 (wit_cons {LK_input} (replicate 128 97)) = Ok () t" "in_r (c_input (con t)) = in_r (c_input (wit_con (replicate 128 97)))"
    "in_buf (c_input (con t)) (unat (in_r (c_input (con t))) mod INPUT_BUF) = 69"
    using wit_con_ok by auto
  moreover have "in_r (c_input (wit_con (replicate 128 97))) = 0" by (simp add: wit_con_def)
  ultimately show ?thesis by auto
qed

theorem printint_prints_witness: "\<exists>ds. printint_chars (- 42) 10 True = 45 # ds \<and> num_val 10 ds = 42"
  using printint_prints [of 10 "- 42" True] by auto

end
