(* ===== verification/Sysfile.thy ===== *)
theory Sysfile
  imports Console
begin

unbundle bit_operations_syntax

text \<open>
  The file system calls and the calls added for the shell (\<open>sysfile.c\<close>).

  Each call reads its arguments from the user stack of the current process as theory \<open>Uaccess\<close> does.
  Results that the code stores through a user pointer are stored in the page it maps to.
\<close>

section \<open>Calls of the shell and the console\<close>

text \<open>
  A failing \<open>argptr\<close> leaves the pointer null and the code does not test for it: the call reads at
  address 0 of the process.
\<close>

definition unchecked_ptr :: "nat \<Rightarrow> nat \<Rightarrow> ('z mem_st_scheme, nat) kern" where
  "unchecked_ptr n sz = kbind (argptr n (int sz)) (\<lambda>r. kret (case r of Some a \<Rightarrow> a | None \<Rightarrow> 0))"

definition sys_test :: "('z mem_st_scheme, int) kern" where
  "sys_test =
    kbind (unchecked_ptr 0 132) (\<lambda>ts.
    kbind (uload32 ts) (\<lambda>v.
    kret (as_int v)))"

definition sys_setProgramStatus :: "('z cons_st_scheme, int) kern" where
  "sys_setProgramStatus =
    kbind (argint 0) (\<lambda>r.
    kthen (case r of Some v \<Rightarrow> cmod (\<lambda>x. x\<lparr>program_status := v\<rparr>) | None \<Rightarrow> kret ()) (
    kret 0))"

text \<open>The string at a user address, as \<open>strlen\<close> walks over it.\<close>

function ustr_from :: "nat \<Rightarrow> byte list \<Rightarrow> ('z mem_st_scheme, byte list) kern" where
  "ustr_from va acc =
    (if va < 4294967296 then
       kbind (uload va) (\<lambda>b.
       if b = 0 then kret acc else ustr_from (va + 1) (acc @ [b]))
     else undefined_behaviour)"
  by pat_completeness auto

termination
  by (relation "measure (\<lambda>(va, acc). 4294967296 - va)") auto

declare ustr_from.simps [simp del]

text \<open>\<open>strncpy\<close> of \<open>l\<close> to position \<open>i\<close> of an array.\<close>

definition array_put :: "nat \<Rightarrow> byte list \<Rightarrow> bytes \<Rightarrow> bytes" where
  "array_put i l a = (\<lambda>k. if i \<le> k \<and> k < i + length l then l ! (k - i) else a k)"

fun setHistory_from :: "nat \<Rightarrow> nat \<Rightarrow> nat \<Rightarrow> ('z cons_st_scheme, unit) kern" where
  "setHistory_from p i 0 = kret ()"
| "setHistory_from p i (Suc n) =
    kbind (ustr_from (p + 12 + H_LEN * i) []) (\<lambda>l.
    if H_LEN * i + length l > H_ITEMS * H_LEN then undefined_behaviour
    else
      kthen (cmod (\<lambda>x. x\<lparr>hs := (hs x)\<lparr>hs_history := array_put (H_LEN * i) l (hs_history (hs x))\<rparr>\<rparr>)) (
      setHistory_from p (i + 1) n))"

definition sys_setHistory :: "('z cons_st_scheme, int) kern" where
  "sys_setHistory =
    kbind (unchecked_ptr 0 4108) (\<lambda>p.
    kbind (uload32 p) (\<lambda>len.
    kbind (uload32 (p + 4)) (\<lambda>start.
    kbind (uload32 (p + 8)) (\<lambda>cur.
    kthen (cmod (\<lambda>x. x\<lparr>hs := \<lparr>hs_len = as_int len, hs_start = as_int start, hs_current = as_int cur,
      hs_history = zero_bytes\<rparr>\<rparr>)) (
    kthen (setHistory_from p 0 (nat (as_int len))) (
    kthen (cmod (\<lambda>x. x\<lparr>first := True\<rparr>)) (
    kret 0)))))))"

fun setExeCmd_from :: "nat \<Rightarrow> nat \<Rightarrow> nat \<Rightarrow> ('z cons_st_scheme, unit) kern" where
  "setExeCmd_from p i 0 = kret ()"
| "setExeCmd_from p i (Suc n) =
    kbind (ustr_from (p + 4 + EXECMD_LEN * i) []) (\<lambda>l.
    if EXECMD_LEN * i + length l > MAX_EXECMD * EXECMD_LEN then undefined_behaviour
    else
      kthen (cmod (\<lambda>x. x\<lparr>ec := (ec x)\<lparr>ec_commands := array_put (EXECMD_LEN * i) l (ec_commands (ec x))\<rparr>\<rparr>)) (
      setExeCmd_from p (i + 1) n))"

definition sys_setExeCmd :: "('z cons_st_scheme, int) kern" where
  "sys_setExeCmd =
    kbind (unchecked_ptr 0 8196) (\<lambda>p.
    kbind (uload32 p) (\<lambda>len.
    kthen (cmod (\<lambda>x. x\<lparr>ec := \<lparr>ec_len = as_int len, ec_commands = zero_bytes\<rparr>\<rparr>)) (
    kthen (setExeCmd_from p 0 (nat (as_int len))) (
    kthen (cmod (\<lambda>x. x\<lparr>tab_loc := -1\<rparr>)) (
    kret 0)))))"

section \<open>Descriptors\<close>

definition sys_dup :: "('z file_st_scheme, int) kern" where
  "sys_dup =
    kbind (argfd 0) (\<lambda>r.
    case r of None \<Rightarrow> kret (-1)
    | Some (_, f) \<Rightarrow>
      kbind (fdalloc f) (\<lambda>fd.
      if fd < 0 then kret (-1)
      else kthen (filedup f) (kret fd)))"

text \<open>The arguments of \<open>read\<close> and \<open>write\<close>: file, buffer address and count.\<close>

definition rw_args :: "('z mem_st_scheme, (nat \<times> nat \<times> int) option) kern" where
  "rw_args =
    kbind (argfd 0) (\<lambda>r.
    case r of None \<Rightarrow> kret None
    | Some (_, f) \<Rightarrow>
      kbind (argint 2) (\<lambda>r.
      case r of None \<Rightarrow> kret None
      | Some n \<Rightarrow>
        kbind (argptr 1 n) (\<lambda>r.
        case r of None \<Rightarrow> kret None
        | Some p \<Rightarrow> kret (Some (f, p, n)))))"

definition sys_read :: "'z fdevsw \<Rightarrow> ('z file_st_scheme, int) kern" where
  "sys_read dv =
    kbind rw_args (\<lambda>r.
    case r of None \<Rightarrow> kret (-1)
    | Some (f, p, n) \<Rightarrow>
      kbind (fileread dv f n) (\<lambda>(r, bs).
      kthen (ustore p bs) (
      kret r)))"

definition sys_write :: "'z fdevsw \<Rightarrow> ('z file_st_scheme, int) kern" where
  "sys_write dv =
    kbind rw_args (\<lambda>r.
    case r of None \<Rightarrow> kret (-1)
    | Some (f, p, n) \<Rightarrow>
      kbind (ubuf p) (\<lambda>src.
      filewrite dv f src n))"

definition sys_close :: "('z file_st_scheme, int) kern" where
  "sys_close =
    kbind (argfd 0) (\<lambda>r.
    case r of None \<Rightarrow> kret (-1)
    | Some (fd, f) \<Rightarrow>
      kbind myproc (\<lambda>c.
      kthen (set_proc c (\<lambda>x. x\<lparr>p_ofile := (p_ofile x)(fd := None)\<rparr>)) (
      kthen (fileclose f) (
      kret 0))))"

text \<open>\<open>stati\<close> stores the fields of \<open>struct stat\<close>; the padding after the two shorts is not written.\<close>

definition store_stat :: "nat \<Rightarrow> stat \<Rightarrow> ('z mem_st_scheme, unit) kern" where
  "store_stat p st =
    kthen (ustore p (take 2 (word_bytes (as_uint (st_type st))))) (
    kthen (ustore (p + 4) (word_bytes (st_dev st) @ word_bytes (st_ino st))) (
    kthen (ustore (p + 12) (take 2 (word_bytes (as_uint (st_nlink st))))) (
    ustore (p + 16) (word_bytes (st_size st)))))"

definition sys_fstat :: "('z file_st_scheme, int) kern" where
  "sys_fstat =
    kbind (argfd 0) (\<lambda>r.
    case r of None \<Rightarrow> kret (-1)
    | Some (_, f) \<Rightarrow>
      kbind (argptr 1 20) (\<lambda>r.
      case r of None \<Rightarrow> kret (-1)
      | Some p \<Rightarrow>
        kbind (filestat f) (\<lambda>r.
        case r of None \<Rightarrow> kret (-1)
        | Some st \<Rightarrow> kthen (store_stat p st) (kret 0))))"

section \<open>Links\<close>

definition add_nlink :: "nat \<Rightarrow> int \<Rightarrow> ('z fs_st_scheme, unit) kern" where
  "add_nlink ip d =
    kthen (set_inode ip (\<lambda>x. x\<lparr>i_nlink := s16 (i_nlink x + d)\<rparr>)) (
    iupdate ip)"

text \<open>The label \<open>bad\<close> of \<open>sys_link\<close>.\<close>

definition sys_link_bad :: "nat \<Rightarrow> ('z fs_st_scheme, int) kern" where
  "sys_link_bad ip =
    kthen (ilock (Some ip)) (
    kthen (add_nlink ip (-1)) (
    kthen (iunlockput ip) (
    kthen commit_trans (
    kret (-1)))))"

definition sys_link :: "('z mem_st_ext) devsw \<Rightarrow> ('z mem_st_scheme, int) kern" where
  "sys_link dv =
    kbind (argstr 0) (\<lambda>r0.
    case r0 of None \<Rightarrow> kret (-1)
    | Some old \<Rightarrow>
    kbind (argstr 1) (\<lambda>r1.
    case r1 of None \<Rightarrow> kret (-1)
    | Some new \<Rightarrow>
      kbind (namei dv old) (\<lambda>r.
      case r of None \<Rightarrow> kret (-1)
      | Some ip \<Rightarrow>
        kthen begin_trans (
        kthen (ilock (Some ip)) (
        kbind (kget (\<lambda>s. i_type (inodes s ip))) (\<lambda>ty.
        if ty = T_DIR then
          kthen (iunlockput ip) (
          kthen commit_trans (
          kret (-1)))
        else
          kthen (add_nlink ip 1) (
          kthen (iunlock (Some ip)) (
          kbind (nameiparent dv new zero_bytes) (\<lambda>r.
          case r of None \<Rightarrow> sys_link_bad ip
          | Some (dp, name) \<Rightarrow>
            kthen (ilock (Some dp)) (
            kbind (kget (\<lambda>s. (i_dev (inodes s dp), inodes s ip))) (\<lambda>(ddev, x).
            kbind (if ddev \<noteq> i_dev x then kret (-1) else dirlink dv dp name (i_inum x)) (\<lambda>r.
            if r < 0 then
              kthen (iunlockput dp) (
              sys_link_bad ip)
            else
              kthen (iunlockput dp) (
              kthen (iput ip) (
              kthen commit_trans (
              kret 0)))))))))))))))"

function isdirempty_from :: "('z mem_st_ext) devsw \<Rightarrow> nat \<Rightarrow> nat \<Rightarrow> nat \<Rightarrow> ('z mem_st_scheme, bool) kern" where
  "isdirempty_from dv dp sz off =
    (if off < sz then
       kbind (readi dv dp off 16) (\<lambda>(r, bs).
       if r \<noteq> 16 then kpanic ''isdirempty: readi''
       else if d_inum (get_dirent bs) \<noteq> 0 then kret False
       else isdirempty_from dv dp sz (off + 16))
     else kret True)"
  by pat_completeness auto

termination
  by (relation "measure (\<lambda>(dv, dp, sz, off). sz - off)") auto

declare isdirempty_from.simps [simp del]

definition isdirempty :: "('z mem_st_ext) devsw \<Rightarrow> nat \<Rightarrow> ('z mem_st_scheme, bool) kern" where
  "isdirempty dv dp = kbind (kget (\<lambda>s. i_size (inodes s dp))) (\<lambda>sz. isdirempty_from dv dp sz 32)"

definition sys_unlink_bad :: "nat \<Rightarrow> ('z fs_st_scheme, int) kern" where
  "sys_unlink_bad dp =
    kthen (iunlockput dp) (
    kthen commit_trans (
    kret (-1)))"

definition sys_unlink :: "('z mem_st_ext) devsw \<Rightarrow> ('z mem_st_scheme, int) kern" where
  "sys_unlink dv =
    kbind (argstr 0) (\<lambda>r.
    case r of None \<Rightarrow> kret (-1)
    | Some path \<Rightarrow>
      kbind (nameiparent dv path zero_bytes) (\<lambda>r.
      case r of None \<Rightarrow> kret (-1)
      | Some (dp, name) \<Rightarrow>
        kthen begin_trans (
        kthen (ilock (Some dp)) (
        if namecmp name (cstr [46]) = 0 \<or> namecmp name (cstr [46, 46]) = 0 then sys_unlink_bad dp
        else
          kbind (dirlookup dv dp name) (\<lambda>r.
          case r of None \<Rightarrow> sys_unlink_bad dp
          | Some (ip, off) \<Rightarrow>
            kthen (ilock (Some ip)) (
            kbind (kget (\<lambda>s. inodes s ip)) (\<lambda>x.
            if i_nlink x < 1 then kpanic ''unlink: nlink < 1''
            else
              kbind (if i_type x = T_DIR then isdirempty dv ip else kret True) (\<lambda>emp.
              if \<not> emp then
                kthen (iunlockput ip) (
                sys_unlink_bad dp)
              else
                kbind (writei dv dp zero_bytes off 16) (\<lambda>r.
                if r \<noteq> 16 then kpanic ''unlink: writei''
                else
                  kbind (kget (\<lambda>s. i_type (inodes s ip))) (\<lambda>ty.
                  kthen (kwhen (ty = T_DIR) (add_nlink dp (-1))) (
                  kthen (iunlockput dp) (
                  kthen (add_nlink ip (-1)) (
                  kthen (iunlockput ip) (
                  kthen commit_trans (
                  kret 0))))))))))))))) "

section \<open>Creation and opening\<close>

text \<open>\<open>create\<close> returns the locked inode, or \<open>None\<close> for null.\<close>

definition create_new :: "('z mem_st_ext) devsw \<Rightarrow> nat \<Rightarrow> bytes \<Rightarrow> int \<Rightarrow> int \<Rightarrow> int \<Rightarrow> ('z mem_st_scheme, nat option) kern" where
  "create_new dv dp name ty mj mn =
    kbind (kget (\<lambda>s. i_dev (inodes s dp))) (\<lambda>dev.
    kbind (ialloc dev ty) (\<lambda>ip.
    kthen (ilock (Some ip)) (
    kthen (set_inode ip (\<lambda>x. x\<lparr>i_major := mj, i_minor := mn, i_nlink := 1\<rparr>)) (
    kthen (iupdate ip) (
    kbind (kget (\<lambda>s. (i_inum (inodes s ip), i_inum (inodes s dp)))) (\<lambda>(inum, dnum).
    kthen (kwhen (ty = T_DIR) (
      kthen (add_nlink dp 1) (
      kbind (dirlink dv ip (cstr [46]) inum) (\<lambda>r.
      if r < 0 then kpanic ''create dots''
      else
        kbind (dirlink dv ip (cstr [46, 46]) dnum) (\<lambda>r.
        if r < 0 then kpanic ''create dots'' else kret ()))))) (
    kbind (dirlink dv dp name inum) (\<lambda>r.
    if r < 0 then kpanic ''create: dirlink''
    else
      kthen (iunlockput dp) (
      kret (Some ip))))))))))"

definition create :: "('z mem_st_ext) devsw \<Rightarrow> byte list \<Rightarrow> int \<Rightarrow> int \<Rightarrow> int \<Rightarrow> ('z mem_st_scheme, nat option) kern" where
  "create dv path ty mj mn =
    kbind (nameiparent dv path zero_bytes) (\<lambda>r.
    case r of None \<Rightarrow> kret None
    | Some (dp, name) \<Rightarrow>
      kthen (ilock (Some dp)) (
      kbind (dirlookup dv dp name) (\<lambda>r.
      case r of
        Some (ip, off) \<Rightarrow>
          kthen (iunlockput dp) (
          kthen (ilock (Some ip)) (
          kbind (kget (\<lambda>s. i_type (inodes s ip))) (\<lambda>ity.
          if ty = T_FILE \<and> ity = T_FILE then kret (Some ip)
          else
            kthen (iunlockput ip) (
            kret None))))
      | None \<Rightarrow> create_new dv dp name ty mj mn)))"

definition O_RDONLY :: int where "O_RDONLY = 0"
definition O_WRONLY :: int where "O_WRONLY = 1"
definition O_RDWR :: int where "O_RDWR = 2"
definition O_CREATE :: int where "O_CREATE = 0x200"

text \<open>The inode that \<open>sys_open\<close> opens, locked.\<close>

definition open_inode :: "('z mem_st_ext) devsw \<Rightarrow> byte list \<Rightarrow> int \<Rightarrow> ('z mem_st_scheme, nat option) kern" where
  "open_inode dv path omode =
    (if omode AND O_CREATE \<noteq> 0 then
       kthen begin_trans (
       kbind (create dv path T_FILE 0 0) (\<lambda>ip.
       kthen commit_trans (
       kret ip)))
     else
       kbind (namei dv path) (\<lambda>r.
       case r of None \<Rightarrow> kret None
       | Some ip \<Rightarrow>
         kthen (ilock (Some ip)) (
         kbind (kget (\<lambda>s. i_type (inodes s ip))) (\<lambda>ty.
         if ty = T_DIR \<and> omode \<noteq> O_RDONLY then
           kthen (iunlockput ip) (
           kret None)
         else kret (Some ip)))))"

definition sys_open :: "'z fdevsw \<Rightarrow> ('z file_st_scheme, int) kern" where
  "sys_open dv =
    kbind (argstr 0) (\<lambda>r.
    case r of None \<Rightarrow> kret (-1)
    | Some path \<Rightarrow>
    kbind (argint 1) (\<lambda>r.
    case r of None \<Rightarrow> kret (-1)
    | Some omode \<Rightarrow>
      kbind (open_inode dv path omode) (\<lambda>r.
      case r of None \<Rightarrow> kret (-1)
      | Some ip \<Rightarrow>
        kbind filealloc (\<lambda>fo.
        case fo of None \<Rightarrow> kthen (iunlockput ip) (kret (-1))
        | Some f \<Rightarrow>
          kbind (fdalloc f) (\<lambda>fd.
          if fd < 0 then
            kthen (fileclose f) (
            kthen (iunlockput ip) (
            kret (-1)))
          else
            kthen (iunlock (Some ip)) (
            kthen (set_file f (\<lambda>x. x\<lparr>f_type := FD_INODE, f_ip := ip, f_off := 0,
              f_readable := omode AND O_WRONLY = 0,
              f_writable := omode AND O_WRONLY \<noteq> 0 \<or> omode AND O_RDWR \<noteq> 0\<rparr>)) (
            kret fd)))))))"

text \<open>The failure exit of \<open>sys_mkdir\<close> and \<open>sys_mknod\<close>, and their end after \<open>create\<close>.\<close>

definition mk_fail :: "('z mem_st_scheme, int) kern" where
  "mk_fail = kthen commit_trans (kret (-1))"

definition mk_end :: "nat option \<Rightarrow> ('z mem_st_scheme, int) kern" where
  "mk_end r =
    (case r of None \<Rightarrow> mk_fail
     | Some ip \<Rightarrow>
       kthen (iunlockput ip) (
       kthen commit_trans (
       kret 0)))"

definition sys_mkdir :: "('z mem_st_ext) devsw \<Rightarrow> ('z mem_st_scheme, int) kern" where
  "sys_mkdir dv =
    kthen begin_trans (
    kbind (argstr 0) (\<lambda>r.
    case r of None \<Rightarrow> mk_fail
    | Some path \<Rightarrow> kbind (create dv path T_DIR 0 0) mk_end))"

definition sys_mknod :: "('z mem_st_ext) devsw \<Rightarrow> ('z mem_st_scheme, int) kern" where
  "sys_mknod dv =
    kthen begin_trans (
    kbind (argstr 0) (\<lambda>r.
    case r of None \<Rightarrow> mk_fail
    | Some path \<Rightarrow>
    kbind (argint 1) (\<lambda>r.
    case r of None \<Rightarrow> mk_fail
    | Some mj \<Rightarrow>
    kbind (argint 2) (\<lambda>r.
    case r of None \<Rightarrow> mk_fail
    | Some mn \<Rightarrow> kbind (create dv path T_DEV (s16 mj) (s16 mn)) mk_end))))"

definition sys_chdir :: "('z mem_st_ext) devsw \<Rightarrow> ('z mem_st_scheme, int) kern" where
  "sys_chdir dv =
    kbind (argstr 0) (\<lambda>r.
    case r of None \<Rightarrow> kret (-1)
    | Some path \<Rightarrow>
      kbind (namei dv path) (\<lambda>r.
      case r of None \<Rightarrow> kret (-1)
      | Some ip \<Rightarrow>
        kthen (ilock (Some ip)) (
        kbind (kget (\<lambda>s. i_type (inodes s ip))) (\<lambda>ty.
        if ty \<noteq> T_DIR then
          kthen (iunlockput ip) (
          kret (-1))
        else
          kthen (iunlock (Some ip)) (
          kbind myproc (\<lambda>c.
          kbind (kget (\<lambda>s. p_cwd (ptable s c))) (\<lambda>cwd.
          kthen (case cwd of Some old \<Rightarrow> iput old | None \<Rightarrow> kpanic ''trap'') (
          kthen (set_proc c (\<lambda>x. x\<lparr>p_cwd := Some ip\<rparr>)) (
          kret 0)))))))))"

text \<open>The loop of \<open>sys_exec\<close> over the user's \<open>argv\<close>, with \<open>k\<close> entries of the array left.\<close>

fun exec_argv :: "nat \<Rightarrow> nat \<Rightarrow> byte list list \<Rightarrow> ('z mem_st_scheme, byte list list option) kern" where
  "exec_argv uargv 0 acc = kret None"
| "exec_argv uargv (Suc k) acc =
    kbind (fetchint uargv) (\<lambda>r.
    case r of None \<Rightarrow> kret None
    | Some uarg \<Rightarrow>
      if uarg = 0 then kret (Some acc)
      else
        kbind (fetchstr (as_uint uarg)) (\<lambda>r.
        case r of None \<Rightarrow> kret None
        | Some a \<Rightarrow> exec_argv (u32 (uargv + 4)) k (acc @ [a])))"

definition sys_exec :: "('z mem_st_ext) devsw \<Rightarrow> bytes \<Rightarrow> ('z mem_st_scheme, int) kern" where
  "sys_exec dv junk =
    kbind (argstr 0) (\<lambda>r.
    case r of None \<Rightarrow> kret (-1)
    | Some path \<Rightarrow>
    kbind (argint 1) (\<lambda>r.
    case r of None \<Rightarrow> kret (-1)
    | Some uargv \<Rightarrow>
      kbind (exec_argv (as_uint uargv) MAXARG []) (\<lambda>r.
      case r of None \<Rightarrow> kret (-1)
      | Some argv \<Rightarrow> exec dv junk path argv)))"

definition sys_pipe :: "('z file_st_scheme, int) kern" where
  "sys_pipe =
    kbind (argptr 0 8) (\<lambda>r.
    case r of None \<Rightarrow> kret (-1)
    | Some p \<Rightarrow>
      kbind pipealloc (\<lambda>r.
      case r of None \<Rightarrow> kret (-1)
      | Some (rdf, wrf) \<Rightarrow>
        kbind (fdalloc rdf) (\<lambda>fd0.
        kbind (if fd0 < 0 then kret (-1) else fdalloc wrf) (\<lambda>fd1.
        if fd1 < 0 then
          kthen (kwhen (fd0 \<ge> 0) (
            kbind myproc (\<lambda>c.
            set_proc c (\<lambda>x. x\<lparr>p_ofile := (p_ofile x)(nat fd0 := None)\<rparr>)))) (
          kthen (fileclose rdf) (
          kthen (fileclose wrf) (
          kret (-1))))
        else
          kthen (ustore p (word_bytes (nat fd0))) (
          kthen (ustore (p + 4) (word_bytes (nat fd1))) (
          kret 0))))))"

end
