(* ===== verification/Syscall.thy ===== *)
theory Syscall
  imports Sysfile
begin

unbundle bit_operations_syntax

text \<open>
  The process system calls (\<open>sysproc.c\<close>), the dispatcher (\<open>syscall.c\<close>) and the trap handler
  (\<open>trap.c\<close>).

  \<open>trap_st\<close> extends the state by \<open>ticks\<close> and by the \<open>shift\<close> variable of the keyboard driver.  What the
  hardware gives to a trap (the number of the CPU, the fault address, the bytes that wait at the keyboard
  and at the serial line) is the record \<open>hw\<close>.  The handler of the disk interrupt is an argument: in
  theory \<open>Bio\<close> a transfer is over when \<open>iderw\<close> returns, and theory \<open>Ide\<close> has the queue of the driver.
\<close>

record trap_st = cons_st +
  ticks :: nat
  kbd_shift :: nat

type_synonym 'z tdevsw = "('z trap_st_ext) cdevsw"

section \<open>Process calls\<close>

definition sys_fork :: "('z file_st_scheme, int) kern" where
  "sys_fork = fork"

definition sys_exit :: "('z file_st_scheme, int) kern" where
  "sys_exit = kthen (exit :: (_, unit) kern) (kret 0)"

definition sys_wait :: "('z mem_st_scheme, int) kern" where
  "sys_wait = wait"

definition sys_kill :: "('z mem_st_scheme, int) kern" where
  "sys_kill =
    kbind (argint 0) (\<lambda>r.
    case r of None \<Rightarrow> kret (-1)
    | Some pid \<Rightarrow> kill pid)"

definition sys_getpid :: "('z kst_scheme, int) kern" where
  "sys_getpid = kbind myproc (\<lambda>c. kget (\<lambda>s. p_pid (ptable s c)))"

definition sys_sbrk :: "('z mem_st_scheme, int) kern" where
  "sys_sbrk =
    kbind (argint 0) (\<lambda>r.
    case r of None \<Rightarrow> kret (-1)
    | Some n \<Rightarrow>
      kbind myproc (\<lambda>c.
      kbind (kget (\<lambda>s. as_int (p_sz (ptable s c)))) (\<lambda>addr.
      kbind (growproc n) (\<lambda>r.
      if r < 0 then kret (-1) else kret addr))))"

text \<open>The loop of \<open>sys_sleep\<close>, entered with \<open>tickslock\<close> held: it returns or goes to sleep.\<close>

definition sys_sleep_from :: "nat \<Rightarrow> int \<Rightarrow> ('z trap_st_scheme, int) kern" where
  "sys_sleep_from ticks0 n =
    kbind (kget ticks) (\<lambda>t.
    if u32 (t + 4294967296 - ticks0) < as_uint n then
      kbind myproc (\<lambda>c.
      kbind (kget (\<lambda>s. p_killed (ptable s c))) (\<lambda>k.
      if k then
        kthen (release_lk LK_ticks) (
        kret (-1))
      else sleep Ch_ticks LK_ticks))
    else
      kthen (release_lk LK_ticks) (
      kret 0))"

definition sys_sleep :: "('z trap_st_scheme, int) kern" where
  "sys_sleep =
    kbind (argint 0) (\<lambda>r.
    case r of None \<Rightarrow> kret (-1)
    | Some n \<Rightarrow>
      kthen (acquire_lk LK_ticks) (
      kbind (kget ticks) (\<lambda>ticks0.
      sys_sleep_from ticks0 n)))"

definition sys_uptime :: "('z trap_st_scheme, int) kern" where
  "sys_uptime =
    kthen (acquire_lk LK_ticks) (
    kbind (kget ticks) (\<lambda>xticks.
    kthen (release_lk LK_ticks) (
    kret (as_int xticks))))"

section \<open>Dispatch\<close>

text \<open>The table \<open>syscalls\<close>; entry 0 is empty and the last one is \<open>SYS_setProgramStatus\<close>.\<close>

definition syscalls :: "'z tdevsw \<Rightarrow> bytes \<Rightarrow> int \<Rightarrow> ('z trap_st_scheme, int) kern option" where
  "syscalls dv junk num =
    (if num = 1 then Some sys_fork
     else if num = 2 then Some sys_exit
     else if num = 3 then Some sys_wait
     else if num = 4 then Some sys_pipe
     else if num = 5 then Some (sys_read dv)
     else if num = 6 then Some sys_kill
     else if num = 7 then Some (sys_exec dv junk)
     else if num = 8 then Some sys_fstat
     else if num = 9 then Some (sys_chdir dv)
     else if num = 10 then Some sys_dup
     else if num = 11 then Some sys_getpid
     else if num = 12 then Some sys_sbrk
     else if num = 13 then Some sys_sleep
     else if num = 14 then Some sys_uptime
     else if num = 15 then Some (sys_open dv)
     else if num = 16 then Some (sys_write dv)
     else if num = 17 then Some (sys_mknod dv)
     else if num = 18 then Some (sys_unlink dv)
     else if num = 19 then Some (sys_link dv)
     else if num = 20 then Some (sys_mkdir dv)
     else if num = 21 then Some sys_close
     else if num = 22 then Some sys_test
     else if num = 23 then Some sys_setHistory
     else if num = 24 then Some sys_setExeCmd
     else if num = 25 then Some sys_setProgramStatus
     else None)"

definition syscall :: "'z tdevsw \<Rightarrow> bytes \<Rightarrow> ('z trap_st_scheme, unit) kern" where
  "syscall dv junk =
    kbind myproc (\<lambda>c.
    kbind (kget (\<lambda>s. ptable s c)) (\<lambda>x.
    case syscalls dv junk (as_int (tf_eax (p_tf x))) of
      Some call \<Rightarrow>
        kbind call (\<lambda>r.
        set_proc c (\<lambda>x. x\<lparr>p_tf := (p_tf x)\<lparr>tf_eax := as_uint r\<rparr>\<rparr>))
    | None \<Rightarrow>
        kthen (cprintf (''%d %s: unknown sys call %d'' @ [char_of (10 :: nat)])
          [CInt (p_pid x), CStr (Some (map of_char (p_name x))), CInt (as_int (tf_eax (p_tf x)))]) (
        set_proc c (\<lambda>x. x\<lparr>p_tf := (p_tf x)\<lparr>tf_eax := as_uint (-1)\<rparr>\<rparr>))))"

section \<open>Traps\<close>

definition T_SYSCALL :: nat where "T_SYSCALL = 64"
definition T_IRQ0 :: nat where "T_IRQ0 = 32"
definition IRQ_TIMER :: nat where "IRQ_TIMER = 0"
definition IRQ_KBD :: nat where "IRQ_KBD = 1"
definition IRQ_COM1 :: nat where "IRQ_COM1 = 4"
definition IRQ_IDE :: nat where "IRQ_IDE = 14"
definition IRQ_SPURIOUS :: nat where "IRQ_SPURIOUS = 31"

record hw =
  hw_cpu :: int
  hw_cr2 :: int
  hw_kbd :: "nat list"
  hw_uart :: "byte list"
  hw_pcs :: "nat \<Rightarrow> nat list"

definition trap_syscall :: "'z tdevsw \<Rightarrow> bytes \<Rightarrow> trapframe \<Rightarrow> ('z trap_st_scheme, unit) kern" where
  "trap_syscall dv junk tf =
    kbind myproc (\<lambda>c.
    kbind (kget (\<lambda>s. p_killed (ptable s c))) (\<lambda>k.
    kthen (if k then exit else kret ()) (
    kthen (set_proc c (\<lambda>x. x\<lparr>p_tf := tf\<rparr>)) (
    kthen (syscall dv junk) (
    kbind (kget (\<lambda>s. p_killed (ptable s c))) (\<lambda>k.
    if k then exit else kret ()))))))"

definition timer_tick :: "('z trap_st_scheme, unit) kern" where
  "timer_tick =
    kthen (acquire_lk LK_ticks) (
    kthen (kmod (\<lambda>s. s\<lparr>ticks := u32 (ticks s + 1)\<rparr>)) (
    kthen (wakeup Ch_ticks) (
    release_lk LK_ticks)))"

text \<open>The default case of the switch: a fault.\<close>

definition trap_fault :: "hw \<Rightarrow> trapframe \<Rightarrow> ('z trap_st_scheme, unit) kern" where
  "trap_fault h tf =
    kbind (kget curproc) (\<lambda>cp.
    case cp of
      Some c \<Rightarrow>
        if tf_cs tf AND 3 = 0 then kpanic ''trap''
        else
          kbind (kget (\<lambda>s. ptable s c)) (\<lambda>x.
          kthen (cprintf (''pid %d %s: trap %d err %d on cpu %d eip 0x%x addr 0x%x--kill proc'' @ [char_of (10 :: nat)])
            [CInt (p_pid x), CStr (Some (map of_char (p_name x))), CInt (int (tf_trapno tf)), CInt (int (tf_err tf)),
             CInt (hw_cpu h), CInt (int (tf_eip tf)), CInt (hw_cr2 h)]) (
          set_proc c (\<lambda>x. x\<lparr>p_killed := True\<rparr>)))
    | None \<Rightarrow> kpanic ''trap'')"

definition trap_dispatch :: "('z trap_st_scheme, unit) kern \<Rightarrow> hw \<Rightarrow> trapframe \<Rightarrow> ('z trap_st_scheme, unit) kern" where
  "trap_dispatch ide h tf =
    (if tf_trapno tf = T_IRQ0 + IRQ_TIMER then kwhen (hw_cpu h = 0) timer_tick
     else if tf_trapno tf = T_IRQ0 + IRQ_IDE then ide
     else if tf_trapno tf = T_IRQ0 + IRQ_IDE + 1 then kret ()
     else if tf_trapno tf = T_IRQ0 + IRQ_KBD then
       kbind (kget kbd_shift) (\<lambda>sh.
       kbind (kbdintr (hw_pcs h) sh (hw_kbd h)) (\<lambda>sh'.
       kmod (\<lambda>s. s\<lparr>kbd_shift := sh'\<rparr>)))
     else if tf_trapno tf = T_IRQ0 + IRQ_COM1 then uartintr (hw_pcs h) (hw_uart h)
     else if tf_trapno tf = T_IRQ0 + 7 \<or> tf_trapno tf = T_IRQ0 + IRQ_SPURIOUS then
       cprintf (''cpu%d: spurious interrupt at %x:%x'' @ [char_of (10 :: nat)])
         [CInt (hw_cpu h), CInt (int (tf_cs tf)), CInt (int (tf_eip tf))]
     else trap_fault h tf)"

definition exit_if_killed :: "trapframe \<Rightarrow> ('z file_st_scheme, unit) kern" where
  "exit_if_killed tf =
    kbind (kget curproc) (\<lambda>cp.
    case cp of None \<Rightarrow> kret ()
    | Some c \<Rightarrow>
      kbind (kget (\<lambda>s. p_killed (ptable s c))) (\<lambda>k.
      if k \<and> tf_cs tf AND 3 = DPL_USER then exit else kret ()))"

definition trap :: "'z tdevsw \<Rightarrow> bytes \<Rightarrow> ('z trap_st_scheme, unit) kern \<Rightarrow> hw \<Rightarrow> trapframe \<Rightarrow> ('z trap_st_scheme, unit) kern" where
  "trap dv junk ide h tf =
    (if tf_trapno tf = T_SYSCALL then trap_syscall dv junk tf
     else
       kthen (trap_dispatch ide h tf) (
       kthen (exit_if_killed tf) (
       kbind (kget curproc) (\<lambda>cp.
       kthen (
         case cp of None \<Rightarrow> kret ()
         | Some c \<Rightarrow>
           kbind (kget (\<lambda>s. p_state (ptable s c))) (\<lambda>st.
           if st = RUNNING \<and> tf_trapno tf = T_IRQ0 + IRQ_TIMER then yield else kret ())) (
       exit_if_killed tf)))))"

end
