(* ===== verification/Spinlock.thy ===== *)
theory Spinlock
  imports Kalloc
begin

unbundle bit_operations_syntax

text \<open>
  The spin locks (\<open>spinlock.c\<close>): \<open>initlock\<close>, \<open>acquire\<close>, \<open>release\<close>, \<open>holding\<close>, \<open>getcallerpcs\<close>, \<open>pushcli\<close>, \<open>popcli\<close>.

  Any number of processors run at the same time.  Each processor is at a point of \<open>acquire\<close> or \<open>release\<close>, or
  runs other code (\<open>Idle\<close>), and a step of the machine is one access of one processor to a lock; \<open>xchg\<close> reads and
  writes the lock word in one step.  \<open>pushcli\<close> and \<open>popcli\<close> touch only what belongs to the processor.

  Shown are mutual exclusion, the relation between held locks, \<open>ncli\<close> and the interrupt flag, and that each
  call is a call of \<open>acquire_lk\<close> or \<open>release_lk\<close>, the contract the other theories use.
\<close>

section \<open>Locks and processors\<close>

record spinlock =
  sl_locked :: nat
  sl_name :: string
  sl_cpu :: "nat option"
  sl_pcs :: "nat list"

definition FL_IF :: "32 word" where "FL_IF = 0x200"

record cpu =
  c_eflags :: "32 word"
  c_ncli :: int
  c_intena :: "32 word"

definition initlock :: "string \<Rightarrow> spinlock \<Rightarrow> spinlock" where
  "initlock name lk = lk\<lparr>sl_name := name, sl_locked := 0, sl_cpu := None\<rparr>"

text \<open>The words of memory at an address are an argument; \<open>ebp\<close> is the first frame.\<close>

fun getcallerpcs_from :: "(nat \<Rightarrow> nat) \<Rightarrow> nat \<Rightarrow> nat \<Rightarrow> nat list" where
  "getcallerpcs_from mem 0 ebp = []"
| "getcallerpcs_from mem (Suc n) ebp =
    (if ebp = 0 \<or> ebp < KERNBASE \<or> ebp = 0xffffffff then replicate (Suc n) 0
     else mem (u32 (ebp + 4)) # getcallerpcs_from mem n (mem ebp))"

definition getcallerpcs :: "(nat \<Rightarrow> nat) \<Rightarrow> nat \<Rightarrow> nat list" where
  "getcallerpcs mem v = getcallerpcs_from mem 10 (u32 (v + 4294967296 - 8))"

definition cli :: "cpu \<Rightarrow> cpu" where
  "cli c = c\<lparr>c_eflags := c_eflags c AND NOT FL_IF\<rparr>"

definition sti :: "cpu \<Rightarrow> cpu" where
  "sti c = c\<lparr>c_eflags := c_eflags c OR FL_IF\<rparr>"

definition pushcli :: "cpu \<Rightarrow> cpu" where
  "pushcli c =
    (let eflags = c_eflags c;
         c = cli c;
         n = c_ncli c;
         c = c\<lparr>c_ncli := n + 1\<rparr>
     in if n = 0 then c\<lparr>c_intena := eflags AND FL_IF\<rparr> else c)"

definition popcli :: "cpu \<Rightarrow> string + cpu" where
  "popcli c =
    (if c_eflags c AND FL_IF \<noteq> 0 then Inl ''popcli - interruptible''
     else
       let c = c\<lparr>c_ncli := c_ncli c - 1\<rparr> in
       if c_ncli c < 0 then Inl ''popcli''
       else if c_ncli c = 0 \<and> c_intena c \<noteq> 0 then Inr (sti c)
       else Inr c)"

section \<open>The machine\<close>

text \<open>Where a processor is, named by what it does next.\<close>

datatype 'l pc =
    Idle
  | Acq_locked 'l
  | Acq_cpu 'l
  | Acq_xchg 'l
  | Acq_set_cpu 'l
  | Acq_set_pcs 'l
  | Rel_locked 'l
  | Rel_cpu 'l
  | Rel_clear_pcs 'l
  | Rel_clear_cpu 'l
  | Rel_xchg 'l
  | Rel_popcli
  | Panicked string

record 'l mach =
  locks :: "'l \<Rightarrow> spinlock"
  cpus :: "nat \<Rightarrow> cpu"
  at :: "nat \<Rightarrow> 'l pc"

definition goto :: "nat \<Rightarrow> 'l pc \<Rightarrow> 'l mach \<Rightarrow> 'l mach" where
  "goto c p m = m\<lparr>at := (at m)(c := p)\<rparr>"

definition set_lock :: "'l \<Rightarrow> (spinlock \<Rightarrow> spinlock) \<Rightarrow> 'l mach \<Rightarrow> 'l mach" where
  "set_lock l f m = m\<lparr>locks := (locks m)(l := f (locks m l))\<rparr>"

definition set_cpu :: "nat \<Rightarrow> cpu \<Rightarrow> 'l mach \<Rightarrow> 'l mach" where
  "set_cpu c x m = m\<lparr>cpus := (cpus m)(c := x)\<rparr>"

text \<open>
  The steps of \<open>acquire\<close> and of \<open>release\<close> by processor \<open>c\<close>.  \<open>holding\<close> reads \<open>locked\<close> and then \<open>cpu\<close>.
\<close>

inductive acquire_step :: "nat \<Rightarrow> 'l mach \<Rightarrow> 'l mach \<Rightarrow> bool" where
  acq_call: "at m c = Idle \<Longrightarrow> acquire_step c m (goto c (Acq_locked l) (set_cpu c (pushcli (cpus m c)) m))"
| acq_not_locked: "at m c = Acq_locked l \<Longrightarrow> sl_locked (locks m l) = 0 \<Longrightarrow> acquire_step c m (goto c (Acq_xchg l) m)"
| acq_locked: "at m c = Acq_locked l \<Longrightarrow> sl_locked (locks m l) \<noteq> 0 \<Longrightarrow> acquire_step c m (goto c (Acq_cpu l) m)"
| acq_holding: "at m c = Acq_cpu l \<Longrightarrow> sl_cpu (locks m l) = Some c \<Longrightarrow> acquire_step c m (goto c (Panicked ''acquire'') m)"
| acq_not_holding: "at m c = Acq_cpu l \<Longrightarrow> sl_cpu (locks m l) \<noteq> Some c \<Longrightarrow> acquire_step c m (goto c (Acq_xchg l) m)"
| acq_spin: "at m c = Acq_xchg l \<Longrightarrow> sl_locked (locks m l) \<noteq> 0 \<Longrightarrow>
    acquire_step c m (set_lock l (\<lambda>k. k\<lparr>sl_locked := 1\<rparr>) m)"
| acq_got: "at m c = Acq_xchg l \<Longrightarrow> sl_locked (locks m l) = 0 \<Longrightarrow>
    acquire_step c m (goto c (Acq_set_cpu l) (set_lock l (\<lambda>k. k\<lparr>sl_locked := 1\<rparr>) m))"
| acq_set_cpu: "at m c = Acq_set_cpu l \<Longrightarrow>
    acquire_step c m (goto c (Acq_set_pcs l) (set_lock l (\<lambda>k. k\<lparr>sl_cpu := Some c\<rparr>) m))"
| acq_set_pcs: "at m c = Acq_set_pcs l \<Longrightarrow>
    acquire_step c m (goto c Idle (set_lock l (\<lambda>k. k\<lparr>sl_pcs := getcallerpcs mem v\<rparr>) m))"

inductive release_step :: "nat \<Rightarrow> 'l mach \<Rightarrow> 'l mach \<Rightarrow> bool" where
  rel_call: "at m c = Idle \<Longrightarrow> release_step c m (goto c (Rel_locked l) m)"
| rel_not_locked: "at m c = Rel_locked l \<Longrightarrow> sl_locked (locks m l) = 0 \<Longrightarrow> release_step c m (goto c (Panicked ''release'') m)"
| rel_locked: "at m c = Rel_locked l \<Longrightarrow> sl_locked (locks m l) \<noteq> 0 \<Longrightarrow> release_step c m (goto c (Rel_cpu l) m)"
| rel_not_holding: "at m c = Rel_cpu l \<Longrightarrow> sl_cpu (locks m l) \<noteq> Some c \<Longrightarrow> release_step c m (goto c (Panicked ''release'') m)"
| rel_holding: "at m c = Rel_cpu l \<Longrightarrow> sl_cpu (locks m l) = Some c \<Longrightarrow> release_step c m (goto c (Rel_clear_pcs l) m)"
| rel_clear_pcs: "at m c = Rel_clear_pcs l \<Longrightarrow>
    release_step c m (goto c (Rel_clear_cpu l) (set_lock l (\<lambda>k. k\<lparr>sl_pcs := (sl_pcs k)[0 := 0]\<rparr>) m))"
| rel_clear_cpu: "at m c = Rel_clear_cpu l \<Longrightarrow>
    release_step c m (goto c (Rel_xchg l) (set_lock l (\<lambda>k. k\<lparr>sl_cpu := None\<rparr>) m))"
| rel_xchg: "at m c = Rel_xchg l \<Longrightarrow>
    release_step c m (goto c Rel_popcli (set_lock l (\<lambda>k. k\<lparr>sl_locked := 0\<rparr>) m))"
| rel_popcli: "at m c = Rel_popcli \<Longrightarrow>
    release_step c m (case popcli (cpus m c) of Inl e \<Rightarrow> goto c (Panicked e) m | Inr x \<Rightarrow> goto c Idle (set_cpu c x m))"

definition mach_step :: "nat \<Rightarrow> 'l mach \<Rightarrow> 'l mach \<Rightarrow> bool" where
  "mach_step c m m' \<longleftrightarrow> acquire_step c m m' \<or> release_step c m m'"

text \<open>At the start the locks are initialised, and no processor has called \<open>pushcli\<close>.\<close>

definition mach_start :: "'l mach \<Rightarrow> bool" where
  "mach_start m \<longleftrightarrow> (\<forall>l. sl_locked (locks m l) = 0 \<and> sl_cpu (locks m l) = None) \<and> (\<forall>c. c_ncli (cpus m c) = 0 \<and> at m c = Idle)"

inductive mach_reach :: "'l mach \<Rightarrow> bool" where
  start: "mach_start m \<Longrightarrow> mach_reach m"
| step: "mach_reach m \<Longrightarrow> mach_step c m m' \<Longrightarrow> mach_reach m'"

section \<open>Nesting of \<open>pushcli\<close>\<close>

lemma cli_off: "c_eflags (cli c) AND FL_IF = 0"
  by (simp add: cli_def FL_IF_def and.assoc)

lemma pushcli_facts:
  "c_ncli (pushcli c) = c_ncli c + 1" "c_eflags (pushcli c) = c_eflags c AND NOT FL_IF"
  "c_intena (pushcli c) = (if c_ncli c = 0 then c_eflags c AND FL_IF else c_intena c)"
  by (simp_all add: pushcli_def Let_def cli_def)

section \<open>Mutual exclusion\<close>

text \<open>The locks of a processor: its number is in the lock, or it has taken the lock word and has not yet
  written its number, or it has cleared the number and not yet the lock word.\<close>

definition taking :: "'l mach \<Rightarrow> 'l \<Rightarrow> nat \<Rightarrow> bool" where
  "taking m l c \<longleftrightarrow> at m c = Acq_set_cpu l \<or> at m c = Rel_xchg l"

definition held_by :: "'l mach \<Rightarrow> nat \<Rightarrow> 'l set" where
  "held_by m c = {l. sl_cpu (locks m l) = Some c \<or> taking m l c}"

text \<open>A \<open>pushcli\<close> without a lock taken yet, or a lock given back without its \<open>popcli\<close>.\<close>

fun pending :: "'l pc \<Rightarrow> int" where
  "pending (Acq_locked l) = 1"
| "pending (Acq_cpu l) = 1"
| "pending (Acq_xchg l) = 1"
| "pending Rel_popcli = 1"
| "pending _ = 0"

definition lock_inv :: "'l mach \<Rightarrow> bool" where
  "lock_inv m \<longleftrightarrow>
    (\<forall>l c. sl_cpu (locks m l) = Some c \<longrightarrow> sl_locked (locks m l) \<noteq> 0) \<and>
    (\<forall>l c. taking m l c \<longrightarrow> sl_locked (locks m l) \<noteq> 0 \<and> sl_cpu (locks m l) = None) \<and>
    (\<forall>l c c'. taking m l c \<longrightarrow> taking m l c' \<longrightarrow> c = c') \<and>
    (\<forall>l. sl_locked (locks m l) \<noteq> 0 \<longrightarrow> (\<exists>c. l \<in> held_by m c)) \<and>
    (\<forall>l c. at m c \<in> {Acq_set_pcs l, Rel_clear_pcs l, Rel_clear_cpu l} \<longrightarrow> sl_cpu (locks m l) = Some c) \<and>
    (\<forall>l c. at m c = Acq_xchg l \<longrightarrow> l \<notin> held_by m c)"

definition cli_inv :: "'l mach \<Rightarrow> bool" where
  "cli_inv m \<longleftrightarrow> (\<forall>c. finite (held_by m c) \<and> ((\<forall>e. at m c \<noteq> Panicked e) \<longrightarrow>
    c_ncli (cpus m c) = int (card (held_by m c)) + pending (at m c) \<and>
    (c_ncli (cpus m c) > 0 \<longrightarrow> c_eflags (cpus m c) AND FL_IF = 0)))"

lemmas mach_defs = goto_def set_lock_def set_cpu_def held_by_def taking_def

lemma lock_invD:
  assumes "lock_inv m"
  shows "sl_cpu (locks m l) = Some c \<Longrightarrow> sl_locked (locks m l) \<noteq> 0"
    "taking m l c \<Longrightarrow> sl_locked (locks m l) \<noteq> 0 \<and> sl_cpu (locks m l) = None"
    "taking m l c \<Longrightarrow> taking m l c' \<Longrightarrow> c = c'"
    "sl_locked (locks m l) \<noteq> 0 \<Longrightarrow> \<exists>c. l \<in> held_by m c"
    "at m c \<in> {Acq_set_pcs l, Rel_clear_pcs l, Rel_clear_cpu l} \<Longrightarrow> sl_cpu (locks m l) = Some c"
    "at m c = Acq_xchg l \<Longrightarrow> l \<notin> held_by m c"
  using assms unfolding lock_inv_def by blast+

lemma held_locked: "lock_inv m \<Longrightarrow> l \<in> held_by m c \<Longrightarrow> sl_locked (locks m l) \<noteq> 0"
  using lock_invD(1,2) by (fastforce simp: held_by_def)

lemma held_unique: "lock_inv m \<Longrightarrow> l \<in> held_by m c \<Longrightarrow> l \<in> held_by m c' \<Longrightarrow> c = c'"
  using lock_invD(2,3) by (fastforce simp: held_by_def)

text \<open>What a step does to the set of a processor.\<close>

fun lock_change :: "'l pc \<Rightarrow> 'l pc \<Rightarrow> 'l set \<Rightarrow> 'l set" where
  "lock_change (Acq_xchg l) (Acq_set_cpu l') H = insert l H"
| "lock_change (Rel_xchg l) Rel_popcli H = H - {l}"
| "lock_change _ _ H = H"

lemma acquire_held:
  assumes "lock_inv m" "acquire_step c m m'"
  shows "held_by m' c' = (if c' = c then lock_change (at m c) (at m' c) (held_by m c) else held_by m c')"
  using assms(2)
proof cases
  case (acq_set_cpu l)
  have t: "taking m l c" using acq_set_cpu by (simp add: taking_def)
  have "l \<notin> held_by m c'" if "c' \<noteq> c" using that t held_unique [OF assms(1), of l c c'] by (auto simp: held_by_def)
  then show ?thesis using acq_set_cpu lock_invD(2) [OF assms(1) t] by (auto simp: mach_defs)
qed (auto simp: mach_defs)

lemma release_held:
  assumes "lock_inv m" "release_step c m m'"
  shows "held_by m' c' = (if c' = c then lock_change (at m c) (at m' c) (held_by m c) else held_by m c')"
  using assms(2)
proof cases
  case (rel_clear_cpu l)
  have "sl_cpu (locks m l) = Some c" using lock_invD(5) [OF assms(1)] rel_clear_cpu by auto
  then show ?thesis using rel_clear_cpu by (auto simp: mach_defs)
next
  case (rel_xchg l)
  have "taking m l c" using rel_xchg by (simp add: taking_def)
  then show ?thesis using rel_xchg lock_invD(2) [OF assms(1), of l c] by (auto simp: mach_defs)
next
  case rel_popcli
  then show ?thesis by (auto simp: mach_defs split: sum.splits)
qed (auto simp: mach_defs)

lemma lock_owned:
  assumes I: "lock_inv m" and h: "\<And>c'. held_by m' c' = (if c' = c then lock_change (at m c) (at m' c) (held_by m c) else held_by m c')"
    and l: "sl_locked (locks m' l) \<noteq> 0"
    and k: "sl_locked (locks m l) \<noteq> 0 \<and> at m c \<noteq> Rel_xchg l \<or> at m c = Acq_xchg l \<and> at m' c = Acq_set_cpu l"
  shows "\<exists>c. l \<in> held_by m' c"
  using k
proof
  assume a: "sl_locked (locks m l) \<noteq> 0 \<and> at m c \<noteq> Rel_xchg l"
  then obtain c' where c': "l \<in> held_by m c'" using lock_invD(4) [OF I] by blast
  have "l \<in> lock_change (at m c) (at m' c) (held_by m c)" if "c' = c"
    using that a c' by (cases "(at m c, at m' c, held_by m c)" rule: lock_change.cases) auto
  then show ?thesis using c' h [of c'] by (intro exI [of _ c']) simp
next
  assume "at m c = Acq_xchg l \<and> at m' c = Acq_set_cpu l"
  then show ?thesis using h [of c] by (intro exI [of _ c]) simp
qed

lemma unlocked_cpu: "lock_inv m \<Longrightarrow> sl_locked (locks m l) = 0 \<Longrightarrow> sl_cpu (locks m l) = None"
  using lock_invD(1) by (metis not_None_eq)

lemma unlocked_at: "lock_inv m \<Longrightarrow> sl_locked (locks m l) = 0 \<Longrightarrow> at m c \<noteq> Acq_set_cpu l \<and> at m c \<noteq> Rel_xchg l"
  using lock_invD(2) [of m l c] by (auto simp: taking_def)

lemma lock_invI:
  assumes "\<And>l c. sl_cpu (locks m l) = Some c \<Longrightarrow> sl_locked (locks m l) \<noteq> 0"
    "\<And>l c. taking m l c \<Longrightarrow> sl_locked (locks m l) \<noteq> 0 \<and> sl_cpu (locks m l) = None"
    "\<And>l c c'. taking m l c \<Longrightarrow> taking m l c' \<Longrightarrow> c = c'"
    "\<And>l. sl_locked (locks m l) \<noteq> 0 \<Longrightarrow> \<exists>c. l \<in> held_by m c"
    "\<And>l c. at m c \<in> {Acq_set_pcs l, Rel_clear_pcs l, Rel_clear_cpu l} \<Longrightarrow> sl_cpu (locks m l) = Some c"
    "\<And>l c. at m c = Acq_xchg l \<Longrightarrow> l \<notin> held_by m c"
  shows "lock_inv m"
  unfolding lock_inv_def using assms by blast

lemma acquire_taking:
  assumes I: "lock_inv m" and s: "acquire_step c m m'" and t: "taking m' l x"
  shows "taking m l x \<or> x = c \<and> (\<forall>y. \<not> taking m l y)"
  using s
proof cases
  case (acq_got k)
  show ?thesis using acq_got t unlocked_at [OF I, of l] by (cases "x = c") (auto simp: mach_defs)
qed (use t in \<open>auto simp: mach_defs split: if_splits\<close>)

lemma release_taking:
  assumes I: "lock_inv m" and s: "release_step c m m'" and t: "taking m' l x"
  shows "taking m l x \<or> x = c \<and> (\<forall>y. \<not> taking m l y)"
  using s
proof cases
  case (rel_clear_cpu k)
  have "sl_cpu (locks m k) = Some c" using lock_invD(5) [OF I, of c k] rel_clear_cpu by simp
  then have "\<not> taking m k y" for y using lock_invD(2) [OF I, of k y] by auto
  then show ?thesis using rel_clear_cpu t by (cases "x = c") (auto simp: mach_defs)
qed (use t in \<open>auto simp: mach_defs split: if_splits sum.splits\<close>)

lemma acquire_lock_inv:
  assumes I: "lock_inv m" and s: "acquire_step c m m'"
  shows "lock_inv m'"
proof (rule lock_invI)
  fix l assume n: "sl_locked (locks m' l) \<noteq> 0"
  have "sl_locked (locks m l) \<noteq> 0 \<and> at m c \<noteq> Rel_xchg l \<or> at m c = Acq_xchg l \<and> at m' c = Acq_set_cpu l"
    using s n by cases (auto simp: mach_defs split: if_splits)
  then show "\<exists>c. l \<in> held_by m' c" using lock_owned [OF I acquire_held [OF I s] n] by blast
next
  fix l c' assume "at m' c' = Acq_xchg l"
  with s show "l \<notin> held_by m' c'" using I unfolding lock_inv_def by cases (auto simp: mach_defs split: if_splits)
next
  fix l c' assume "sl_cpu (locks m' l) = Some c'"
  with s show "sl_locked (locks m' l) \<noteq> 0" using lock_invD(1,2) [OF I] by cases (auto simp: mach_defs split: if_splits)
next
  fix l c' assume "taking m' l c'"
  with s show "sl_locked (locks m' l) \<noteq> 0 \<and> sl_cpu (locks m' l) = None"
    using lock_invD(1-3) [OF I] unlocked_cpu [OF I] by cases (auto simp: mach_defs split: if_splits)
next
  fix l c1 c2 assume t: "taking m' l c1" "taking m' l c2"
  have "taking m l x \<or> x = c \<and> (\<forall>y. \<not> taking m l y)" if "taking m' l x" for x
    using acquire_taking [OF I s that] .
  then show "c1 = c2" using t lock_invD(3) [OF I] by blast
next
  fix l c' assume a: "at m' c' \<in> {Acq_set_pcs l, Rel_clear_pcs l, Rel_clear_cpu l}"
  show "sl_cpu (locks m' l) = Some c'"
  proof (cases "c' = c")
    case True
    show ?thesis using s a True lock_invD(5) [OF I, of c l] by cases (auto simp: mach_defs split: if_splits)
  next
    case False
    have "at m' c' = at m c'" using s False by cases (auto simp: mach_defs split: if_splits)
    then have o: "sl_cpu (locks m l) = Some c'" using a lock_invD(5) [OF I, of c' l] by simp
    then have "at m c \<noteq> Acq_set_cpu l" using False lock_invD(2) [OF I, of l c] by (auto simp: taking_def)
    with s show ?thesis using o by cases (auto simp: mach_defs split: if_splits)
  qed
qed

lemma release_lock_inv:
  assumes I: "lock_inv m" and s: "release_step c m m'"
  shows "lock_inv m'"
proof (rule lock_invI)
  fix l assume n: "sl_locked (locks m' l) \<noteq> 0"
  have "sl_locked (locks m l) \<noteq> 0 \<and> at m c \<noteq> Rel_xchg l \<or> at m c = Acq_xchg l \<and> at m' c = Acq_set_cpu l"
    using s n by cases (auto simp: mach_defs split: if_splits sum.splits)
  then show "\<exists>c. l \<in> held_by m' c" using lock_owned [OF I release_held [OF I s] n] by blast
next
  fix l c' assume "at m' c' = Acq_xchg l"
  with s show "l \<notin> held_by m' c'" using I unfolding lock_inv_def by cases (auto simp: mach_defs split: if_splits sum.splits)
next
  fix l c' assume "sl_cpu (locks m' l) = Some c'"
  with s show "sl_locked (locks m' l) \<noteq> 0" using lock_invD(1) [OF I, of l c'] lock_invD(2) [OF I, of l c] by cases (auto simp: mach_defs split: if_splits sum.splits)
next
  fix l c' assume t: "taking m' l c'"
  show "sl_locked (locks m' l) \<noteq> 0 \<and> sl_cpu (locks m' l) = None"
  proof (cases "c' = c")
    case True
    with s t show ?thesis using lock_invD(5) [OF I, of c l] lock_invD(1) [OF I, of l c] by cases (auto simp: mach_defs split: if_splits sum.splits)
  next
    case False
    have "taking m l c'" using release_taking [OF I s t] False by blast
    then have o: "sl_locked (locks m l) \<noteq> 0 \<and> sl_cpu (locks m l) = None" "\<not> taking m l c"
      using lock_invD(2,3) [OF I] False by blast+
    with s show ?thesis by cases (auto simp: mach_defs split: if_splits sum.splits)
  qed
next
  fix l c1 c2 assume t: "taking m' l c1" "taking m' l c2"
  have "taking m l x \<or> x = c \<and> (\<forall>y. \<not> taking m l y)" if "taking m' l x" for x
    using release_taking [OF I s that] .
  then show "c1 = c2" using t lock_invD(3) [OF I] by blast
next
  fix l c' assume a: "at m' c' \<in> {Acq_set_pcs l, Rel_clear_pcs l, Rel_clear_cpu l}"
  show "sl_cpu (locks m' l) = Some c'"
  proof (cases "c' = c")
    case True
    show ?thesis using s a True lock_invD(5) [OF I, of c l] by cases (auto simp: mach_defs split: if_splits sum.splits)
  next
    case False
    have "at m' c' = at m c'" using s False by cases (auto simp: mach_defs split: if_splits sum.splits)
    then have o: "sl_cpu (locks m l) = Some c'" using a lock_invD(5) [OF I, of c' l] by simp
    then have "at m c \<noteq> Rel_clear_cpu l" using False lock_invD(5) [OF I, of c l] by auto
    with s show ?thesis using o by cases (auto simp: mach_defs split: if_splits sum.splits)
  qed
qed

lemma step_held:
  assumes "lock_inv m" "mach_step c m m'"
  shows "held_by m' c' = (if c' = c then lock_change (at m c) (at m' c) (held_by m c) else held_by m c')"
  using assms acquire_held release_held unfolding mach_step_def by metis

lemma step_lock_inv: "lock_inv m \<Longrightarrow> mach_step c m m' \<Longrightarrow> lock_inv m'"
  using acquire_lock_inv release_lock_inv unfolding mach_step_def by blast

lemma step_other: "mach_step c m m' \<Longrightarrow> c' \<noteq> c \<Longrightarrow> cpus m' c' = cpus m c' \<and> at m' c' = at m c'"
  unfolding mach_step_def by (auto elim!: acquire_step.cases release_step.cases simp: mach_defs split: sum.splits)

section \<open>Interrupts\<close>

lemma cli_invD:
  assumes "cli_inv m"
  shows "finite (held_by m c)"
    "\<forall>e. at m c \<noteq> Panicked e \<Longrightarrow> c_ncli (cpus m c) = int (card (held_by m c)) + pending (at m c)"
    "\<forall>e. at m c \<noteq> Panicked e \<Longrightarrow> c_ncli (cpus m c) > 0 \<Longrightarrow> c_eflags (cpus m c) AND FL_IF = 0"
  using assms unfolding cli_inv_def by blast+

lemma popcli_held:
  assumes "cli_inv m" "at m c = Rel_popcli"
  obtains x where "popcli (cpus m c) = Inr x" "c_ncli x = int (card (held_by m c))"
    "c_ncli x > 0 \<Longrightarrow> c_eflags x AND FL_IF = 0"
proof -
  have n: "c_ncli (cpus m c) = int (card (held_by m c)) + 1" using cli_invD(2) [OF assms(1), of c] assms(2) by simp
  then have "c_eflags (cpus m c) AND FL_IF = 0" using cli_invD(3) [OF assms(1), of c] assms(2) by simp
  moreover define x where "x = (let d = (cpus m c)\<lparr>c_ncli := c_ncli (cpus m c) - 1\<rparr> in
    if c_ncli d = 0 \<and> c_intena d \<noteq> 0 then sti d else d)"
  ultimately have "popcli (cpus m c) = Inr x" "c_ncli x = int (card (held_by m c))" "c_ncli x > 0 \<Longrightarrow> c_eflags x AND FL_IF = 0"
    using n by (auto simp: popcli_def Let_def sti_def)
  then show ?thesis by (rule that)
qed

lemma acquire_cli:
  assumes I: "lock_inv m" "cli_inv m" and s: "acquire_step c m m'" and p: "\<forall>e. at m' c \<noteq> Panicked e"
  shows "c_ncli (cpus m' c) = int (card (held_by m' c)) + pending (at m' c) \<and>
    (c_ncli (cpus m' c) > 0 \<longrightarrow> c_eflags (cpus m' c) AND FL_IF = 0)"
proof -
  note h = acquire_held [OF I(1) s, of c] and d = cli_invD [OF I(2), of c]
  show ?thesis using s
  proof cases
    case (acq_call l)
    then show ?thesis using h d by (simp add: goto_def set_cpu_def pushcli_facts and.assoc)
  next
    case (acq_got l)
    then have "l \<notin> held_by m c" using lock_invD(6) [OF I(1), of c l] by simp
    then show ?thesis using acq_got h d by (simp add: goto_def set_lock_def)
  qed (use h d p in \<open>simp_all add: goto_def set_lock_def\<close>)
qed

lemma release_cli:
  assumes I: "lock_inv m" "cli_inv m" and s: "release_step c m m'" and p: "\<forall>e. at m' c \<noteq> Panicked e"
  shows "c_ncli (cpus m' c) = int (card (held_by m' c)) + pending (at m' c) \<and>
    (c_ncli (cpus m' c) > 0 \<longrightarrow> c_eflags (cpus m' c) AND FL_IF = 0)"
proof -
  note h = release_held [OF I(1) s, of c] and d = cli_invD [OF I(2), of c]
  show ?thesis using s
  proof cases
    case (rel_xchg l)
    then have "l \<in> held_by m c" by (simp add: held_by_def taking_def)
    then have "int (card (held_by m c - {l})) + 1 = int (card (held_by m c))"
      using d(1) card_Suc_Diff1 [of "held_by m c" l] by simp
    then show ?thesis using rel_xchg h d by (simp add: goto_def set_lock_def)
  next
    case rel_popcli
    obtain x where "popcli (cpus m c) = Inr x" "c_ncli x = int (card (held_by m c))" "c_ncli x > 0 \<Longrightarrow> c_eflags x AND FL_IF = 0"
      using popcli_held [OF I(2) rel_popcli(2)] by blast
    then show ?thesis using rel_popcli h by (simp add: goto_def set_cpu_def)
  qed (use h d p in \<open>simp_all add: goto_def set_lock_def\<close>)
qed

lemma lock_change_finite: "finite H \<Longrightarrow> finite (lock_change p q H)"
  by (cases "(p, q, H)" rule: lock_change.cases) auto

lemma step_cli_inv:
  assumes I: "lock_inv m" "cli_inv m" and s: "mach_step c m m'"
  shows "cli_inv m'"
  unfolding cli_inv_def
proof (intro allI)
  fix c'
  show "finite (held_by m' c') \<and> ((\<forall>e. at m' c' \<noteq> Panicked e) \<longrightarrow>
    c_ncli (cpus m' c') = int (card (held_by m' c')) + pending (at m' c') \<and>
    (c_ncli (cpus m' c') > 0 \<longrightarrow> c_eflags (cpus m' c') AND FL_IF = 0))"
  proof (cases "c' = c")
    case True
    have "finite (held_by m' c)" using step_held [OF I(1) s, of c] cli_invD(1) [OF I(2), of c] by (simp add: lock_change_finite)
    then show ?thesis using True s acquire_cli [OF I] release_cli [OF I] unfolding mach_step_def by blast
  next
    case False
    then show ?thesis using step_other [OF s False] step_held [OF I(1) s, of c'] cli_invD [OF I(2), of c'] by simp
  qed
qed

lemma mach_reach_inv: "mach_reach m \<Longrightarrow> lock_inv m \<and> cli_inv m"
proof (induction rule: mach_reach.induct)
  case (start m)
  then have "held_by m c = {}" for c by (auto simp: mach_start_def held_by_def taking_def)
  then show ?case using start by (auto simp: lock_inv_def cli_inv_def mach_start_def taking_def)
next
  case (step m c m')
  then show ?case using step_lock_inv step_cli_inv by blast
qed

section \<open>The contract\<close>

text \<open>The steps at which a call takes effect, with the operation of the contract.\<close>

fun effect :: "lockid pc \<Rightarrow> lockid pc \<Rightarrow> (kst, unit) kern option" where
  "effect (Acq_xchg l) (Acq_set_cpu _) = Some (acquire_lk l)"
| "effect (Acq_cpu l) (Panicked _) = Some (acquire_lk l)"
| "effect (Rel_locked l) (Panicked _) = Some (release_lk l)"
| "effect (Rel_cpu l) (Panicked _) = Some (release_lk l)"
| "effect (Rel_xchg l) Rel_popcli = Some (release_lk l)"
| "effect _ _ = None"

text \<open>A step has the effect of its operation on the locks held, or none; the operation panics when the step does.\<close>

definition meets_contract :: "kst \<Rightarrow> nat \<Rightarrow> lockid mach \<Rightarrow> lockid mach \<Rightarrow> bool" where
  "meets_contract s c m m' \<longleftrightarrow>
    (\<forall>c'. c' \<noteq> c \<longrightarrow> held_by m' c' = held_by m c') \<and>
    (case effect (at m c) (at m' c) of
       None \<Rightarrow> held_by m' c = held_by m c \<and> (\<forall>e. at m' c \<noteq> Panicked e)
     | Some f \<Rightarrow>
       (case f (s\<lparr>held := held_by m c\<rparr>) of
          Ok _ t \<Rightarrow> t = s\<lparr>held := held_by m' c\<rparr> \<and> (\<forall>e. at m' c \<noteq> Panicked e)
        | Panic e \<Rightarrow> at m' c = Panicked e
        | Sleeping _ \<Rightarrow> False))"

lemma acquire_contract:
  assumes I: "lock_inv m" "cli_inv m" and s: "acquire_step c m m'"
  shows "meets_contract k c m m'"
proof -
  note h = acquire_held [OF I(1) s]
  show ?thesis using s
  proof cases
    case (acq_got l)
    then have "l \<notin> held_by m c" using lock_invD(6) [OF I(1), of c l] by simp
    then show ?thesis using acq_got h by (simp add: meets_contract_def acquire_lk_def goto_def)
  next
    case (acq_holding l)
    then have "l \<in> held_by m c" by (simp add: held_by_def)
    then show ?thesis using acq_holding h by (simp add: meets_contract_def acquire_lk_def goto_def)
  qed (use h in \<open>simp_all add: meets_contract_def goto_def set_lock_def\<close>)
qed

lemma release_contract:
  assumes I: "lock_inv m" "cli_inv m" and s: "release_step c m m'"
  shows "meets_contract k c m m'"
proof -
  note h = release_held [OF I(1) s]
  show ?thesis using s
  proof cases
    case (rel_not_locked l)
    then have "l \<notin> held_by m c" using held_locked [OF I(1), of l c] by auto
    then show ?thesis using rel_not_locked h by (simp add: meets_contract_def release_lk_def goto_def)
  next
    case (rel_not_holding l)
    then have "l \<notin> held_by m c" by (simp add: held_by_def taking_def)
    then show ?thesis using rel_not_holding h by (simp add: meets_contract_def release_lk_def goto_def)
  next
    case (rel_xchg l)
    then have "l \<in> held_by m c" by (simp add: held_by_def taking_def)
    then show ?thesis using rel_xchg h by (simp add: meets_contract_def release_lk_def goto_def)
  next
    case rel_popcli
    obtain x where "popcli (cpus m c) = Inr x" using popcli_held [OF I(2) rel_popcli(2)] by blast
    then show ?thesis using rel_popcli h by (simp add: meets_contract_def goto_def)
  qed (use h in \<open>simp_all add: meets_contract_def goto_def\<close>)
qed

section \<open>Properties\<close>

text \<open>C5. Mutual exclusion: however the steps of the processors interleave, a lock is held by at most one of them,
  and its word is set exactly while one holds it.  On a processor that has not panicked, \<open>ncli\<close> counts the locks
  held, and one more between \<open>pushcli\<close> and taking the lock word and between clearing it and \<open>popcli\<close>; interrupts
  are off all that time.\<close>

theorem spinlock_mutual_exclusion:
  assumes "mach_reach m"
  shows "(\<forall>l c c'. l \<in> held_by m c \<longrightarrow> l \<in> held_by m c' \<longrightarrow> c = c') \<and>
    (\<forall>l. sl_locked (locks m l) \<noteq> 0 \<longleftrightarrow> (\<exists>c. l \<in> held_by m c)) \<and>
    (\<forall>c. (\<forall>e. at m c \<noteq> Panicked e) \<longrightarrow>
      c_ncli (cpus m c) = int (card (held_by m c)) + pending (at m c) \<and>
      (held_by m c \<noteq> {} \<or> pending (at m c) > 0 \<longrightarrow> c_eflags (cpus m c) AND FL_IF = 0))"
proof -
  have I: "lock_inv m" "cli_inv m" using mach_reach_inv [OF assms] by auto
  have "c_ncli (cpus m c) > 0" if "\<forall>e. at m c \<noteq> Panicked e" "held_by m c \<noteq> {} \<or> pending (at m c) > 0" for c
  proof -
    have "pending (at m c) \<ge> 0" by (cases "at m c") auto
    moreover have "card (held_by m c) > 0" if "held_by m c \<noteq> {}" using that cli_invD(1) [OF I(2), of c] by (simp add: card_gt_0_iff)
    ultimately show ?thesis using cli_invD(2) [OF I(2) that(1)] that(2) by (cases "held_by m c = {}") auto
  qed
  then show ?thesis
    using held_unique [OF I(1)] held_locked [OF I(1)] lock_invD(4) [OF I(1)] cli_invD [OF I(2)] by blast
qed


text \<open>Processor 0 takes the lock of the process table.\<close>

definition wit_mach :: "lockid mach" where
  "wit_mach = \<lparr>locks = \<lambda>_. \<lparr>sl_locked = 0, sl_name = '''', sl_cpu = None, sl_pcs = replicate 10 0\<rparr>,
    cpus = \<lambda>_. \<lparr>c_eflags = FL_IF, c_ncli = 0, c_intena = 0\<rparr>, at = \<lambda>_. Idle\<rparr>"

definition wit_mach_called :: "lockid mach" where
  "wit_mach_called = goto 0 (Acq_locked LK_ptable) (set_cpu 0 (pushcli (cpus wit_mach 0)) wit_mach)"

definition wit_mach_spin :: "lockid mach" where
  "wit_mach_spin = goto 0 (Acq_xchg LK_ptable) wit_mach_called"

definition wit_mach_got :: "lockid mach" where
  "wit_mach_got = goto 0 (Acq_set_cpu LK_ptable) (set_lock LK_ptable (\<lambda>k. k\<lparr>sl_locked := 1\<rparr>) wit_mach_spin)"

lemmas wit_mach_defs = wit_mach_def wit_mach_called_def wit_mach_spin_def wit_mach_got_def

lemma wit_mach_reach: "mach_reach wit_mach_spin" "mach_step 0 wit_mach_spin wit_mach_got"
proof -
  have "mach_reach wit_mach" by (rule start) (simp add: mach_start_def wit_mach_def)
  moreover have "mach_step 0 wit_mach wit_mach_called"
    unfolding mach_step_def wit_mach_called_def by (intro disjI1 acq_call) (simp add: wit_mach_def)
  moreover have "mach_step 0 wit_mach_called wit_mach_spin"
    unfolding mach_step_def wit_mach_spin_def by (intro disjI1 acq_not_locked) (simp_all add: wit_mach_defs goto_def set_cpu_def)
  ultimately show "mach_reach wit_mach_spin" by (blast intro: step)
  show "mach_step 0 wit_mach_spin wit_mach_got"
    unfolding mach_step_def wit_mach_got_def by (intro disjI1 acq_got) (simp_all add: wit_mach_defs goto_def set_cpu_def)
qed

theorem spinlock_mutual_exclusion_witness:
  "mach_reach wit_mach_got \<and> LK_ptable \<in> held_by wit_mach_got 0 \<and> LK_ptable \<notin> held_by wit_mach_got 1 \<and>
   c_ncli (cpus wit_mach_got 0) = int (card (held_by wit_mach_got 0)) \<and> c_eflags (cpus wit_mach_got 0) AND FL_IF = 0"
proof -
  have r: "mach_reach wit_mach_got" using step [OF wit_mach_reach] .
  have l: "LK_ptable \<in> held_by wit_mach_got 0" by (simp add: wit_mach_got_def held_by_def taking_def goto_def)
  have a: "at wit_mach_got 0 = Acq_set_cpu LK_ptable" by (simp add: wit_mach_got_def goto_def)
  note p = spinlock_mutual_exclusion [OF r]
  have "LK_ptable \<notin> held_by wit_mach_got 1" using p l by (metis zero_neq_one)
  moreover have "c_ncli (cpus wit_mach_got 0) = int (card (held_by wit_mach_got 0)) \<and> c_eflags (cpus wit_mach_got 0) AND FL_IF = 0"
    using p [THEN conjunct2, THEN conjunct2, THEN spec, of 0] a l by auto
  ultimately show ?thesis using r l by simp
qed


end
