(* ===== verification/User.thy ===== *)
theory User
  imports Inode
begin

text \<open>
  The view of a user program on the system (\<open>user.h\<close>, \<open>usys.S\<close>) and \<open>printf.c\<close>.

  A program is a function on the answers that its system calls get: each call takes the next answer and is
  recorded.  A program that has used up the answers waits in the call (\<open>Sleeping\<close>), and \<open>exit\<close> ends it in the
  same way, with \<open>U_exit\<close> as its last call.  What a program does is the list of its calls, for all answers the
  kernel may give.  The answer of \<open>fork\<close> says whether the run is that of the parent or that of the child.

  The buffer of a call is part of the call (\<open>write\<close>) or of the answer (\<open>read\<close>, \<open>fstat\<close>, \<open>pipe\<close>).
\<close>

section \<open>System calls\<close>

definition H_ITEMS :: nat where "H_ITEMS = 32"
definition H_LEN :: nat where "H_LEN = 128"

text \<open>\<open>struct HistoryStruct\<close>; the rows of \<open>history\<close> follow each other.\<close>

record history =
  h_len :: int
  h_start :: int
  h_current :: int
  h_rows :: "byte list"

datatype ucall =
    U_fork | U_exit | U_wait | U_pipe
  | U_write int "byte list" | U_read int int | U_close int | U_kill int
  | U_exec "byte list" "byte list list" | U_open "byte list" nat | U_mknod "byte list" int int
  | U_unlink "byte list" | U_fstat int | U_link "byte list" "byte list" | U_mkdir "byte list"
  | U_chdir "byte list" | U_dup int | U_getpid | U_sbrk int | U_sleep int | U_uptime
  | U_setHistory history | U_setExeCmd "int \<times> byte list list" | U_setProgramStatus int

text \<open>The result, and what the call stores: bytes read, file status, descriptors of a pipe.\<close>

record answer =
  ret :: int
  data :: "byte list"
  status :: stat
  fds :: "int \<times> int"

record ust =
  answers :: "answer list"
  calls :: "ucall list"

definition usys :: "ucall \<Rightarrow> (ust, answer) kern" where
  "usys c s =
    (case answers s of
       [] \<Rightarrow> Sleeping (s\<lparr>calls := calls s @ [c]\<rparr>)
     | a # as \<Rightarrow> Ok a (s\<lparr>answers := as, calls := calls s @ [c]\<rparr>))"

definition ucall_ret :: "ucall \<Rightarrow> (ust, int) kern" where
  "ucall_ret c = kbind (usys c) (\<lambda>a. kret (ret a))"

definition ucall_do :: "ucall \<Rightarrow> (ust, unit) kern" where
  "ucall_do c = kbind (usys c) (\<lambda>a. kret ())"

definition uexit :: "(ust, 'a) kern" where
  "uexit s = Sleeping (s\<lparr>calls := calls s @ [U_exit]\<rparr>)"

text \<open>
  A loop whose iterations make system calls: the body gives the state of the next iteration (\<open>Inl\<close>) or the
  result (\<open>Inr\<close>).  An iteration without a system call would be \<open>Panic ''loop''\<close>.
\<close>

function uloop :: "('x \<Rightarrow> (ust, 'x + 'r) kern) \<Rightarrow> 'x \<Rightarrow> (ust, 'r) kern" where
  "uloop body x s =
    (case body x s of
       Ok (Inl y) t \<Rightarrow> if length (answers t) < length (answers s) then uloop body y t else Panic ''loop''
     | Ok (Inr r) t \<Rightarrow> Ok r t
     | Panic e \<Rightarrow> Panic e
     | Sleeping t \<Rightarrow> Sleeping t)"
  by pat_completeness auto

termination
  by (relation "measure (\<lambda>(body, x, s). length (answers s))") auto

declare uloop.simps [simp del]

text \<open>A C string constant.\<close>

definition str :: "string \<Rightarrow> byte list" where
  "str s = map (\<lambda>c. of_nat (of_char c)) s"

text \<open>A buffer after \<open>bs\<close> has been stored at offset \<open>i\<close>.\<close>

definition blit :: "'a list \<Rightarrow> nat \<Rightarrow> 'a list \<Rightarrow> 'a list" where
  "blit buf i bs = take i buf @ bs @ drop (i + length bs) buf"

section \<open>\<open>printf\<close>\<close>

definition uputc :: "int \<Rightarrow> byte \<Rightarrow> (ust, unit) kern" where
  "uputc fd c = ucall_do (U_write fd [c])"

fun uputs :: "int \<Rightarrow> byte list \<Rightarrow> (ust, unit) kern" where
  "uputs fd [] = kret ()"
| "uputs fd (c # cs) = kthen (uputc fd c) (uputs fd cs)"

definition udigits :: "byte list" where
  "udigits = str ''0123456789ABCDEF''"

function udigits_of :: "nat \<Rightarrow> nat \<Rightarrow> byte list" where
  "udigits_of base x =
    (udigits ! (x mod base)) # (if base \<ge> 2 \<and> x div base \<noteq> 0 then udigits_of base (x div base) else [])"
  by pat_completeness auto

termination
  by (relation "measure snd") (auto intro!: div_less_dividend Nat.gr0I)

declare udigits_of.simps [simp del]

definition uprintint :: "int \<Rightarrow> int \<Rightarrow> nat \<Rightarrow> bool \<Rightarrow> (ust, unit) kern" where
  "uprintint fd xx base sg =
    uputs fd
      (if sg \<and> xx < 0 then rev (udigits_of base (nat (- xx mod 4294967296)) @ [45])
       else rev (udigits_of base (nat (xx mod 4294967296))))"

datatype uarg = UInt int | UStr "byte list option"

text \<open>The arguments follow the format on the stack; reading past them, or a number as a string, is undefined.\<close>

fun uprintf_loop :: "int \<Rightarrow> byte list \<Rightarrow> uarg list \<Rightarrow> (ust, unit) kern" where
  "uprintf_loop fd [] ap = kret ()"
| "uprintf_loop fd [c] ap = (if c = 37 then kret () else uputc fd c)"
| "uprintf_loop fd (c # d # fmt) ap =
    (if c \<noteq> 37 then kthen (uputc fd c) (uprintf_loop fd (d # fmt) ap)
     else if d = 100 then
       (case ap of UInt x # ap \<Rightarrow> kthen (uprintint fd x 10 True) (uprintf_loop fd fmt ap) | _ \<Rightarrow> kpanic ''undefined'')
     else if d = 120 \<or> d = 112 then
       (case ap of UInt x # ap \<Rightarrow> kthen (uprintint fd x 16 False) (uprintf_loop fd fmt ap) | _ \<Rightarrow> kpanic ''undefined'')
     else if d = 115 then
       (case ap of
          UStr None # ap \<Rightarrow> kthen (uputs fd (str ''(null)'')) (uprintf_loop fd fmt ap)
        | UStr (Some s) # ap \<Rightarrow> kthen (uputs fd s) (uprintf_loop fd fmt ap)
        | _ \<Rightarrow> kpanic ''undefined'')
     else if d = 99 then
       (case ap of UInt x # ap \<Rightarrow> kthen (uputc fd (of_int x)) (uprintf_loop fd fmt ap) | _ \<Rightarrow> kpanic ''undefined'')
     else if d = 37 then kthen (uputc fd d) (uprintf_loop fd fmt ap)
     else kthen (uputc fd 37) (kthen (uputc fd d) (uprintf_loop fd fmt ap)))"

definition uprintf :: "int \<Rightarrow> string \<Rightarrow> uarg list \<Rightarrow> (ust, unit) kern" where
  "uprintf fd fmt ap = uprintf_loop fd (str fmt) ap"

section \<open>Library functions with system calls\<close>

text \<open>The bytes \<open>gets\<close> has stored, given those stored so far; \<open>k\<close> more fit before the final NUL.\<close>

fun ugets_from :: "nat \<Rightarrow> byte list \<Rightarrow> (ust, byte list) kern" where
  "ugets_from 0 buf = kret buf"
| "ugets_from (Suc k) buf =
    kbind (usys (U_read 0 1)) (\<lambda>a.
    if ret a < 1 then kret buf
    else if hd (data a) = 10 \<or> hd (data a) = 13 then kret (buf @ [hd (data a)])
    else ugets_from k (buf @ [hd (data a)]))"

definition ugets :: "nat \<Rightarrow> (ust, byte list) kern" where
  "ugets mx = ugets_from (mx - 1) []"

text \<open>The part of a buffer up to its NUL.\<close>

definition cstring :: "byte list \<Rightarrow> byte list" where
  "cstring = takeWhile (\<lambda>c. c \<noteq> 0)"

definition O_RDONLY :: nat where "O_RDONLY = 0"
definition O_WRONLY :: nat where "O_WRONLY = 1"
definition O_RDWR :: nat where "O_RDWR = 2"
definition O_CREATE :: nat where "O_CREATE = 0x200"

text \<open>\<open>stat\<close>: the result, and the status when \<open>fstat\<close> was called.\<close>

definition ustat :: "byte list \<Rightarrow> (ust, int \<times> stat option) kern" where
  "ustat n =
    kbind (ucall_ret (U_open n O_RDONLY)) (\<lambda>fd.
    if fd < 0 then kret (-1, None)
    else
      kbind (usys (U_fstat fd)) (\<lambda>a.
      kthen (ucall_do (U_close fd)) (
      kret (ret a, Some (status a)))))"

definition uread :: "int \<Rightarrow> nat \<Rightarrow> (ust, int \<times> byte list) kern" where
  "uread fd n = kbind (usys (U_read fd (int n))) (\<lambda>a. kret (ret a, data a))"

section \<open>Runs\<close>

lemma kbind_usys [simp]:
  "kbind (usys c) f \<lparr>answers = a # as, calls = cs\<rparr> = f a \<lparr>answers = as, calls = cs @ [c]\<rparr>"
  "kbind (ucall_ret c) g \<lparr>answers = a # as, calls = cs\<rparr> = g (ret a) \<lparr>answers = as, calls = cs @ [c]\<rparr>"
  "kthen (ucall_do c) m \<lparr>answers = a # as, calls = cs\<rparr> = m \<lparr>answers = as, calls = cs @ [c]\<rparr>"
  by (simp_all add: kern_defs usys_def ucall_ret_def ucall_do_def)

lemma uexit_run [simp]: "uexit \<lparr>answers = as, calls = cs\<rparr> = Sleeping \<lparr>answers = as, calls = cs @ [U_exit]\<rparr>"
  by (simp add: uexit_def)

lemma kbind_uexit [simp]: "kbind uexit f s = uexit s"
  by (simp add: kbind_def uexit_def)

text \<open>The answers of a \<open>read\<close> that delivers \<open>c\<close>, and of one at the end of the input.\<close>

definition read_answer :: "answer \<Rightarrow> byte list \<Rightarrow> bool" where
  "read_answer a c \<longleftrightarrow> ret a = int (length c) \<and> data a = c"

lemma blit_all: "length c \<le> length buf \<Longrightarrow> take (length c) (blit buf 0 c) = c \<and> length (blit buf 0 c) = length buf"
  by (simp add: blit_def)

end
