(* ===== verification/Uprogs.thy ===== *)
theory Uprogs
  imports Dir User
begin

text \<open>
  User programs that work on files: \<open>cat.c\<close>, \<open>wc.c\<close>, \<open>cp.c\<close>, \<open>mv.c\<close>, \<open>rm.c\<close>, \<open>ls.c\<close>, and the small ones
  \<open>echo.c\<close>, \<open>kill.c\<close>, \<open>ln.c\<close>, \<open>mkdir.c\<close>, \<open>init.c\<close>, \<open>history.c\<close>, \<open>touch.c\<close>, \<open>rename.c\<close>, \<open>uptime.c\<close>, \<open>zombie.c\<close>.

  C strings are lists of bytes without NUL, so that \<open>strcmp(a, b) == 0\<close> is equality and \<open>strlen\<close> is \<open>length\<close>
  (theory \<open>Strings\<close>).  Writing past the end of an array is \<open>Panic ''undefined''\<close>.
\<close>

definition undef :: "(ust, 'a) kern" where "undef = kpanic ''undefined''"

definition SHELL :: int where "SHELL = 0"
definition CAT :: int where "CAT = 2"

section \<open>\<open>cat\<close>\<close>

definition cat_step :: "int \<Rightarrow> int \<Rightarrow> byte list \<Rightarrow> (ust, byte list + byte list) kern" where
  "cat_step fd dst buf =
    kbind (usys (U_read fd 512)) (\<lambda>a.
    if ret a > 0 then
      kbind (kret (blit buf 0 (data a))) (\<lambda>buf.
      kthen (ucall_do (U_write dst (take (nat (ret a)) buf))) (
      kret (Inl (replicate 512 0))))
    else if ret a < 0 then kthen (uprintf 1 ''cat: read error\<newline>'' []) uexit
    else kret (Inr buf))"

definition cat :: "int \<Rightarrow> int \<Rightarrow> byte list \<Rightarrow> (ust, byte list) kern" where
  "cat fd dst buf = uloop (cat_step fd dst) buf"

definition cat_help :: "(ust, 'a) kern" where
  "cat_help =
    kthen (uprintf 1 ''SYNOPSIS\<newline>'' []) (
    kthen (uprintf 1 ''    cat [FILE]...\<newline>'' []) (
    kthen (uprintf 1 ''DESCRIPTION\<newline>'' []) (
    kthen (uprintf 1 ''    Concatenate files, or standard input, to standard output.\<newline>\<newline>'' []) (
    kthen (uprintf 1 ''    --help              display this help and exit\<newline>\<newline>'' []) (
    kthen (uprintf 1 ''    With no FILE, or when FILE is -, read standard input.\<newline>'' []) (
    kthen (uprintf 1 ''EXAMPLES\<newline>'' []) (
    kthen (uprintf 1 ''    cat f               Output f's contents.\<newline>'' []) (
    kthen (uprintf 1 ''    cat -               Output standard input's contents.\<newline>'' []) (
    kthen (uprintf 1 ''    cat                 Output standard input's contents.\<newline>'' []) (
    uexit))))))))))"

text \<open>The index of \<open>>\<close> before the last argument, or 0.\<close>

definition cat_loc :: "byte list list \<Rightarrow> nat" where
  "cat_loc argv =
    (if argv ! 1 = str ''-'' \<and> length argv = 3 then 1
     else case find (\<lambda>i. argv ! i = str ''>'' \<and> i + 2 = length argv) [1..<length argv] of Some i \<Rightarrow> i | None \<Rightarrow> 0)"

definition cat_typed_step :: "int \<Rightarrow> unit \<Rightarrow> (ust, unit + unit) kern" where
  "cat_typed_step fd _ =
    kbind (ugets 512) (\<lambda>buf.
    if cstring buf = str ''/exit\<newline>'' \<or> cstring buf = str ''ESC\<newline>'' then
      kthen (ucall_do (U_close fd)) (
      kthen (ucall_do (U_setProgramStatus SHELL))
      uexit)
    else
      kthen (ucall_do (U_write fd (cstring buf))) (
      kret (Inl ())))"

text \<open>The loop over the input files; \<open>dst\<close> is where they go.\<close>

fun cat_files :: "int \<Rightarrow> byte list list \<Rightarrow> byte list \<Rightarrow> (ust, byte list) kern" where
  "cat_files dst [] buf = kret buf"
| "cat_files dst (f # fs) buf =
    kbind (ucall_ret (U_open f O_RDONLY)) (\<lambda>fr.
    if fr < 0 then
      kthen (uprintf 1 ''cat: cannot open %s\<newline>'' [UStr (Some f)]) (
      kthen (ucall_do (U_setProgramStatus SHELL))
      uexit)
    else
      kbind (cat fr dst buf) (\<lambda>buf.
      kthen (ucall_do (U_close fr)) (
      cat_files dst fs buf)))"

definition cat_main :: "byte list list \<Rightarrow> (ust, unit) kern" where
  "cat_main argv =
    kthen (ucall_do (U_setProgramStatus CAT)) (
    if length argv \<le> 1 then
      kbind (cat 0 1 (replicate 512 0)) (\<lambda>_.
      kthen (ucall_do (U_setProgramStatus SHELL))
      uexit)
    else if str ''--help'' \<in> set (tl argv) then cat_help
    else if cat_loc argv = 1 then
      kbind (ucall_ret (U_open (argv ! 2) (O_CREATE + O_WRONLY))) (\<lambda>fd.
      uloop (cat_typed_step fd) ())
    else
      kthen
        (if cat_loc argv > 1 then
           kbind (ucall_ret (U_open (last argv) (O_CREATE + O_WRONLY))) (\<lambda>fd.
           kbind (cat_files fd (take (cat_loc argv - 1) (tl argv)) (replicate 512 0)) (\<lambda>_.
           ucall_do (U_close fd)))
         else kbind (cat_files 1 (tl argv) (replicate 512 0)) (\<lambda>_. kret ())) (
      kthen (ucall_do (U_setProgramStatus SHELL))
      uexit))"

section \<open>\<open>wc\<close>\<close>

definition wc_white :: "byte list" where "wc_white = [32, 13, 9, 10, 11]"

text \<open>Lines, words, characters, and whether a word has begun.\<close>

record wcount =
  wc_l :: int
  wc_w :: int
  wc_c :: int
  wc_in :: bool

fun wc_chars :: "byte list \<Rightarrow> wcount \<Rightarrow> wcount" where
  "wc_chars [] x = x"
| "wc_chars (b # bs) x =
    (let x = x\<lparr>wc_c := wc_c x + 1\<rparr>;
         x = (if b = 10 then x\<lparr>wc_l := wc_l x + 1\<rparr> else x);
         x = (if b \<in> set wc_white then x\<lparr>wc_in := False\<rparr>
              else if \<not> wc_in x then x\<lparr>wc_w := wc_w x + 1, wc_in := True\<rparr> else x)
     in wc_chars bs x)"

definition wc_step :: "int \<Rightarrow> byte list \<times> wcount \<Rightarrow> (ust, byte list \<times> wcount + byte list \<times> wcount) kern" where
  "wc_step fd = (\<lambda>(buf, x).
    kbind (usys (U_read fd 512)) (\<lambda>a.
    if ret a > 0 then
      kbind (kret (blit buf 0 (data a))) (\<lambda>buf.
      kret (Inl (buf, wc_chars (take (nat (ret a)) buf) x)))
    else if ret a < 0 then kthen (uprintf 1 ''wc: read error\<newline>'' []) uexit
    else kret (Inr (buf, x))))"

definition wc :: "int \<Rightarrow> byte list \<Rightarrow> byte list \<Rightarrow> (ust, byte list) kern" where
  "wc fd name buf =
    kbind (uloop (wc_step fd) (buf, \<lparr>wc_l = 0, wc_w = 0, wc_c = 0, wc_in = False\<rparr>)) (\<lambda>(buf, x).
    kthen (uprintf 1 ''%d %d %d %s\<newline>'' [UInt (wc_l x), UInt (wc_w x), UInt (wc_c x), UStr (Some name)]) (
    kret buf))"

fun wc_files :: "byte list list \<Rightarrow> byte list \<Rightarrow> (ust, unit) kern" where
  "wc_files [] buf = uexit"
| "wc_files (f # fs) buf =
    kbind (ucall_ret (U_open f O_RDONLY)) (\<lambda>fd.
    if fd < 0 then kthen (uprintf 1 ''wc: cannot open %s\<newline>'' [UStr (Some f)]) uexit
    else
      kbind (wc fd f buf) (\<lambda>buf.
      kthen (ucall_do (U_close fd)) (
      wc_files fs buf)))"

definition wc_main :: "byte list list \<Rightarrow> (ust, unit) kern" where
  "wc_main argv =
    (if length argv \<le> 1 then kbind (wc 0 [] (replicate 512 0)) (\<lambda>_. uexit)
     else wc_files (tl argv) (replicate 512 0))"

section \<open>\<open>ls\<close>\<close>

definition basename :: "byte list \<Rightarrow> byte list" where
  "basename path = rev (takeWhile (\<lambda>c. c \<noteq> 47) (rev path))"

text \<open>The static buffer ends in a NUL that is never overwritten.\<close>

definition fmtname :: "byte list \<Rightarrow> byte list" where
  "fmtname path =
    (let p = basename path in
     if length p \<ge> DIRSIZ then p else p @ replicate (DIRSIZ - length p) 32)"

text \<open>The name in a directory entry, as a string.\<close>

definition de_name :: "byte list \<Rightarrow> byte list" where
  "de_name bs = cstring (map (d_name (get_dirent bs)) [0..<DIRSIZ])"

text \<open>
  The loop over the entries of a directory, shared by the programs that have one: \<open>f\<close> is what they do with the
  full name of each entry and its status, \<open>err\<close> the message when \<open>stat\<close> fails.
\<close>

definition dir_step ::
    "string \<Rightarrow> (byte list \<Rightarrow> stat \<Rightarrow> 'x \<Rightarrow> (ust, 'x) kern) \<Rightarrow> int \<Rightarrow> byte list \<Rightarrow> 'x \<Rightarrow> (ust, 'x + 'x) kern" where
  "dir_step err f fd path x =
    kbind (usys (U_read fd 16)) (\<lambda>a.
    if ret a \<noteq> 16 then kret (Inr x)
    else if d_inum (get_dirent (data a)) = 0 then kret (Inl x)
    else
      kbind (kret (path @ str ''/'' @ de_name (data a))) (\<lambda>buf.
      kbind (ustat buf) (\<lambda>(r, st).
      case st of
        Some st \<Rightarrow>
          if r < 0 then kthen (uprintf 1 err [UStr (Some buf)]) (kret (Inl x))
          else kbind (f buf st x) (\<lambda>x. kret (Inl x))
      | None \<Rightarrow> kthen (uprintf 1 err [UStr (Some buf)]) (kret (Inl x)))))"

definition ls_entry :: "byte list \<Rightarrow> stat \<Rightarrow> unit \<Rightarrow> (ust, unit) kern" where
  "ls_entry path st _ =
    uprintf 1 ''%s %d %d %d\<newline>'' [UStr (Some (fmtname path)), UInt (st_type st), UInt (int (st_ino st)), UInt (int (st_size st))]"

definition ls :: "byte list \<Rightarrow> (ust, unit) kern" where
  "ls path =
    kbind (ucall_ret (U_open path 0)) (\<lambda>fd.
    if fd < 0 then uprintf 2 ''ls: cannot open %s\<newline>'' [UStr (Some path)]
    else
      kbind (usys (U_fstat fd)) (\<lambda>a.
      if ret a < 0 then
        kthen (uprintf 2 ''ls: cannot stat %s\<newline>'' [UStr (Some path)]) (
        ucall_do (U_close fd))
      else
        kthen
          (if st_type (status a) = T_FILE then ls_entry path (status a) ()
           else if st_type (status a) = T_DIR then
             if length path + 1 + DIRSIZ + 1 > 512 then uprintf 1 ''ls: path too long\<newline>'' []
             else uloop (dir_step ''ls: cannot stat %s\<newline>'' ls_entry fd path) ()
           else kret ()) (
        ucall_do (U_close fd))))"

fun ls_all :: "byte list list \<Rightarrow> (ust, unit) kern" where
  "ls_all [] = uexit"
| "ls_all (f # fs) = kthen (ls f) (ls_all fs)"

definition ls_main :: "byte list list \<Rightarrow> (ust, unit) kern" where
  "ls_main argv = (if length argv < 2 then kthen (ls (str ''.'')) uexit else ls_all (tl argv))"

section \<open>\<open>cp\<close> and \<open>mv\<close>\<close>

definition cp_ls_entry :: "byte list \<Rightarrow> stat \<Rightarrow> unit \<Rightarrow> (ust, unit) kern" where
  "cp_ls_entry path st _ =
    uprintf 1 ''name = %s, type = directory, size = %d\<newline>'' [UStr (Some (fmtname path)), UInt (int (st_size st))]"

definition cp_ls :: "byte list \<Rightarrow> (ust, unit) kern" where
  "cp_ls path =
    kbind (ucall_ret (U_open path 0)) (\<lambda>fd.
    if fd < 0 then uprintf 2 ''cannot open %s\<newline>'' [UStr (Some path)]
    else
      kbind (usys (U_fstat fd)) (\<lambda>a.
      if ret a < 0 then
        kthen (uprintf 2 ''cannot stat %s\<newline>'' [UStr (Some path)]) (
        ucall_do (U_close fd))
      else
        kthen
          (if st_type (status a) = T_FILE then
             uprintf 1 ''name = %s, type = file, size = %d\<newline>'' [UStr (Some (fmtname path)), UInt (int (st_size (status a)))]
           else if st_type (status a) = T_DIR then
             if length path + 1 + DIRSIZ + 1 > 512 then uprintf 1 ''path too long\<newline>'' []
             else uloop (dir_step ''cannot stat %s\<newline>'' cp_ls_entry fd path) ()
           else kret ()) (
        ucall_do (U_close fd))))"

text \<open>The name of the destination, in an array of 128 bytes.\<close>

definition cp_target :: "byte list \<Rightarrow> byte list \<Rightarrow> (ust, byte list) kern" where
  "cp_target src dst =
    (if dst = [] \<or> length dst \<ge> 128 then undef
     else if last dst = 47 then
       if length dst + length (basename src) \<ge> 128 then undef else kret (dst @ basename src)
     else kret dst)"

definition cp_step :: "int \<Rightarrow> int \<Rightarrow> byte list \<Rightarrow> (ust, byte list + byte list) kern" where
  "cp_step src dst buf =
    kbind (usys (U_read src 256)) (\<lambda>a.
    if ret a > 0 then
      kbind (kret (blit buf 0 (data a))) (\<lambda>buf.
      kthen (ucall_do (U_write dst (take (nat (ret a)) buf))) (
      kret (Inl buf)))
    else kret (Inr buf))"

definition cp_main :: "byte list list \<Rightarrow> (ust, unit) kern" where
  "cp_main argv =
    (if length argv = 1 \<or> length argv = 2 then
       kthen (uprintf 1 ''please input the command as [cp src_file dest_file]\<newline>'' []) uexit
     else
       kbind (ucall_ret (U_open (argv ! 1) O_RDONLY)) (\<lambda>fd_src.
       if fd_src = -1 then kthen (uprintf 1 ''open source file failed\<newline>'' []) uexit
       else
         kbind (usys (U_fstat fd_src)) (\<lambda>a.
         if st_type (status a) = T_DIR then
           kthen (uprintf 1 ''source file is a directory, the files in that directory is:\<newline>'' []) (
           kthen (cp_ls (argv ! 1)) (
           kthen (uprintf 1 ''the program can't open the file in that directory after list them.\<newline>'' []) (
           kthen (uprintf 1 ''So, I'm sorry that you have to copy them one by one.\<newline>'' [])
           uexit)))
         else
           kbind (cp_target (argv ! 1) (argv ! 2)) (\<lambda>com.
           kbind (ucall_ret (U_open com (O_WRONLY + O_CREATE))) (\<lambda>fd_dest.
           if fd_dest = -1 then kthen (uprintf 1 ''create dest file failed\<newline>'' []) uexit
           else
             kbind (uloop (cp_step fd_src fd_dest) (replicate 256 0)) (\<lambda>_.
             kthen (ucall_do (U_close fd_src)) (
             kthen (ucall_do (U_close fd_dest))
             uexit)))))))"

text \<open>\<open>mv.c\<close> has a copy of the \<open>ls\<close> of \<open>cp.c\<close>.\<close>

definition mv_ls :: "byte list \<Rightarrow> (ust, unit) kern" where
  "mv_ls = cp_ls"

definition mv_main :: "byte list list \<Rightarrow> (ust, unit) kern" where
  "mv_main argv =
    (if length argv = 1 \<or> length argv = 2 then
       kthen (uprintf 1 ''please input the command as [mv src_file dest_file]\<newline>'' []) uexit
     else
       kbind (ucall_ret (U_open (argv ! 1) O_RDONLY)) (\<lambda>fd_src.
       if fd_src = -1 then kthen (uprintf 1 ''open source file failed\<newline>'' []) uexit
       else
         kbind (usys (U_fstat fd_src)) (\<lambda>a.
         if st_type (status a) = T_DIR then
           kthen (uprintf 1 ''source file is a directory, the files in that directory is:\<newline>'' []) (
           kthen (mv_ls (argv ! 1)) (
           kthen (uprintf 1 ''the program can't open the file in that directory after list them.\<newline>'' []) (
           kthen (uprintf 1 ''So, I'm sorry that you have to move them one by one.\<newline>'' [])
           uexit)))
         else
           kbind (cp_target (argv ! 1) (argv ! 2)) (\<lambda>com.
           kbind (ucall_ret (U_open com (O_WRONLY + O_CREATE))) (\<lambda>fd_dest.
           if fd_dest = -1 then kthen (uprintf 1 ''create dest file failed\<newline>'' []) uexit
           else
             kbind (uloop (cp_step fd_src fd_dest) (replicate 256 0)) (\<lambda>_.
             kthen (ucall_do (U_close fd_src)) (
             kthen (ucall_do (U_close fd_dest)) (
             kbind (ucall_ret (U_unlink (argv ! 1))) (\<lambda>r.
             kthen (kwhen (r < 0) (uprintf 1 ''delete source file failed\<newline>'' []))
             uexit)))))))))"

section \<open>\<open>rm\<close>\<close>

text \<open>A name as \<open>getcmdlist\<close> stores it: the blank-padded name without its trailing blanks.\<close>

definition trim_blanks :: "byte list \<Rightarrow> byte list" where
  "trim_blanks s = rev (dropWhile (\<lambda>c. c = 32) (rev s))"

definition MAX_EXECMD :: nat where "MAX_EXECMD = 128"

definition getcmdlist_entry :: "byte list \<Rightarrow> stat \<Rightarrow> byte list list \<Rightarrow> (ust, byte list list) kern" where
  "getcmdlist_entry path st cmds =
    (if st_type st = 1 \<or> st_type st = 2 then
       if length cmds \<ge> MAX_EXECMD then undef else kret (cmds @ [trim_blanks (fmtname path)])
     else kret cmds)"

text \<open>After a failed \<open>open\<close> or \<open>fstat\<close> the type in an uninitialised \<open>st\<close> is tested.\<close>

definition getcmdlist :: "byte list \<Rightarrow> (ust, byte list list) kern" where
  "getcmdlist path =
    kbind (ucall_ret (U_open path 0)) (\<lambda>fd.
    kthen (kwhen (fd < 0) (uprintf 2 ''getcmdlist: cannot open %s\<newline>'' [UStr (Some path)])) (
    kbind (usys (U_fstat fd)) (\<lambda>a.
    if ret a < 0 then
      kthen (uprintf 2 ''getcmdlist: cannot stat %s\<newline>'' [UStr (Some path)]) (
      kthen (ucall_do (U_close fd))
      undef)
    else
      kbind
        (if st_type (status a) = T_FILE then
           kthen (ls_entry path (status a) ()) (kret [])
         else if st_type (status a) = T_DIR then
           if length path + 1 + DIRSIZ + 1 > 512 then
             kthen (uprintf 1 ''getcmdlist: path too long\<newline>'' []) (kret [])
           else uloop (dir_step ''getcmdlist: cannot stat %s\<newline>'' getcmdlist_entry fd path) []
         else kret []) (\<lambda>cmds.
      kthen (ucall_do (U_close fd)) (
      kret cmds)))))"

fun rm_entries :: "(byte list \<Rightarrow> (ust, int) kern) \<Rightarrow> byte list \<Rightarrow> byte list list \<Rightarrow> int \<Rightarrow> (ust, int) kern" where
  "rm_entries rm path [] result = kret result"
| "rm_entries rm path (c # cs) result =
    (if c = str ''.'' \<or> c = str ''..'' then rm_entries rm path cs result
     else
       kbind (rm c) (\<lambda>r.
       if r < 0 then
         kthen (uprintf 1 ''rm: %s/%s failed to delete\<newline>'' [UStr (Some path), UStr (Some c)]) (
         rm_entries rm path cs (-1))
       else rm_entries rm path cs result))"

text \<open>\<open>n\<close> bounds the depth of the recursion, which each call of \<open>chdir\<close> bounds by the number of answers.\<close>

fun recurRM :: "nat \<Rightarrow> byte list \<Rightarrow> (ust, int) kern" where
  "recurRM 0 path = kpanic ''depth''"
| "recurRM (Suc n) path =
    kbind (ucall_ret (U_chdir path)) (\<lambda>r.
    if r < 0 then
      kbind (ucall_ret (U_unlink path)) (\<lambda>r.
      if r < 0 then
        kthen (uprintf 1 ''rm: %s file failed to delete\<newline>'' [UStr (Some path)]) (kret (-1))
      else kret 0)
    else
      kbind (getcmdlist (str ''.'')) (\<lambda>cmd.
      kbind (rm_entries (recurRM n) path cmd 0) (\<lambda>result.
      kthen (ucall_do (U_chdir (str ''../''))) (
      kbind (ucall_ret (U_unlink path)) (\<lambda>r.
      if r < 0 then
        kthen (uprintf 1 ''rm: %s diretory failed to delete\<newline>'' [UStr (Some path)]) (kret (-1))
      else kret result)))))"

fun rm_files :: "byte list list \<Rightarrow> (ust, unit) kern" where
  "rm_files [] = uexit"
| "rm_files (f # fs) =
    kbind (kget (\<lambda>s. length (answers s) + 1)) (\<lambda>n.
    kbind (recurRM n f) (\<lambda>r.
    kthen (kwhen (r < 0) (uprintf 1 ''rm: %s failed to delete\<newline>'' [UStr (Some f)])) (
    rm_files fs)))"

definition rm_main :: "byte list list \<Rightarrow> (ust, unit) kern" where
  "rm_main argv =
    (if length argv < 2 then kthen (uprintf 2 ''Usage: rm files...\<newline>'' []) uexit
     else rm_files (tl argv))"

section \<open>Small programs\<close>

fun echo_args :: "byte list list \<Rightarrow> (ust, unit) kern" where
  "echo_args [] = uexit"
| "echo_args (a # as) =
    kthen (uprintf 1 ''%s%s'' [UStr (Some a), UStr (Some (if as \<noteq> [] then str '' '' else str ''\<newline>''))]) (
    echo_args as)"

definition echo_main :: "byte list list \<Rightarrow> (ust, unit) kern" where
  "echo_main argv = echo_args (tl argv)"

fun kill_args :: "byte list list \<Rightarrow> (ust, unit) kern" where
  "kill_args [] = uexit"
| "kill_args (a # as) =
    (case atoi (cstr a) of
       Some pid \<Rightarrow> kthen (ucall_do (U_kill pid)) (kill_args as)
     | None \<Rightarrow> undef)"

definition kill_main :: "byte list list \<Rightarrow> (ust, unit) kern" where
  "kill_main argv =
    (if length argv < 1 then kthen (uprintf 2 ''usage: kill pid...\<newline>'' []) uexit else kill_args (tl argv))"

definition ln_main :: "byte list list \<Rightarrow> (ust, unit) kern" where
  "ln_main argv =
    (if length argv \<noteq> 3 then kthen (uprintf 2 ''Usage: ln old new\<newline>'' []) uexit
     else
       kbind (ucall_ret (U_link (argv ! 1) (argv ! 2))) (\<lambda>r.
       kthen (kwhen (r < 0) (uprintf 2 ''link %s %s: failed\<newline>'' [UStr (Some (argv ! 1)), UStr (Some (argv ! 2))]))
       uexit))"

fun mkdir_args :: "byte list list \<Rightarrow> (ust, unit) kern" where
  "mkdir_args [] = uexit"
| "mkdir_args (a # as) =
    kbind (ucall_ret (U_mkdir a)) (\<lambda>r.
    if r < 0 then kthen (uprintf 2 ''mkdir: %s failed to create\<newline>'' [UStr (Some a)]) uexit
    else mkdir_args as)"

definition mkdir_main :: "byte list list \<Rightarrow> (ust, unit) kern" where
  "mkdir_main argv =
    (if length argv < 2 then kthen (uprintf 2 ''Usage: mkdir files...\<newline>'' []) uexit else mkdir_args (tl argv))"

definition init_wait_step :: "int \<Rightarrow> unit \<Rightarrow> (ust, unit + unit) kern" where
  "init_wait_step pid _ =
    kbind (ucall_ret U_wait) (\<lambda>wpid.
    if wpid \<ge> 0 \<and> wpid \<noteq> pid then kthen (uprintf 1 ''zombie!\<newline>'' []) (kret (Inl ()))
    else kret (Inr ()))"

definition init_step :: "unit \<Rightarrow> (ust, unit + unit) kern" where
  "init_step _ =
    kthen (uprintf 1 ''init: starting sh\<newline>'' []) (
    kbind (ucall_ret U_fork) (\<lambda>pid.
    if pid < 0 then kthen (uprintf 1 ''init: fork failed\<newline>'' []) uexit
    else if pid = 0 then
      kthen (ucall_do (U_exec (str ''sh'') [str ''sh''])) (
      kthen (uprintf 1 ''init: exec sh failed\<newline>'' []) uexit)
    else
      kthen (uloop (init_wait_step pid) ()) (
      kret (Inl ()))))"

definition init_main :: "(ust, unit) kern" where
  "init_main =
    kbind (ucall_ret (U_open (str ''console'') O_RDWR)) (\<lambda>r.
    kthen (kwhen (r < 0) (
      kthen (ucall_do (U_mknod (str ''console'') 1 1)) (
      ucall_do (U_open (str ''console'') O_RDWR)))) (
    kthen (ucall_do (U_dup 0)) (
    kthen (ucall_do (U_dup 0)) (
    uloop init_step ()))))"

text \<open>\<open>history\<close> prints its buffer of 256 bytes as a string, which has to end in it.\<close>

definition history_step :: "int \<Rightarrow> byte list \<Rightarrow> (ust, byte list + unit) kern" where
  "history_step fd buffer =
    kbind (usys (U_read fd 256)) (\<lambda>a.
    if ret a > 0 then
      kbind (kret (blit buffer 0 (data a))) (\<lambda>buffer.
      if 0 \<notin> set buffer then undef
      else
        kthen (uprintf 1 ''%s'' [UStr (Some (cstring buffer))]) (
        kret (Inl (replicate 256 0))))
    else kret (Inr ()))"

definition history_main :: "byte list \<Rightarrow> (ust, unit) kern" where
  "history_main junk =
    kbind (ucall_ret (U_open (str ''/.bash_history'') O_RDONLY)) (\<lambda>fd.
    if fd = -1 then uexit
    else
      kthen (uloop (history_step fd) junk) (
      kthen (ucall_do (U_close fd))
      uexit))"

fun touch_args :: "byte list list \<Rightarrow> int \<Rightarrow> (ust, int) kern" where
  "touch_args [] count = kret count"
| "touch_args (a # as) count =
    kbind (ucall_ret (U_open a O_RDONLY)) (\<lambda>fd.
    if fd < 0 then
      kbind (ucall_ret (U_open a (O_CREATE + O_RDONLY))) (\<lambda>fd.
      kthen (ucall_do (U_close fd)) (touch_args as (count + 1)))
    else kthen (ucall_do (U_close fd)) (touch_args as count))"

definition touch_main :: "byte list list \<Rightarrow> (ust, unit) kern" where
  "touch_main argv =
    kthen (kwhen (length argv \<le> 1) (uprintf 1 ''Please input this command as [touch file_name1 file_name2 ...]\<newline>'' [])) (
    kbind (touch_args (tl argv) 0) (\<lambda>count.
    kthen (uprintf 1 ''%d file(s) created, %d file(s) skiped.\<newline>'' [UInt count, UInt (int (length argv) - 1 - count)])
    uexit))"

definition rename_main :: "byte list list \<Rightarrow> (ust, unit) kern" where
  "rename_main argv =
    (if length argv = 1 \<or> length argv = 2 then
       kthen (uprintf 1 ''please input the command as [rename src_file dest_file]\<newline>'' []) uexit
     else
       kbind (ucall_ret (U_link (argv ! 1) (argv ! 2))) (\<lambda>result.
       kthen
         (if result = 0 then ucall_do (U_unlink (argv ! 1))
          else uprintf 1 ''rename failed, maybe the file is a directory.\<newline>'' [])
       uexit))"

text \<open>\<open>uptime() * 1.5\<close> is exact in floating point and is cut off towards zero.\<close>

definition uptime_main :: "(ust, unit) kern" where
  "uptime_main =
    kbind (ucall_ret U_uptime) (\<lambda>t.
    let result = (if t < 0 then - ((- t * 3) div 2) else (t * 3) div 2);
        rem = (\<lambda>a b. if a < 0 then - ((- a) mod b) else a mod b);
        quo = (\<lambda>a b. if a < 0 then - ((- a) div b) else a div b)
    in kthen (uprintf 1 ''the system has run %d hours %d minutes %d.%d%d seconds\<newline>''
         [UInt (quo result 360000), UInt (quo (rem result 360000) 6000), UInt (quo (rem result 6000) 100),
          UInt (quo (rem result 100) 10), UInt (rem result 10)])
       uexit)"

definition zombie_main :: "(ust, unit) kern" where
  "zombie_main =
    kbind (ucall_ret U_fork) (\<lambda>pid.
    kthen (kwhen (pid > 0) (ucall_do (U_sleep 5)))
    uexit)"

section \<open>Copying\<close>

text \<open>The answers of a copy loop: the pieces read, each with the answer of the \<open>write\<close> that follows.\<close>

fun copy_answers :: "(byte list \<times> answer \<times> answer) list \<Rightarrow> answer list" where
  "copy_answers [] = []"
| "copy_answers ((c, r, w) # ps) = r # w # copy_answers ps"

definition pieces_ok :: "nat \<Rightarrow> (byte list \<times> answer \<times> answer) list \<Rightarrow> bool" where
  "pieces_ok n ps \<longleftrightarrow> (\<forall>(c, r, w) \<in> set ps. read_answer r c \<and> c \<noteq> [] \<and> length c \<le> n)"

lemma cp_step_copy:
  assumes "read_answer r c" "c \<noteq> []" "length c \<le> length buf"
  shows "cp_step src dst buf \<lparr>answers = r # w # as, calls = cs\<rparr> =
    Ok (Inl (blit buf 0 c)) \<lparr>answers = as, calls = cs @ [U_read src 256, U_write dst c]\<rparr>"
  using assms blit_all [OF assms(3)] by (simp add: cp_step_def read_answer_def kret_def)

lemma cp_loop:
  assumes "pieces_ok 256 ps" "length buf = 256" "ret eof \<le> 0"
  shows "\<exists>buf'. uloop (cp_step src dst) buf \<lparr>answers = copy_answers ps @ eof # as, calls = cs\<rparr> =
    Ok buf' \<lparr>answers = as, calls = cs @ concat (map (\<lambda>(c, _). [U_read src 256, U_write dst c]) ps) @ [U_read src 256]\<rparr>"
  using assms(1,2)
proof (induction ps arbitrary: buf cs)
  case Nil
  show ?case using assms(3) by (subst uloop.simps) (simp add: cp_step_def kret_def)
next
  case (Cons p ps)
  obtain c r w where p: "p = (c, r, w)" by (cases p) auto
  have c: "read_answer r c" "c \<noteq> []" "length c \<le> length buf" "pieces_ok 256 ps" using Cons.prems p by (auto simp: pieces_ok_def)
  show ?case
    using Cons.IH [OF c(4), of "blit buf 0 c" "cs @ [U_read src 256, U_write dst c]"] Cons.prems(2) blit_all [OF c(3)] p
    by (subst uloop.simps) (simp add: cp_step_copy [OF c(1-3)])
qed

section \<open>Counting\<close>

function n_words :: "byte list \<Rightarrow> int" where
  "n_words [] = 0"
| "n_words (b # bs) =
    (if b \<in> set wc_white then n_words bs else 1 + n_words (dropWhile (\<lambda>b. b \<notin> set wc_white) bs))"
  by pat_completeness auto

termination
  by (relation "measure length") (auto simp: le_imp_less_Suc length_dropWhile_le)

lemma wc_chars_count:
  "wc_l (wc_chars bs x) = wc_l x + int (length (filter (\<lambda>b. b = 10) bs)) \<and>
   wc_c (wc_chars bs x) = wc_c x + int (length bs) \<and>
   wc_w (wc_chars bs x) = wc_w x + (if wc_in x then n_words (dropWhile (\<lambda>b. b \<notin> set wc_white) bs) else n_words bs)"
  by (induction bs arbitrary: x) (simp_all add: Let_def)

lemma wc_chars_append: "wc_chars (a @ b) x = wc_chars b (wc_chars a x)"
  by (induction a arbitrary: x) (simp_all add: Let_def)

lemma wc_loop:
  assumes "list_all2 read_answer rs cs" "\<forall>c \<in> set cs. c \<noteq> [] \<and> length c \<le> 512" "length buf = 512" "ret eof = 0"
  shows "\<exists>buf'. uloop (wc_step fd) (buf, x) \<lparr>answers = rs @ eof # as, calls = k\<rparr> =
    Ok (buf', wc_chars (concat cs) x) \<lparr>answers = as, calls = k @ replicate (length cs + 1) (U_read fd 512)\<rparr>"
  using assms(1-3)
proof (induction rs cs arbitrary: buf x k rule: list_all2_induct)
  case Nil
  show ?case using assms(4) by (subst uloop.simps) (simp add: wc_step_def kret_def)
next
  case (Cons r rs c cs)
  have b: "take (length c) (blit buf 0 c) = c \<and> length (blit buf 0 c) = length buf" using blit_all [of c buf] Cons.prems by simp
  have "wc_step fd (buf, x) \<lparr>answers = r # rs @ eof # as, calls = k\<rparr> =
      Ok (Inl (blit buf 0 c, wc_chars c x)) \<lparr>answers = rs @ eof # as, calls = k @ [U_read fd 512]\<rparr>"
    using Cons.hyps(1) Cons.prems b by (simp add: wc_step_def read_answer_def kret_def)
  then show ?case
    using Cons.IH [of "blit buf 0 c" "wc_chars c x" "k @ [U_read fd 512]"] Cons.prems b
    by (subst uloop.simps) (simp add: wc_chars_append)
qed

section \<open>Progress\<close>

text \<open>
  A part of a program that gives no answers back, and that, while fewer than \<open>n\<close> answers are left, fails only by
  undefined behaviour: no loop turns without a system call, and the depth given to \<open>recurRM\<close> is enough.
\<close>

definition ok :: "nat \<Rightarrow> (ust, 'a) kern \<Rightarrow> bool" where
  "ok n m \<longleftrightarrow> (\<forall>s. case m s of
      Ok x t \<Rightarrow> length (answers t) \<le> length (answers s)
    | Panic e \<Rightarrow> length (answers s) < n \<longrightarrow> e = ''undefined''
    | Sleeping t \<Rightarrow> True)"

definition strict :: "(ust, 'a) kern \<Rightarrow> bool" where
  "strict m \<longleftrightarrow> (\<forall>s x t. m s = Ok x t \<longrightarrow> length (answers t) < length (answers s))"

lemma okD:
  assumes "ok n m"
  shows "m s = Ok x t \<Longrightarrow> length (answers t) \<le> length (answers s)"
    "m s = Panic e \<Longrightarrow> length (answers s) < n \<Longrightarrow> e = ''undefined''"
  using spec [OF assms [unfolded ok_def], of s] by simp_all

lemma okI:
  assumes "\<And>s x t. m s = Ok x t \<Longrightarrow> length (answers t) \<le> length (answers s)"
    "\<And>s e. m s = Panic e \<Longrightarrow> length (answers s) < n \<Longrightarrow> e = ''undefined''"
  shows "ok n m"
  unfolding ok_def using assms by (simp split: kres.split)

lemma ok_basic: "ok n (kret x)" "ok n (usys c)" "ok n uexit" "ok n undef" "ok n (kget f)"
  by (simp_all add: ok_def kern_defs usys_def uexit_def undef_def split: list.splits)

lemma ok_bind:
  assumes "ok n m" "\<And>x. ok n (f x)"
  shows "ok n (kbind m f)"
proof (rule okI)
  fix s y t assume "kbind m f s = Ok y t"
  then show "length (answers t) \<le> length (answers s)" using okD(1) [OF assms(1)] okD(1) [OF assms(2)]
    by (fastforce simp: kbind_Ok intro: le_trans)
next
  fix s e assume b: "kbind m f s = Panic e" and n: "length (answers s) < n"
  show "e = ''undefined''"
  proof (cases "m s")
    case (Ok x t)
    then have "length (answers t) < n" using okD(1) [OF assms(1) Ok] n by simp
    then show ?thesis using okD(2) [OF assms(2), of x t e] b Ok by (simp add: kbind_def)
  qed (use b n okD(2) [OF assms(1)] in \<open>auto simp: kbind_def\<close>)
qed

lemma ok_then: "ok n m \<Longrightarrow> ok n k \<Longrightarrow> ok n (kthen m k)"
  unfolding kthen_def by (rule ok_bind)

lemma ok_if: "ok n m \<Longrightarrow> ok n k \<Longrightarrow> ok n (if b then m else k)"
  by simp

lemma ok_option: "ok n m \<Longrightarrow> (\<And>x. ok n (f x)) \<Longrightarrow> ok n (case y of None \<Rightarrow> m | Some x \<Rightarrow> f x)"
  by (cases y) auto

lemma ok_prod: "(\<And>x y. ok n (f x y)) \<Longrightarrow> ok n (case p of (x, y) \<Rightarrow> f x y)"
  by (cases p) auto

lemma ok_when: "ok n m \<Longrightarrow> ok n (kwhen b m)"
  by (simp add: kwhen_def ok_basic)

lemma ok_calls: "ok n (ucall_ret c)" "ok n (ucall_do c)" "ok n (uputc fd b)"
  unfolding ucall_ret_def ucall_do_def uputc_def by (intro ok_bind ok_basic)+

lemma ok_puts: "ok n (uputs fd cs)"
  by (induction cs) (auto intro!: ok_then ok_calls ok_basic)

lemma ok_printf_loop: "ok n (uprintf_loop fd fmt ap)"
proof (induction fd fmt ap rule: uprintf_loop.induct)
  case (3 fd c d fmt ap)
  have u: "ok n (kpanic ''undefined'')" using ok_basic(4) by (simp add: undef_def)
  show ?case using 3
    by (auto simp: uprintint_def u split: list.split uarg.split option.split intro!: ok_then ok_calls ok_puts)
qed (simp_all add: ok_basic ok_calls)

lemma ok_printf: "ok n (uprintf fd fmt ap)"
  by (simp add: uprintf_def ok_printf_loop)

lemma ok_loop:
  assumes "\<And>x. ok n (body x)" "\<And>x s y t. body x s = Ok (Inl y) t \<Longrightarrow> length (answers t) < length (answers s)"
  shows "ok n (uloop body x)"
proof (rule okI)
  fix s r t assume "uloop body x s = Ok r t"
  then show "length (answers t) \<le> length (answers s)" using assms
  proof (induction body x s rule: uloop.induct)
    case (1 body x s)
    obtain y u where y: "body x s = Ok y u" using "1.prems"(1) by (subst (asm) uloop.simps) (auto split: kres.splits)
    have u: "length (answers u) \<le> length (answers s)" using okD(1) [OF "1.prems"(2) y] .
    show ?case
    proof (cases y)
      case (Inl z)
      then have l: "length (answers u) < length (answers s)" using "1.prems"(3) y by blast
      then have "uloop body z u = Ok r t" using "1.prems"(1) y Inl by (simp add: uloop.simps [of body x s])
      then have "length (answers t) \<le> length (answers u)" using "1.IH" [OF y Inl l] "1.prems"(2,3) by blast
      then show ?thesis using u by simp
    next
      case (Inr z)
      then show ?thesis using "1.prems"(1) y u by (simp add: uloop.simps [of body x s])
    qed
  qed
next
  fix s e assume "uloop body x s = Panic e" "length (answers s) < n"
  then show "e = ''undefined''" using assms
  proof (induction body x s rule: uloop.induct)
    case (1 body x s)
    show ?case
    proof (cases "body x s")
      case (Ok y u)
      then obtain z where z: "y = Inl z" using "1.prems"(1) by (cases y) (auto simp: uloop.simps [of body x s])
      then have l: "length (answers u) < length (answers s)" using "1.prems"(4) Ok by blast
      then have "uloop body z u = Panic e" using "1.prems"(1) Ok z by (simp add: uloop.simps [of body x s])
      then show ?thesis using "1.IH" [OF Ok z l] "1.prems"(2-4) l by simp
    next
      case (Panic e')
      then show ?thesis using "1.prems"(1,2) okD(2) [OF "1.prems"(3) Panic] by (simp add: uloop.simps [of body x s])
    next
      case (Sleeping t)
      then show ?thesis using "1.prems"(1) by (simp add: uloop.simps [of body x s])
    qed
  qed
qed

lemma strict_bind: "strict m \<Longrightarrow> (\<And>x. ok 0 (f x)) \<Longrightarrow> strict (kbind m f)"
  unfolding strict_def kbind_Ok using okD(1) by (metis le_less_trans)

lemma strict_later: "ok 0 m \<Longrightarrow> (\<And>x. strict (f x)) \<Longrightarrow> strict (kbind m f)"
  unfolding strict_def kbind_Ok using okD(1) by (metis less_le_trans)

lemma strict_calls: "strict (usys c)" "strict (ucall_ret c)"
  by (auto simp: strict_def usys_def ucall_ret_def kern_defs split: list.splits)

lemma strictD: "strict m \<Longrightarrow> m s = Ok x t \<Longrightarrow> length (answers t) < length (answers s)"
  unfolding strict_def by blast

lemmas ok_rules = ok_basic ok_bind ok_then ok_if ok_option ok_prod ok_when ok_calls ok_puts ok_printf

lemma ok_mono: "ok n m \<Longrightarrow> k \<le> n \<Longrightarrow> ok k m"
  by (rule okI) (auto dest: okD)

lemma ok_uloop: "(\<And>x. ok n (body x)) \<Longrightarrow> (\<And>x. strict (body x)) \<Longrightarrow> ok n (uloop body x)"
  by (rule ok_loop) (auto dest: strictD)

lemma strict_usys: "(\<And>x. ok 0 (f x)) \<Longrightarrow> strict (kbind (usys c) f)" "(\<And>x. ok 0 (g x)) \<Longrightarrow> strict (kbind (ucall_ret c) g)"
  by (auto intro: strict_bind strict_calls)

text \<open>Parts that do not return.\<close>

definition leaves :: "(ust, 'a) kern \<Rightarrow> bool" where
  "leaves m \<longleftrightarrow> (\<forall>s x t. m s \<noteq> Ok x t)"

lemma leaves_basic: "leaves uexit" "leaves undef"
  by (auto simp: leaves_def uexit_def undef_def kpanic_def)

lemma leaves_bind: "(\<And>x. leaves (f x)) \<Longrightarrow> leaves (kbind m f)"
  by (auto simp: leaves_def kbind_Ok)

lemma leaves_then: "leaves k \<Longrightarrow> leaves (kthen m k)"
  unfolding kthen_def by (rule leaves_bind)

lemma leaves_if: "leaves m \<Longrightarrow> leaves k \<Longrightarrow> leaves (if b then m else k)"
  by simp

lemma uloop_leaves:
  assumes "uloop body x s = Ok r t" "\<And>x s z t. body x s \<noteq> Ok (Inr z) t"
  shows False
  using assms
proof (induction body x s rule: uloop.induct)
  case (1 body x s)
  then show ?case by (auto simp: uloop.simps [of body x s] split: kres.splits sum.splits if_splits)
qed

lemma leaves_uloop:
  assumes "\<And>x s z t. body x s \<noteq> Ok (Inr z) t"
  shows "leaves (uloop body x)"
  unfolding leaves_def using uloop_leaves [OF _ assms] by auto

lemmas leave_rules = leaves_basic leaves_bind leaves_then leaves_if

text \<open>A program ends in a system call or in undefined behaviour.\<close>

definition ends :: "(ust, 'a) kern \<Rightarrow> bool" where
  "ends m \<longleftrightarrow> (\<forall>s. case m s of Ok _ _ \<Rightarrow> False | Panic e \<Rightarrow> e = ''undefined'' | Sleeping _ \<Rightarrow> True)"

lemma endsI: "(\<And>n. ok n m) \<Longrightarrow> leaves m \<Longrightarrow> ends m"
  unfolding ends_def leaves_def using okD(2) by (fastforce split: kres.split)

lemma ok_ustat: "ok n (ustat p)"
  unfolding ustat_def by (intro ok_rules)

lemma ok_dir_step: "(\<And>p st x. ok n (f p st x)) \<Longrightarrow> ok n (dir_step e f fd path x)"
  unfolding dir_step_def by (intro ok_rules ok_ustat)

lemma strict_dir_step: "(\<And>p st x. ok 0 (f p st x)) \<Longrightarrow> strict (dir_step e f fd path x)"
  unfolding dir_step_def by (intro strict_usys ok_rules ok_ustat)

lemma ok_ugets: "ok n (ugets_from k buf)"
proof (induction k arbitrary: buf)
  case (Suc k)
  show ?case unfolding ugets_from.simps by (intro ok_rules Suc)
qed (simp add: ok_basic)

lemma ok_cat: "ok n (cat fd dst buf)"
  unfolding cat_def
proof (rule ok_uloop)
  show "ok n (cat_step fd dst x)" for x unfolding cat_step_def by (intro ok_rules)
  show "strict (cat_step fd dst x)" for x unfolding cat_step_def by (intro strict_usys ok_rules)
qed

lemma ok_cat_files: "ok n (cat_files dst fs buf)"
proof (induction fs arbitrary: buf)
  case (Cons f fs)
  show ?case unfolding cat_files.simps by (intro ok_rules ok_cat Cons)
qed (simp add: ok_basic)

lemma cat_typed: "ok n (cat_typed_step fd x)" "strict (cat_typed_step fd x)" "cat_typed_step fd x s \<noteq> Ok (Inr z) t"
proof -
  show "ok n (cat_typed_step fd x)" unfolding cat_typed_step_def ugets_def by (intro ok_rules ok_ugets)
  have "strict (ugets 512)" unfolding ugets_def by (simp add: numeral_eq_Suc, intro strict_usys ok_rules ok_ugets)
  then show "strict (cat_typed_step fd x)" unfolding cat_typed_step_def by (intro strict_bind ok_rules)
  show "cat_typed_step fd x s \<noteq> Ok (Inr z) t"
    by (auto simp: cat_typed_step_def kbind_Ok kthen_def uexit_def kret_def split: if_splits)
qed

lemma cat_main_ends: "ends (cat_main argv)"
proof (rule endsI)
  show "ok n (cat_main argv)" for n
    unfolding cat_main_def cat_help_def by (intro ok_rules ok_cat ok_cat_files ok_uloop cat_typed)
  show "leaves (cat_main argv)"
    unfolding cat_main_def cat_help_def by (intro leave_rules leaves_uloop cat_typed)
qed

lemma ok_wc: "ok n (wc fd name buf)"
proof -
  have "ok n (wc_step fd x)" "strict (wc_step fd x)" for x
    unfolding wc_step_def by (cases x, simp, intro ok_rules, cases x, simp, intro strict_usys ok_rules)
  then show ?thesis unfolding wc_def by (intro ok_rules ok_uloop)
qed

lemma wc_main_ends: "ends (wc_main argv)"
proof (rule endsI)
  have "ok n (wc_files fs buf)" for n fs buf
  proof (induction fs arbitrary: buf)
    case (Cons f fs)
    show ?case unfolding wc_files.simps by (intro ok_rules ok_wc Cons)
  qed (simp add: ok_basic)
  then show "ok n (wc_main argv)" for n unfolding wc_main_def by (intro ok_rules ok_wc)
  have "leaves (wc_files fs buf)" for fs buf
  proof (induction fs arbitrary: buf)
    case (Cons f fs)
    show ?case unfolding wc_files.simps by (intro leave_rules Cons)
  qed (simp add: leaves_basic)
  then show "leaves (wc_main argv)" unfolding wc_main_def by (intro leave_rules)
qed

lemma ok_ls_entry: "ok n (ls_entry p st x)" "ok n (cp_ls_entry p st x)" "ok n (getcmdlist_entry p st cs)"
  unfolding ls_entry_def cp_ls_entry_def getcmdlist_entry_def by (intro ok_rules)+

lemma ok_ls: "ok n (ls path)" "ok n (cp_ls path)"
  unfolding ls_def cp_ls_def by (intro ok_rules ok_uloop ok_dir_step strict_dir_step ok_ls_entry)+

lemma ls_main_ends: "ends (ls_main argv)"
proof (rule endsI)
  have o: "ok n (ls_all fs)" for n fs
  proof (induction fs)
    case (Cons f fs)
    show ?case unfolding ls_all.simps by (intro ok_rules ok_ls Cons)
  qed (simp add: ok_basic)
  then show "ok n (ls_main argv)" for n unfolding ls_main_def by (intro ok_rules ok_ls)
  have "leaves (ls_all fs)" for fs by (induction fs) (auto intro: leave_rules)
  then show "leaves (ls_main argv)" unfolding ls_main_def by (intro leave_rules)
qed

lemma cp_main_ends: "ends (cp_main argv)" "ends (mv_main argv)"
proof -
  have c: "ok n (cp_step s d x)" "strict (cp_step s d x)" for n s d x
    unfolding cp_step_def by (intro ok_rules, intro strict_usys ok_rules)
  have t: "ok n (cp_target a b)" for n a b unfolding cp_target_def by (intro ok_rules)
  show "ends (cp_main argv)" unfolding cp_main_def
    by (rule endsI) (intro ok_rules ok_ls ok_uloop c t, intro leave_rules)
  show "ends (mv_main argv)" unfolding mv_main_def mv_ls_def
    by (rule endsI) (intro ok_rules ok_ls ok_uloop c t, intro leave_rules)
qed

lemma ok_getcmdlist: "ok n (getcmdlist path)"
  unfolding getcmdlist_def by (intro ok_rules ok_uloop ok_dir_step strict_dir_step ok_ls_entry)

lemma ok_call_first: "(\<And>x. ok n (f x)) \<Longrightarrow> ok (Suc n) (kbind (ucall_ret c) f)"
proof (rule okI)
  fix s x t assume f: "\<And>x. ok n (f x)" and b: "kbind (ucall_ret c) f s = Ok x t"
  then show "length (answers t) \<le> length (answers s)" using okD(1) [OF ok_bind [OF ok_calls(1) f] b] by simp
next
  fix s e assume f: "\<And>x. ok n (f x)" and b: "kbind (ucall_ret c) f s = Panic e" and n: "length (answers s) < Suc n"
  then obtain a as where a: "answers s = a # as" by (cases "answers s") (auto simp: kern_defs ucall_ret_def usys_def)
  then have "f (ret a) (s\<lparr>answers := as, calls := calls s @ [c]\<rparr>) = Panic e"
    using b by (simp add: kern_defs ucall_ret_def usys_def)
  then show "e = ''undefined''" using okD(2) [OF f [of "ret a"]] a n by simp
qed

lemma ok_recurRM: "ok n (recurRM n path)"
proof (induction n arbitrary: path)
  case (Suc n)
  have "ok n (rm_entries (recurRM n) path cs r)" for cs r
  proof (induction cs arbitrary: r)
    case (Cons c cs)
    show ?case unfolding rm_entries.simps by (intro ok_rules Suc Cons)
  qed (simp add: ok_basic)
  then show ?case unfolding recurRM.simps by (intro ok_call_first ok_rules ok_getcmdlist)
qed (rule okI, simp_all add: kpanic_def)

lemma ok_recurRM_answers: "ok n (\<lambda>s. recurRM (length (answers s) + 1) path s)"
proof (rule okI)
  fix s x t assume "recurRM (length (answers s) + 1) path s = Ok x t"
  then show "length (answers t) \<le> length (answers s)" by (rule okD(1) [OF ok_recurRM])
next
  fix s e assume "recurRM (length (answers s) + 1) path s = Panic e"
  then show "e = ''undefined''" by (rule okD(2) [OF ok_recurRM]) simp
qed

lemma ok_rm_files: "ok n (rm_files fs)"
proof (induction fs)
  case (Cons f fs)
  have "rm_files (f # fs) = kbind (\<lambda>s. recurRM (length (answers s) + 1) f s) (\<lambda>r.
      kthen (kwhen (r < 0) (uprintf 1 ''rm: %s failed to delete\<newline>'' [UStr (Some f)])) (rm_files fs))"
    by (rule ext) (simp add: kbind_def kget_def)
  then show ?case by (simp only:) (intro ok_rules ok_recurRM_answers Cons)
qed (simp add: ok_basic)

lemma rm_main_ends: "ends (rm_main argv)"
proof (rule endsI)
  show "ok n (rm_main argv)" for n unfolding rm_main_def by (intro ok_rules ok_rm_files)
  have "leaves (rm_files fs)" for fs by (induction fs) (auto intro!: leave_rules)
  then show "leaves (rm_main argv)" unfolding rm_main_def by (intro leave_rules)
qed

lemma small_main_ends: "ends (echo_main argv)" "ends (kill_main argv)" "ends (ln_main argv)" "ends (mkdir_main argv)"
    "ends (touch_main argv)" "ends (rename_main argv)" "ends uptime_main" "ends zombie_main"
proof -
  have "ok n (echo_args as)" "leaves (echo_args as)" for n as
    by (induction as) (auto intro!: ok_rules leave_rules simp del: not_Cons_self)
  then show "ends (echo_main argv)" unfolding echo_main_def by (intro endsI)
  have "ok n (kill_args as)" "leaves (kill_args as)" for n as
    by (induction as) (auto intro!: ok_rules leave_rules split: option.split)
  then show "ends (kill_main argv)" unfolding kill_main_def by (intro endsI ok_rules leave_rules)
  show "ends (ln_main argv)" unfolding ln_main_def by (rule endsI) (intro ok_rules, intro leave_rules)
  have "ok n (mkdir_args as)" "leaves (mkdir_args as)" for n as
    by (induction as) (auto intro!: ok_rules leave_rules)
  then show "ends (mkdir_main argv)" unfolding mkdir_main_def by (intro endsI ok_rules leave_rules)
  have "ok n (touch_args as k)" for n as k
    by (induction as arbitrary: k) (auto intro!: ok_rules)
  then show "ends (touch_main argv)" unfolding touch_main_def by (intro endsI ok_rules leave_rules)
  show "ends (rename_main argv)" unfolding rename_main_def by (rule endsI) (intro ok_rules, intro leave_rules)
  show "ends uptime_main" unfolding uptime_main_def Let_def by (rule endsI) (intro ok_rules, intro leave_rules)
  show "ends zombie_main" unfolding zombie_main_def by (rule endsI) (intro ok_rules, intro leave_rules)
qed

lemma history_main_ends: "ends (history_main junk)"
proof (rule endsI)
  show "ok n (history_main junk)" for n
    unfolding history_main_def history_step_def by (intro ok_rules ok_uloop strict_usys)
  show "leaves (history_main junk)" unfolding history_main_def by (intro leave_rules)
qed

lemma init_main_ends: "ends init_main"
proof (rule endsI)
  have w: "ok n (uloop (init_wait_step pid) x)" for n pid x
    unfolding init_wait_step_def by (intro ok_rules ok_uloop strict_usys)
  have i: "ok n (init_step x)" for n x unfolding init_step_def by (intro ok_rules w)
  have s: "strict (init_step x)" for x
    unfolding init_step_def kthen_def [of "uprintf 1 s a" for s a]
    by (intro strict_later strict_usys ok_rules w)
  show "ok n init_main" for n unfolding init_main_def by (intro ok_rules ok_uloop i s)
  have "init_step x s \<noteq> Ok (Inr z) t" for x s z t
    by (auto simp: init_step_def kbind_Ok kthen_def uexit_def kret_def split: if_splits)
  then show "leaves init_main" unfolding init_main_def by (intro leave_rules leaves_uloop)
qed

section \<open>Properties\<close>


text \<open>C29. \<open>cp\<close> and \<open>mv\<close> write the bytes of the source to the destination in order, in the pieces \<open>read\<close> delivers; \<open>mv\<close>
  then removes the source, whatever the calls of \<open>write\<close> answered.\<close>

theorem cp_mv_copy:
  assumes "ret src \<noteq> -1" "ret dst \<noteq> -1" "st_type (status st) \<noteq> T_DIR" "cp_target a b = kret com"
    "pieces_ok 256 ps" "ret eof \<le> 0" "ret u \<ge> 0"
  defines "copy \<equiv> [U_open a O_RDONLY, U_fstat (ret src), U_open com (O_WRONLY + O_CREATE)] @
    concat (map (\<lambda>(c, _). [U_read (ret src) 256, U_write (ret dst) c]) ps) @
    [U_read (ret src) 256, U_close (ret src), U_close (ret dst)]"
  shows "cp_main [n, a, b] \<lparr>answers = src # st # dst # copy_answers ps @ [eof, c1, c2], calls = []\<rparr> =
      Sleeping \<lparr>answers = [], calls = copy @ [U_exit]\<rparr> \<and>
    mv_main [n, a, b] \<lparr>answers = src # st # dst # copy_answers ps @ [eof, c1, c2, u], calls = []\<rparr> =
      Sleeping \<lparr>answers = [], calls = copy @ [U_unlink a, U_exit]\<rparr>"
proof -
  obtain b1 where "uloop (cp_step (ret src) (ret dst)) (replicate 256 0)
      \<lparr>answers = copy_answers ps @ [eof, c1, c2], calls = [U_open a O_RDONLY, U_fstat (ret src), U_open com (O_WRONLY + O_CREATE)]\<rparr> =
      Ok b1 \<lparr>answers = [c1, c2], calls = take (length copy - 2) copy\<rparr>"
    using cp_loop [OF assms(5) _ assms(6), of "replicate 256 0" "ret src" "ret dst" "[c1, c2]"
      "[U_open a O_RDONLY, U_fstat (ret src), U_open com (O_WRONLY + O_CREATE)]"] by (auto simp: copy_def)
  moreover obtain b2 where "uloop (cp_step (ret src) (ret dst)) (replicate 256 0)
      \<lparr>answers = copy_answers ps @ [eof, c1, c2, u], calls = [U_open a O_RDONLY, U_fstat (ret src), U_open com (O_WRONLY + O_CREATE)]\<rparr> =
      Ok b2 \<lparr>answers = [c1, c2, u], calls = take (length copy - 2) copy\<rparr>"
    using cp_loop [OF assms(5) _ assms(6), of "replicate 256 0" "ret src" "ret dst" "[c1, c2, u]"
      "[U_open a O_RDONLY, U_fstat (ret src), U_open com (O_WRONLY + O_CREATE)]"] by (auto simp: copy_def)
  moreover have "copy = take (length copy - 2) copy @ [U_close (ret src), U_close (ret dst)]" by (simp add: copy_def)
  ultimately show ?thesis using assms(1-4,7)
    by (auto simp: cp_main_def mv_main_def kbind_def [of "uloop f x" g for f x g] kwhen_def kthen_def [of "kret ()"])
qed


definition wit_answer :: "int \<Rightarrow> byte list \<Rightarrow> answer" where
  "wit_answer n bs = \<lparr>ret = n, data = bs, status = \<lparr>st_type = T_FILE, st_dev = 1, st_ino = 7, st_nlink = 1, st_size = 2\<rparr>, fds = (0, 0)\<rparr>"

text \<open>Moving the file \<open>f\<close> to \<open>g\<close> when the only \<open>write\<close> fails.\<close>

theorem cp_mv_copy_witness:
  "mv_main [str ''mv'', str ''f'', str ''g'']
     \<lparr>answers = [wit_answer 3 [], wit_answer 0 [], wit_answer 4 [], wit_answer 2 [104, 105], wit_answer (-1) [],
        wit_answer 0 [], wit_answer 0 [], wit_answer 0 [], wit_answer 0 []], calls = []\<rparr> =
   Sleeping \<lparr>answers = [], calls = [U_open (str ''f'') O_RDONLY, U_fstat 3, U_open (str ''g'') (O_WRONLY + O_CREATE), U_read 3 256,
     U_write 4 [104, 105], U_read 3 256, U_close 3, U_close 4, U_unlink (str ''f''), U_exit]\<rparr>"
  using cp_mv_copy [of "wit_answer 3 []" "wit_answer 4 []" "wit_answer 0 []" "str ''f''" "str ''g''" "str ''g''"
      "[([104, 105], wit_answer 2 [104, 105], wit_answer (-1) [])]" "wit_answer 0 []" "wit_answer 0 []" "str ''mv''" "wit_answer 0 []" "wit_answer 0 []"]
  by (simp add: wit_answer_def T_FILE_def T_DIR_def cp_target_def str_def pieces_ok_def read_answer_def)


end
