(* ===== verification/Grep.thy ===== *)
theory Grep
  imports Uprogs
begin

text \<open>
  \<open>grep.c\<close>: the regular expression matcher (\<open>match\<close>, \<open>matchhere\<close>, \<open>matchstar\<close>), the line buffer of \<open>grep\<close>, and
  \<open>main\<close>.  The matcher is compared with a specification that reads the pattern into items and describes the
  texts they stand for.
\<close>

section \<open>The matcher\<close>

function matchhere :: "byte list \<Rightarrow> byte list \<Rightarrow> bool"
  and matchstar :: "byte \<Rightarrow> byte list \<Rightarrow> byte list \<Rightarrow> bool" where
  "matchhere re ys =
    (if re = [] then True
     else if tl re \<noteq> [] \<and> hd (tl re) = 42 then matchstar (hd re) (tl (tl re)) ys
     else if hd re = 36 \<and> tl re = [] then ys = []
     else if ys \<noteq> [] \<and> (hd re = 46 \<or> hd re = hd ys) then matchhere (tl re) (tl ys)
     else False)"
| "matchstar c re ys =
    (if matchhere re ys then True
     else if ys \<noteq> [] \<and> (hd ys = c \<or> c = 46) then matchstar c re (tl ys)
     else False)"
  by pat_completeness auto

termination
  by (relation "measure (case_sum (\<lambda>(re, t). 2 * (length re + length t)) (\<lambda>(c, re, t). 2 * (length re + length t) + 1))")
    (auto simp: neq_Nil_conv)

declare matchhere.simps [simp del] matchstar.simps [simp del]

fun match_from :: "byte list \<Rightarrow> byte list \<Rightarrow> bool" where
  "match_from re [] = matchhere re []"
| "match_from re (c # ys) = (if matchhere re (c # ys) then True else match_from re ys)"

definition match_re :: "byte list \<Rightarrow> byte list \<Rightarrow> bool" where
  "match_re re ys = (if re \<noteq> [] \<and> hd re = 94 then matchhere (tl re) ys else match_from re ys)"

section \<open>The program\<close>

text \<open>\<open>strchr(p, '\n')\<close> in what is left of the array: \<open>None\<close> past its end, \<open>Some None\<close> at a NUL.\<close>

fun find_nl :: "byte list \<Rightarrow> nat option option" where
  "find_nl [] = None"
| "find_nl (c # cs) =
    (if c = 0 then Some None else if c = 10 then Some (Some 0) else map_option (map_option Suc) (find_nl cs))"

lemma find_nl_less: "find_nl l = Some (Some k) \<Longrightarrow> k < length l"
  by (induction l arbitrary: k) (auto split: if_splits)

text \<open>The lines of the buffer from \<open>p\<close> on; a line that does not match keeps the NUL in the place of its newline.\<close>

function grep_lines :: "byte list \<Rightarrow> nat \<Rightarrow> byte list \<Rightarrow> (ust, nat \<times> byte list) kern" where
  "grep_lines pattern p buf =
    (case find_nl (drop p buf) of
       None \<Rightarrow> undef
     | Some None \<Rightarrow> kret (p, buf)
     | Some (Some k) \<Rightarrow>
       if match_re pattern (take k (drop p buf)) then
         kthen (ucall_do (U_write 1 (take k (drop p buf) @ [10]))) (
         grep_lines pattern (p + k + 1) buf)
       else grep_lines pattern (p + k + 1) (buf[p + k := 0]))"
  by pat_completeness auto

termination
  by (relation "measure (\<lambda>(pattern, p, buf). length buf - p)") (auto dest!: find_nl_less)

declare grep_lines.simps [simp del]

definition grep_step :: "byte list \<Rightarrow> int \<Rightarrow> byte list \<times> int \<Rightarrow> (ust, byte list \<times> int + byte list) kern" where
  "grep_step pattern fd = (\<lambda>(buf, m).
    kbind (usys (U_read fd (1024 - m))) (\<lambda>a.
    if ret a > 0 then
      if m < 0 then undef
      else
        kbind (grep_lines pattern 0 (blit buf (nat m) (data a))) (\<lambda>(p, buf).
        let m = m + ret a;
            m = (if p = 0 then 0 else m);
            (buf, m) = (if m > 0 then (blit buf 0 (take (nat (m - int p)) (drop p buf)), m - int p) else (buf, m))
        in kret (Inl (buf, m)))
    else kret (Inr buf)))"

definition grep :: "byte list \<Rightarrow> int \<Rightarrow> byte list \<Rightarrow> (ust, byte list) kern" where
  "grep pattern fd buf = uloop (grep_step pattern fd) (buf, 0)"

fun grep_files :: "byte list \<Rightarrow> byte list list \<Rightarrow> byte list \<Rightarrow> (ust, unit) kern" where
  "grep_files pattern [] buf = uexit"
| "grep_files pattern (f # fs) buf =
    kbind (ucall_ret (U_open f 0)) (\<lambda>fd.
    if fd < 0 then kthen (uprintf 1 ''grep: cannot open %s\<newline>'' [UStr (Some f)]) uexit
    else
      kbind (grep pattern fd buf) (\<lambda>buf.
      kthen (ucall_do (U_close fd)) (
      grep_files pattern fs buf)))"

definition grep_main :: "byte list list \<Rightarrow> (ust, unit) kern" where
  "grep_main argv =
    (if length argv \<le> 1 then kthen (uprintf 2 ''usage: grep pattern [file ...]\<newline>'' []) uexit
     else if length argv \<le> 2 then kbind (grep (argv ! 1) 0 (replicate 1024 0)) (\<lambda>_. uexit)
     else grep_files (argv ! 1) (drop 2 argv) (replicate 1024 0))"

section \<open>What a pattern means\<close>

text \<open>
  The items of a pattern and whether it ends in \<open>$\<close>.  A character is matched by itself, or by every character
  if it is a dot; a star stands for any number of them.
\<close>

datatype item = One byte | Many byte

fun items :: "byte list \<Rightarrow> item list \<times> bool" where
  "items [] = ([], False)"
| "items [c] = (if c = 36 then ([], True) else ([One c], False))"
| "items (c # d # re) =
    (if d = 42 then (case items re of (l, e) \<Rightarrow> (Many c # l, e))
     else (case items (d # re) of (l, e) \<Rightarrow> (One c # l, e)))"

definition fits :: "byte \<Rightarrow> byte \<Rightarrow> bool" where
  "fits c x \<longleftrightarrow> c = 46 \<or> c = x"

inductive accepts :: "item list \<Rightarrow> byte list \<Rightarrow> bool" where
  nil: "accepts [] []"
| one: "fits c x \<Longrightarrow> accepts l w \<Longrightarrow> accepts (One c # l) (x # w)"
| many: "\<forall>x \<in> set u. fits c x \<Longrightarrow> accepts l w \<Longrightarrow> accepts (Many c # l) (u @ w)"

inductive_cases accepts_NilE: "accepts [] w"
inductive_cases accepts_OneE: "accepts (One c # l) w"
inductive_cases accepts_ManyE: "accepts (Many c # l) w"

text \<open>The pattern matches at the beginning of the text.\<close>

definition matches_here :: "item list \<times> bool \<Rightarrow> byte list \<Rightarrow> bool" where
  "matches_here it ys \<longleftrightarrow> (\<exists>w r. ys = w @ r \<and> accepts (fst it) w \<and> (snd it \<longrightarrow> r = []))"

lemma matches_nil: "matches_here ([], e) ys \<longleftrightarrow> (e \<longrightarrow> ys = [])"
  unfolding matches_here_def by (auto intro: nil elim: accepts_NilE)

lemma matches_one: "matches_here (One c # l, e) ys \<longleftrightarrow> ys \<noteq> [] \<and> fits c (hd ys) \<and> matches_here (l, e) (tl ys)"
proof
  assume "matches_here (One c # l, e) ys"
  then obtain v r where v: "ys = v @ r" "accepts (One c # l) v" "e \<longrightarrow> r = []" unfolding matches_here_def by auto
  then obtain x w where "v = x # w" "fits c x" "accepts l w" by (blast elim: accepts_OneE)
  then show "ys \<noteq> [] \<and> fits c (hd ys) \<and> matches_here (l, e) (tl ys)"
    unfolding matches_here_def using v by auto
next
  assume a: "ys \<noteq> [] \<and> fits c (hd ys) \<and> matches_here (l, e) (tl ys)"
  then obtain w r where w: "tl ys = w @ r" "accepts l w" "e \<longrightarrow> r = []" by (auto simp: matches_here_def)
  then have "accepts (One c # l) (hd ys # w)" using a one by blast
  moreover have "ys = (hd ys # w) @ r" using a w by (cases ys) auto
  ultimately show "matches_here (One c # l, e) ys" using w(3) by (metis fst_conv snd_conv matches_here_def)
qed

lemma matches_many:
  "matches_here (Many c # l, e) ys \<longleftrightarrow>
    matches_here (l, e) ys \<or> ys \<noteq> [] \<and> fits c (hd ys) \<and> matches_here (Many c # l, e) (tl ys)"
proof
  assume "matches_here (Many c # l, e) ys"
  then obtain v r where v: "ys = v @ r" "accepts (Many c # l) v" "e \<longrightarrow> r = []" unfolding matches_here_def by auto
  then obtain u w where "v = u @ w" "\<forall>x \<in> set u. fits c x" "accepts l w" by (blast elim: accepts_ManyE)
  then have w: "ys = u @ w @ r" "\<forall>x \<in> set u. fits c x" "accepts l w" "e \<longrightarrow> r = []" using v by auto
  show "matches_here (l, e) ys \<or> ys \<noteq> [] \<and> fits c (hd ys) \<and> matches_here (Many c # l, e) (tl ys)"
  proof (cases u)
    case Nil
    then show ?thesis using w by (auto simp: matches_here_def)
  next
    case (Cons x u')
    then have "accepts (Many c # l) (u' @ w)" using w many by auto
    then have "matches_here (Many c # l, e) (tl ys)" unfolding matches_here_def using w Cons by (intro exI [of _ "u' @ w"] exI [of _ r]) simp
    then show ?thesis using w Cons by simp
  qed
next
  assume "matches_here (l, e) ys \<or> ys \<noteq> [] \<and> fits c (hd ys) \<and> matches_here (Many c # l, e) (tl ys)"
  then show "matches_here (Many c # l, e) ys"
  proof
    assume "matches_here (l, e) ys"
    then obtain w r where w: "ys = w @ r" "accepts l w" "e \<longrightarrow> r = []" by (auto simp: matches_here_def)
    then show ?thesis using many [of "[]" c l w] by (auto simp: matches_here_def)
  next
    assume a: "ys \<noteq> [] \<and> fits c (hd ys) \<and> matches_here (Many c # l, e) (tl ys)"
    then obtain v r where v: "tl ys = v @ r" "accepts (Many c # l) v" "e \<longrightarrow> r = []" unfolding matches_here_def by auto
    then obtain u w where "v = u @ w" "\<forall>x \<in> set u. fits c x" "accepts l w" by (blast elim: accepts_ManyE)
    then have w: "tl ys = u @ w @ r" "\<forall>x \<in> set u. fits c x" "accepts l w" "e \<longrightarrow> r = []" using v by auto
    then have "accepts (Many c # l) ((hd ys # u) @ w)" using many [of "hd ys # u" c l w] a by auto
    moreover have "ys = ((hd ys # u) @ w) @ r" using a w by (cases ys) auto
    ultimately show ?thesis using w(4) by (metis fst_conv snd_conv matches_here_def)
  qed
qed

lemma matchhere_spec:
  "matchhere re ys = matches_here (items re) ys"
  "matchstar c re ys = matches_here (Many c # fst (items re), snd (items re)) ys"
proof (induction re ys and c re ys rule: matchhere_matchstar.induct)
  case (1 re ys)
  consider "re = []" | c where "re = [c]" | c d r where "re = c # d # r" by (cases re; cases "tl re") auto
  then show ?case
  proof cases
    case 1
    then show ?thesis by (simp add: matchhere.simps matches_nil)
  next
    case (2 c)
    then show ?thesis using "1.IH"(2) by (auto simp: matchhere.simps [of "[c]" ys] matchhere.simps [of "[]"] matches_nil matches_one fits_def)
  next
    case (3 c d r)
    then show ?thesis using "1.IH"
      by (cases "d = 42") (auto simp: matchhere.simps [of "c # d # r" ys] matchhere.simps [of "c # 42 # r" ys] matches_one fits_def split: prod.splits)
  qed
next
  case (2 c re ys)
  have "matchstar c re ys \<longleftrightarrow> matches_here (items re) ys \<or> ys \<noteq> [] \<and> fits c (hd ys) \<and> matches_here (Many c # fst (items re), snd (items re)) (tl ys)"
    using 2 by (auto simp: matchstar.simps [of c re ys] fits_def)
  then show ?case using matches_many [of c "fst (items re)" "snd (items re)" ys] by simp
qed

lemma match_from_spec: "match_from re ys \<longleftrightarrow> (\<exists>u v. ys = u @ v \<and> matches_here (items re) v)"
proof (induction ys)
  case (Cons c ys)
  have "(\<exists>u v. c # ys = u @ v \<and> matches_here (items re) v) \<longleftrightarrow>
      matches_here (items re) (c # ys) \<or> (\<exists>u v. ys = u @ v \<and> matches_here (items re) v)"
    by (auto simp: Cons_eq_append_conv)
  then show ?case using Cons by (simp add: matchhere_spec)
qed (simp add: matchhere_spec)

section \<open>Lines\<close>

text \<open>The complete lines of an input, and what follows the last newline.\<close>

function lines_of :: "byte list \<Rightarrow> byte list list" where
  "lines_of l = (if 10 \<in> set l then takeWhile (\<lambda>c. c \<noteq> 10) l # lines_of (tl (dropWhile (\<lambda>c. c \<noteq> 10) l)) else [])"
  by pat_completeness auto

termination
proof (relation "measure length")
  fix l :: "byte list" assume "10 \<in> set l"
  then have "l \<noteq> []" by auto
  then show "(tl (dropWhile (\<lambda>c. c \<noteq> 10) l), l) \<in> measure length"
    using length_dropWhile_le [of "\<lambda>c. c \<noteq> 10" l] by (cases l) auto
qed simp

declare lines_of.simps [simp del]

definition rest_of :: "byte list \<Rightarrow> byte list" where
  "rest_of l = rev (takeWhile (\<lambda>c. c \<noteq> 10) (rev l))"

lemma rest_of_no_nl: "10 \<notin> set l \<Longrightarrow> rest_of l = l"
  by (metis (mono_tags, lifting) rest_of_def rev_rev_ident set_rev takeWhile_eq_all_conv)

lemma rest_of_append: "rest_of (u @ 10 # v) = rest_of v"
proof -
  have "takeWhile (\<lambda>c. c \<noteq> 10) (rev v @ 10 # rev u) = takeWhile (\<lambda>c. c \<noteq> 10) (rev v)"
    by (simp add: takeWhile_tail)
  then show ?thesis by (simp add: rest_of_def)
qed

lemma find_nl_line: "10 \<notin> set u \<Longrightarrow> 0 \<notin> set u \<Longrightarrow> find_nl (u @ 10 # v) = Some (Some (length u))"
  by (induction u) auto

lemma find_nl_none: "10 \<notin> set u \<Longrightarrow> 0 \<notin> set u \<Longrightarrow> find_nl (u @ 0 # v) = Some None"
  by (induction u) auto

lemma split_line: "10 \<in> set l \<Longrightarrow> \<exists>u v. l = u @ 10 # v \<and> 10 \<notin> set u"
  by (rule split_list_first)

lemma lines_of_line: "10 \<notin> set u \<Longrightarrow> lines_of (u @ 10 # v) = u # lines_of v"
proof -
  assume u: "10 \<notin> set u"
  then have "takeWhile (\<lambda>c. c \<noteq> 10) (u @ 10 # v) = u" "dropWhile (\<lambda>c. c \<noteq> 10) (u @ 10 # v) = 10 # v"
    by (auto simp: takeWhile_append dropWhile_append)
  then show ?thesis by (subst lines_of.simps) simp
qed

lemma grep_lines_run:
  assumes "0 \<notin> set x" "length ws = length (filter (match_re pat) (lines_of x))"
  shows "\<exists>buf'. grep_lines pat (length pre) (pre @ x @ 0 # post) \<lparr>answers = ws @ as, calls = k\<rparr> =
    Ok (length (pre @ x) - length (rest_of x), buf')
      \<lparr>answers = as, calls = k @ map (\<lambda>l. U_write 1 (l @ [10])) (filter (match_re pat) (lines_of x))\<rparr> \<and>
    length buf' = length (pre @ x @ 0 # post) \<and>
    drop (length (pre @ x) - length (rest_of x)) buf' = rest_of x @ 0 # post"
  using assms
proof (induction x arbitrary: pre ws k rule: lines_of.induct)
  case (1 x)
  show ?case
  proof (cases "10 \<in> set x")
    case False
    then have "lines_of x = []" "rest_of x = x" by (simp_all add: lines_of.simps rest_of_no_nl)
    then show ?thesis using False "1.prems" find_nl_none [of x post]
      by (subst grep_lines.simps) (simp add: kret_def)
  next
    case True
    then obtain u v where x: "x = u @ 10 # v" "10 \<notin> set u" using split_line by blast
    have tl: "tl (dropWhile (\<lambda>c. c \<noteq> 10) x) = v" using x by (simp add: dropWhile_append)
    have f: "find_nl (drop (length pre) (pre @ x @ 0 # post)) = Some (Some (length u))"
      using x "1.prems"(1) find_nl_line [of u "v @ 0 # post"] by simp
    have v: "0 \<notin> set v" using "1.prems"(1) x by simp
    have r: "rest_of x = rest_of v" using x by (simp add: rest_of_append)
    have lr: "length (rest_of v) \<le> length v" unfolding rest_of_def by (simp add: length_takeWhile_le [of _ "rev v", simplified])
    have l: "lines_of x = u # lines_of v" using x by (simp add: lines_of_line)
    show ?thesis
    proof (cases "match_re pat u")
      case True
      then obtain w ws' where w: "ws = w # ws'" "length ws' = length (filter (match_re pat) (lines_of v))"
        using "1.prems"(2) l by (cases ws) auto
      have IH: "\<exists>buf'. grep_lines pat (length (pre @ u @ [10])) ((pre @ u @ [10]) @ v @ 0 # post) \<lparr>answers = ws' @ as, calls = k @ [U_write 1 (u @ [10])]\<rparr> =
          Ok (length ((pre @ u @ [10]) @ v) - length (rest_of v), buf')
            \<lparr>answers = as, calls = (k @ [U_write 1 (u @ [10])]) @ map (\<lambda>l. U_write 1 (l @ [10])) (filter (match_re pat) (lines_of v))\<rparr> \<and>
          length buf' = length ((pre @ u @ [10]) @ v @ 0 # post) \<and>
          drop (length ((pre @ u @ [10]) @ v) - length (rest_of v)) buf' = rest_of v @ 0 # post"
        using "1.IH" [unfolded tl, OF \<open>10 \<in> set x\<close> v w(2)] .
      have "grep_lines pat (length pre) (pre @ x @ 0 # post) \<lparr>answers = ws @ as, calls = k\<rparr> =
          grep_lines pat (length (pre @ u @ [10])) ((pre @ u @ [10]) @ v @ 0 # post) \<lparr>answers = ws' @ as, calls = k @ [U_write 1 (u @ [10])]\<rparr>"
        using f True w(1) x by (subst grep_lines.simps) simp
      then show ?thesis using IH l True r x by simp
    next
      case False
      then have w: "length ws = length (filter (match_re pat) (lines_of v))" using "1.prems"(2) l by simp
      have IH: "\<exists>buf'. grep_lines pat (length (pre @ u @ [0])) ((pre @ u @ [0]) @ v @ 0 # post) \<lparr>answers = ws @ as, calls = k\<rparr> =
          Ok (length ((pre @ u @ [0]) @ v) - length (rest_of v), buf')
            \<lparr>answers = as, calls = k @ map (\<lambda>l. U_write 1 (l @ [10])) (filter (match_re pat) (lines_of v))\<rparr> \<and>
          length buf' = length ((pre @ u @ [0]) @ v @ 0 # post) \<and>
          drop (length ((pre @ u @ [0]) @ v) - length (rest_of v)) buf' = rest_of v @ 0 # post"
        using "1.IH" [unfolded tl, OF \<open>10 \<in> set x\<close> v w] .
      have "grep_lines pat (length pre) (pre @ x @ 0 # post) \<lparr>answers = ws @ as, calls = k\<rparr> =
          grep_lines pat (length (pre @ u @ [0])) ((pre @ u @ [0]) @ v @ 0 # post) \<lparr>answers = ws @ as, calls = k\<rparr>"
        using f False x by (subst grep_lines.simps) (simp add: list_update_append)
      then show ?thesis using IH l False r x by simp
    qed
  qed
qed

lemma rest_of_length: "length (rest_of x) \<le> length x" "10 \<in> set x \<Longrightarrow> length (rest_of x) < length x"
proof -
  show "length (rest_of x) \<le> length x" unfolding rest_of_def using length_takeWhile_le [of _ "rev x"] by simp
  assume "10 \<in> set x"
  then obtain u v where x: "x = u @ 10 # v" using split_line by blast
  have "length (rest_of v) \<le> length v" unfolding rest_of_def using length_takeWhile_le [of _ "rev v"] by simp
  then show "length (rest_of x) < length x" using x by (simp add: rest_of_append)
qed

section \<open>Properties\<close>

text \<open>C32. The matcher of \<open>grep\<close> implements its patterns: the text contains a part that the items of the pattern accept, at
  the beginning if the pattern starts with \<open>^\<close> and at the end if it ends in \<open>$\<close>.\<close>

theorem match_accepts:
  "match_re re ys \<longleftrightarrow>
    (if re \<noteq> [] \<and> hd re = 94 then matches_here (items (tl re)) ys
     else \<exists>u v. ys = u @ v \<and> matches_here (items re) v)"
  by (simp add: match_re_def matchhere_spec match_from_spec)


lemma wit_lines: "lines_of [97, 10, 98, 10] = [[97], [98]]" "match_re [97] [97]" "\<not> match_re [97] [98]"
  by (simp_all add: lines_of.simps match_re_def matchhere.simps)



end
