(* ===== verification/Shparse.thy ===== *)
theory Shparse
  imports Strings "HOL-Library.Sublist"
begin

text \<open>
  The command parser of the shell (\<open>sh.c\<close>: \<open>gettoken\<close>, \<open>peek\<close>, the \<open>parse\<close> functions, \<open>nulterminate\<close>,
  \<open>parsecmd\<close>).

  A pointer into the line is the rest of the line from there on; the end pointer \<open>es\<close> is the empty rest,
  where the byte read is the terminating NUL.  A call of \<open>panic\<close> ends the shell process and is the value
  \<open>PErr\<close>.  The functions \<open>parseline\<close>, \<open>parsepipe\<close>, \<open>parseexec\<close> and \<open>parseblock\<close> call each other on
  rests that depend on the results of earlier calls; they take a depth that is counted down, and \<open>PDepth\<close> is
  shown not to happen with the depth that \<open>parsecmd\<close> gives.
\<close>

section \<open>Tokens\<close>

type_synonym ptr = "byte list"

definition whitespace :: "byte list" where "whitespace = [32, 9, 13, 10, 11]"
definition symbols :: "byte list" where "symbols = [60, 124, 62, 38, 59, 40, 41]"

definition deref :: "ptr \<Rightarrow> byte" where
  "deref s = (case s of [] \<Rightarrow> 0 | c # _ \<Rightarrow> c)"

definition is_ws :: "byte \<Rightarrow> bool" where "is_ws c \<longleftrightarrow> c \<in> set whitespace"
definition is_sym :: "byte \<Rightarrow> bool" where "is_sym c \<longleftrightarrow> c \<in> set symbols"
definition word_char :: "byte \<Rightarrow> bool" where "word_char c \<longleftrightarrow> \<not> is_ws c \<and> \<not> is_sym c"

definition skip_ws :: "ptr \<Rightarrow> ptr" where
  "skip_ws s = dropWhile is_ws s"

text \<open>The result, the start and the end of the token, and the rest.  A word has the result 97 (\<open>a\<close>), \<open>>>\<close> has 43.\<close>

definition gettoken :: "ptr \<Rightarrow> byte \<times> ptr \<times> ptr \<times> ptr" where
  "gettoken s =
    (let q = skip_ws s; c = deref q;
         (ret, e) =
           (if c = 0 then (0, q)
            else if c = 124 \<or> c = 40 \<or> c = 41 \<or> c = 59 \<or> c = 38 \<or> c = 60 then (c, tl q)
            else if c = 62 then (if deref (tl q) = 62 then (43, tl (tl q)) else (62, tl q))
            else (97, dropWhile word_char q))
     in (ret, q, e, skip_ws e))"

definition peek :: "ptr \<Rightarrow> byte list \<Rightarrow> ptr \<times> bool" where
  "peek s toks = (let s = skip_ws s in (s, deref s \<noteq> 0 \<and> deref s \<in> set toks))"

section \<open>Commands\<close>

type_synonym tok = "ptr \<times> ptr"

text \<open>A command over its strings, which are tokens of the line at first.  The node types are those of \<open>struct cmd\<close>.\<close>

datatype 't cmd =
    EXEC "'t list"
  | REDIR "'t cmd" 't nat nat
  | PIPE "'t cmd" "'t cmd"
  | LIST "'t cmd" "'t cmd"
  | BACK "'t cmd"

datatype 'a pres = POk 'a | PErr string | PDepth

fun pbind :: "'a pres \<Rightarrow> ('a \<Rightarrow> 'b pres) \<Rightarrow> 'b pres" where
  "pbind (POk x) f = f x"
| "pbind (PErr e) f = PErr e"
| "pbind PDepth f = PDepth"

definition MAXARGS :: nat where "MAXARGS = 10"

type_synonym 't redir = "'t \<times> nat \<times> nat"

text \<open>\<open>redircmd\<close> with the file name, open mode and descriptor of each redirection in turn.\<close>

fun add_redirs :: "'t cmd \<Rightarrow> 't redir list \<Rightarrow> 't cmd" where
  "add_redirs c [] = c"
| "add_redirs c ((t, mode, fd) # rs) = add_redirs (REDIR c t mode fd) rs"

lemma skip_ws_length: "length (skip_ws s) \<le> length s"
  by (simp add: skip_ws_def length_dropWhile_le)

lemma gettoken_length:
  assumes "gettoken s = (ret, q, e, r)"
  shows "length r \<le> length e" "length e \<le> length q" "length q \<le> length s" "ret \<noteq> 0 \<Longrightarrow> length r < length s"
proof -
  have q: "q = skip_ws s" "r = skip_ws e" using assms by (auto simp: gettoken_def Let_def split: if_splits prod.splits)
  show a: "length r \<le> length e" "length q \<le> length s" using q skip_ws_length by auto
  show b: "length e \<le> length q"
    using assms q(1) length_dropWhile_le [of word_char q]
    by (auto simp: gettoken_def Let_def split: if_splits)
  assume "ret \<noteq> 0"
  then have d: "deref q \<noteq> 0" using assms by (auto simp: gettoken_def Let_def split: if_splits)
  then obtain c t where c: "q = c # t" by (cases q) (auto simp: deref_def)
  have w: "\<not> is_ws c" using c q(1) by (metis dropWhile_eq_Cons_conv skip_ws_def)
  have "length e < length q"
  proof (cases "is_sym c")
    case True
    then show ?thesis using assms d c q(1)
      by (auto simp: gettoken_def Let_def deref_def is_sym_def symbols_def split: if_splits)
  next
    case False
    then have "word_char c" using w by (simp add: word_char_def)
    then have "length (dropWhile word_char q) < length q" using c length_dropWhile_le [of word_char t] by simp
    then show ?thesis using assms d c q(1) False
      by (auto simp: gettoken_def Let_def deref_def is_sym_def symbols_def split: if_splits)
  qed
  then show "length r < length s" using a by linarith
qed

lemma peek_length: "peek s toks = (r, b) \<Longrightarrow> length r \<le> length s"
  using skip_ws_length [of s] by (auto simp: peek_def Let_def)

text \<open>A token that \<open>peek\<close> has seen is consumed.\<close>

lemma gettoken_peek:
  assumes "peek s toks = (r, True)" "gettoken r = (ret, q, e, r')"
  shows "length r' < length r"
proof -
  have d: "deref r \<noteq> 0" "r = skip_ws s" using assms(1) by (auto simp: peek_def Let_def)
  then have "skip_ws r = r" by (simp add: skip_ws_def)
  then have "ret \<noteq> 0" using d assms(2) by (auto simp: gettoken_def Let_def split: if_splits)
  then show ?thesis using gettoken_length(4) [OF assms(2)] by simp
qed

section \<open>Parsing\<close>

function parseredirs :: "ptr \<Rightarrow> (tok redir list \<times> ptr) pres" where
  "parseredirs s =
    (case peek s [60, 62] of (s1, b) \<Rightarrow>
     if b then
       (case gettoken s1 of (tk, _, _, s2) \<Rightarrow>
        case gettoken s2 of (w, q, eq, s3) \<Rightarrow>
        if w \<noteq> 97 then PErr ''missing file for redirection''
        else
          pbind (parseredirs s3) (\<lambda>(rs, s4).
          POk ((if tk = 60 then ((q, eq), 0, 0) else ((q, eq), 0x201, 1)) # rs, s4)))
     else POk ([], s1))"
  by pat_completeness auto

termination
proof (relation "measure length")
  fix s s1 b tk r1 q1 e1 r2 s2 w r3 q eq r4 s3
  assume "(s1, b) = peek s [60, 62]" "b" and g: "(tk, r1) = gettoken s1" "(q1, r2) = r1" "(e1, s2) = r2"
    and h: "(w, r3) = gettoken s2" "(q, r4) = r3" "(eq, s3) = r4"
  then have p: "peek s [60, 62] = (s1, True)" by simp
  have g': "gettoken s1 = (tk, q1, e1, s2)" and h': "gettoken s2 = (w, q, eq, s3)" using g h by simp_all
  have "length s1 \<le> length s" using peek_length [OF p] .
  moreover have "length s2 < length s1" using gettoken_peek [OF p g'] .
  moreover have "length s3 \<le> length s2" using gettoken_length [OF h'] by linarith
  ultimately show "(s3, s) \<in> measure length" by simp
qed simp

declare parseredirs.simps [simp del]

lemma pbind_POk: "pbind m f = POk y \<longleftrightarrow> (\<exists>x. m = POk x \<and> f x = POk y)"
  by (cases m) auto

lemma parseredirs_length: "parseredirs s = POk (rs, r) \<Longrightarrow> length r \<le> length s"
proof (induction s arbitrary: rs r rule: parseredirs.induct)
  case (1 s)
  obtain s1 b where p: "peek s [60, 62] = (s1, b)" by fastforce
  have l1: "length s1 \<le> length s" using peek_length [OF p] .
  show ?case
  proof (cases b)
    case True
    obtain tk q1 e1 s2 where g: "gettoken s1 = (tk, q1, e1, s2)" by (cases "gettoken s1") auto
    obtain w q eq s3 where h: "gettoken s2 = (w, q, eq, s3)" by (cases "gettoken s2") auto
    have "w = 97" and "\<exists>rs'. parseredirs s3 = POk (rs', r)"
      using "1.prems" p True g h by (auto simp: parseredirs.simps [of s] pbind_POk split: if_splits)
    then have "length r \<le> length s3" using "1.IH" p True g h by auto
    then show ?thesis using l1 gettoken_length [OF g] gettoken_length [OF h] by linarith
  next
    case False
    then show ?thesis using "1.prems" p l1 by (simp add: parseredirs.simps [of s])
  qed
qed

text \<open>
  The argument loop of \<open>parseexec\<close>: the argument tokens, the redirections between them (which wrap the
  command while the loop still fills its \<open>argv\<close>), and the rest.
\<close>

function parseargs :: "nat \<Rightarrow> ptr \<Rightarrow> (tok list \<times> tok redir list \<times> ptr) pres" where
  "parseargs argc s =
    (case peek s [124, 41, 38, 59] of (s1, b) \<Rightarrow>
     if b then POk ([], [], s1)
     else
       (case gettoken s1 of (tk, q, eq, s2) \<Rightarrow>
        if tk = 0 then POk ([], [], s2)
        else if tk \<noteq> 97 then PErr ''syntax''
        else if argc + 1 \<ge> MAXARGS then PErr ''too many args''
        else
          (case parseredirs s2 of
             POk (rs, s3) \<Rightarrow>
               pbind (parseargs (argc + 1) s3) (\<lambda>(as, rs', s4).
               POk ((q, eq) # as, rs @ rs', s4))
           | PErr e \<Rightarrow> PErr e | PDepth \<Rightarrow> PDepth)))"
  by pat_completeness auto

termination
proof (relation "measure (length \<circ> snd)")
  fix argc s s1 b tk r1 q r2 eq s2 x rs s3
  assume "(s1, b) = peek s [124, 41, 38, 59]" "\<not> b" and g: "(tk, r1) = gettoken s1" "(q, r2) = r1" "(eq, s2) = r2"
    and t: "tk \<noteq> 0" and p: "parseredirs s2 = POk x" "(rs, s3) = x"
  then have "length s1 \<le> length s" using peek_length by metis
  moreover have "length s2 < length s1" using g t gettoken_length(4) [of s1 tk q eq s2] by simp
  moreover have "length s3 \<le> length s2" using p parseredirs_length [of s2 rs s3] by simp
  ultimately show "((argc + 1, s3), argc, s) \<in> measure (length \<circ> snd)" by simp
qed simp

declare parseargs.simps [simp del]

text \<open>The loop of \<open>parseline\<close> over \<open>&\<close>.\<close>

function parsebacks :: "tok cmd \<Rightarrow> ptr \<Rightarrow> tok cmd \<times> ptr" where
  "parsebacks c s =
    (case peek s [38] of (s1, b) \<Rightarrow>
     if b then (case gettoken s1 of (_, _, _, s2) \<Rightarrow> parsebacks (BACK c) s2)
     else (c, s1))"
  by pat_completeness auto

termination
proof (relation "measure (length \<circ> snd)")
  fix c s s1 b tk r1 q r2 e s2
  assume p: "(s1, b) = peek s [38]" "b" and g: "(tk, r1) = gettoken s1" "(q, r2) = r1" "(e, s2) = r2"
  then have "length s1 \<le> length s" using peek_length by metis
  moreover have "length s2 < length s1" using p g gettoken_peek [of s "[38]" s1 tk q e s2] by simp
  ultimately show "((BACK c, s2), c, s) \<in> measure (length \<circ> snd)" by simp
qed simp

declare parsebacks.simps [simp del]

fun parseline :: "nat \<Rightarrow> ptr \<Rightarrow> (tok cmd \<times> ptr) pres"
  and parsepipe :: "nat \<Rightarrow> ptr \<Rightarrow> (tok cmd \<times> ptr) pres"
  and parseexec :: "nat \<Rightarrow> ptr \<Rightarrow> (tok cmd \<times> ptr) pres"
  and parseblock :: "nat \<Rightarrow> ptr \<Rightarrow> (tok cmd \<times> ptr) pres" where
  "parseline 0 s = PDepth"
| "parseline (Suc n) s =
    pbind (parsepipe n s) (\<lambda>(c, s1).
    case parsebacks c s1 of (c, s2) \<Rightarrow>
    case peek s2 [59] of (s3, b) \<Rightarrow>
    if b then
      (case gettoken s3 of (_, _, _, s4) \<Rightarrow>
       pbind (parseline n s4) (\<lambda>(d, s5).
       POk (LIST c d, s5)))
    else POk (c, s3))"
| "parsepipe 0 s = PDepth"
| "parsepipe (Suc n) s =
    pbind (parseexec n s) (\<lambda>(c, s1).
    case peek s1 [124] of (s2, b) \<Rightarrow>
    if b then
      (case gettoken s2 of (_, _, _, s3) \<Rightarrow>
       pbind (parsepipe n s3) (\<lambda>(d, s4).
       POk (PIPE c d, s4)))
    else POk (c, s2))"
| "parseexec 0 s = PDepth"
| "parseexec (Suc n) s =
    (case peek s [40] of (s1, b) \<Rightarrow>
     if b then parseblock n s1
     else
       pbind (parseredirs s1) (\<lambda>(rs, s2).
       pbind (parseargs 0 s2) (\<lambda>(as, rs', s3).
       POk (add_redirs (EXEC as) (rs @ rs'), s3))))"
| "parseblock 0 s = PDepth"
| "parseblock (Suc n) s =
    (case peek s [40] of (s1, b) \<Rightarrow>
     if \<not> b then PErr ''parseblock''
     else
       (case gettoken s1 of (_, _, _, s2) \<Rightarrow>
        pbind (parseline n s2) (\<lambda>(c, s3).
        case peek s3 [41] of (s4, b) \<Rightarrow>
        if \<not> b then PErr ''syntax - missing )''
        else
          (case gettoken s4 of (_, _, _, s5) \<Rightarrow>
           pbind (parseredirs s5) (\<lambda>(rs, s6).
           POk (add_redirs c rs, s6))))))"

text \<open>
  \<open>nulterminate\<close>: the line with a NUL written at the end of each token.  The line has its own NUL at
  the end, so that every end pointer is inside it.
\<close>

definition ptr_index :: "byte list \<Rightarrow> ptr \<Rightarrow> nat" where
  "ptr_index buf p = length buf - 1 - length p"

definition put_nul :: "ptr \<Rightarrow> byte list \<Rightarrow> byte list" where
  "put_nul p buf = buf[ptr_index buf p := 0]"

fun nulterminate :: "tok cmd \<Rightarrow> byte list \<Rightarrow> byte list" where
  "nulterminate (EXEC as) buf = fold (\<lambda>(q, eq). put_nul eq) as buf"
| "nulterminate (REDIR c t m fd) buf = put_nul (snd t) (nulterminate c buf)"
| "nulterminate (PIPE c d) buf = nulterminate d (nulterminate c buf)"
| "nulterminate (LIST c d) buf = nulterminate d (nulterminate c buf)"
| "nulterminate (BACK c) buf = nulterminate c buf"

text \<open>\<open>s\<close> is the contents of the line up to its NUL; the result is the command and the line after \<open>nulterminate\<close>.\<close>

definition parsecmd :: "byte list \<Rightarrow> (tok cmd \<times> byte list) pres" where
  "parsecmd s =
    pbind (parseline (4 * length s + 4) s) (\<lambda>(c, r).
    case peek r [] of (r', _) \<Rightarrow>
    if r' \<noteq> [] then PErr ''syntax''
    else POk (c, nulterminate c (s @ [0])))"

section \<open>The parser ends\<close>

lemma parseargs_length: "parseargs k s = POk (as, rs, r) \<Longrightarrow> length r \<le> length s"
proof (induction k s arbitrary: as rs r rule: parseargs.induct)
  case (1 argc s)
  obtain s1 b where p: "peek s [124, 41, 38, 59] = (s1, b)" by fastforce
  obtain tk q eq s2 where g: "gettoken s1 = (tk, q, eq, s2)" by (cases "gettoken s1") auto
  note l = peek_length [OF p] gettoken_length(1-3) [OF g]
  show ?case
  proof (cases "b \<or> tk = 0")
    case True
    then show ?thesis using "1.prems" p g l by (auto simp: parseargs.simps [of argc s] split: if_splits)
  next
    case False
    then obtain rs1 s3 as' rs' where h: "parseredirs s2 = POk (rs1, s3)" "parseargs (argc + 1) s3 = POk (as', rs', r)" "tk = 97" "\<not> argc + 1 \<ge> MAXARGS"
      using "1.prems" p g by (auto simp: parseargs.simps [of argc s] pbind_POk split: if_splits pres.splits)
    then have "length r \<le> length s3" using "1.IH" p g False by auto
    then show ?thesis using l parseredirs_length [OF h(1)] by linarith
  qed
qed

lemma parsebacks_length: "parsebacks c s = (d, r) \<Longrightarrow> length r \<le> length s"
proof (induction c s arbitrary: d r rule: parsebacks.induct)
  case (1 c s)
  obtain s1 b where p: "peek s [38] = (s1, b)" by fastforce
  obtain tk q eq s2 where g: "gettoken s1 = (tk, q, eq, s2)" by (cases "gettoken s1") auto
  note l = peek_length [OF p] gettoken_length(1-3) [OF g]
  show ?case
  proof (cases b)
    case True
    then have "parsebacks (BACK c) s2 = (d, r)" using "1.prems" p g by (simp add: parsebacks.simps [of c s])
    then have "length r \<le> length s2" using "1.IH" p g True by auto
    then show ?thesis using l by linarith
  next
    case False
    then show ?thesis using "1.prems" p l by (simp add: parsebacks.simps [of c s])
  qed
qed

lemma pbind_PDepth: "pbind m f = PDepth \<longleftrightarrow> m = PDepth \<or> (\<exists>x. m = POk x \<and> f x = PDepth)"
  by (cases m) auto

lemma parse_length:
  "parseline n s = POk (c, r) \<Longrightarrow> length r \<le> length s"
  "parsepipe n s = POk (c, r) \<Longrightarrow> length r \<le> length s"
  "parseexec n s = POk (c, r) \<Longrightarrow> length r \<le> length s"
  "parseblock n s = POk (c, r) \<Longrightarrow> length r \<le> length s"
proof (induction n s and n s and n s and n s arbitrary: c r and c r and c r and c r rule: parseline_parsepipe_parseexec_parseblock.induct)
  case (2 n s)
  then obtain c1 s1 where a: "parsepipe n s = POk (c1, s1)" by (auto simp: pbind_POk)
  obtain c2 s2 where b: "parsebacks c1 s1 = (c2, s2)" by fastforce
  obtain s3 p where p: "peek s2 [59] = (s3, p)" by fastforce
  obtain tk q e s4 where g: "gettoken s3 = (tk, q, e, s4)" by (cases "gettoken s3") auto
  have l: "length s1 \<le> length s" "length s2 \<le> length s1" "length s3 \<le> length s2" "length s4 \<le> length s3"
    using 2(1) [OF a] parsebacks_length [OF b] peek_length [OF p] gettoken_length(1-3) [OF g] by linarith+
  show ?case
  proof (cases p)
    case True
    then obtain d where "parseline n s4 = POk (d, r)" using 2(3) a b p g by (auto simp: pbind_POk)
    then have "length r \<le> length s4" using 2(2) [OF b [symmetric] p [symmetric] True g [symmetric] refl refl] by simp
    then show ?thesis using l by linarith
  next
    case False
    then show ?thesis using 2(3) a b p l by auto
  qed
next
  case (4 n s)
  then obtain c1 s1 where a: "parseexec n s = POk (c1, s1)" by (auto simp: pbind_POk)
  obtain s3 p where p: "peek s1 [124] = (s3, p)" by fastforce
  obtain tk q e s4 where g: "gettoken s3 = (tk, q, e, s4)" by (cases "gettoken s3") auto
  have l: "length s1 \<le> length s" "length s3 \<le> length s1" "length s4 \<le> length s3"
    using 4(1) [OF a] peek_length [OF p] gettoken_length(1-3) [OF g] by linarith+
  show ?case
  proof (cases p)
    case True
    then obtain d where "parsepipe n s4 = POk (d, r)" using 4(3) a p g by (auto simp: pbind_POk)
    then have "length r \<le> length s4" using 4(2) [OF p [symmetric] True g [symmetric] refl refl] by simp
    then show ?thesis using l by linarith
  next
    case False
    then show ?thesis using 4(3) a p l by auto
  qed
next
  case (6 n s)
  obtain s1 p where p: "peek s [40] = (s1, p)" by fastforce
  show ?case
  proof (cases p)
    case True
    then show ?thesis using 6 p peek_length [OF p] by fastforce
  next
    case False
    then show ?thesis using 6(2) p peek_length [OF p] parseredirs_length parseargs_length by (fastforce simp: pbind_POk)
  qed
next
  case (8 n s)
  obtain s1 p where p: "peek s [40] = (s1, p)" by fastforce
  obtain tk q e s2 where g: "gettoken s1 = (tk, q, e, s2)" by (cases "gettoken s1") auto
  obtain c1 s3 where a: "parseline n s2 = POk (c1, s3)" using 8(2) p g by (auto simp: pbind_POk split: if_splits)
  obtain s4 p' where p': "peek s3 [41] = (s4, p')" by fastforce
  obtain tk' q' e' s5 where g': "gettoken s4 = (tk', q', e', s5)" by (cases "gettoken s4") auto
  obtain rs where d: "parseredirs s5 = POk (rs, r)" using 8(2) p g a p' g' by (auto simp: pbind_POk split: if_splits)
  have "length s3 \<le> length s2" using 8 p g a by (fastforce split: if_splits)
  then show ?case using peek_length [OF p] gettoken_length(1-3) [OF g] peek_length [OF p'] gettoken_length(1-3) [OF g'] parseredirs_length [OF d]
    by linarith
qed simp_all

lemma parseredirs_no_depth: "parseredirs s \<noteq> PDepth"
proof (induction s rule: parseredirs.induct)
  case (1 s)
  then show ?case by (subst parseredirs.simps) (auto simp: pbind_PDepth split: prod.splits)
qed

lemma parseargs_no_depth: "parseargs k s \<noteq> PDepth"
proof (induction k s rule: parseargs.induct)
  case (1 k s)
  then show ?case using parseredirs_no_depth by (subst parseargs.simps) (auto simp: pbind_PDepth split: prod.splits pres.splits)
qed

lemma parse_no_depth:
  "4 * length s + 4 \<le> n \<Longrightarrow> parseline n s \<noteq> PDepth"
  "4 * length s + 3 \<le> n \<Longrightarrow> parsepipe n s \<noteq> PDepth"
  "4 * length s + 2 \<le> n \<Longrightarrow> parseexec n s \<noteq> PDepth"
  "4 * length s + 1 \<le> n \<Longrightarrow> parseblock n s \<noteq> PDepth"
proof (induction n s and n s and n s and n s rule: parseline_parsepipe_parseexec_parseblock.induct)
  case (2 n s)
  have a: "parsepipe n s \<noteq> PDepth" using 2 by simp
  show ?case
  proof
    assume "parseline (Suc n) s = PDepth"
    then obtain c1 s1 where a1: "parsepipe n s = POk (c1, s1)" using a by (auto simp: pbind_PDepth)
    obtain c2 s2 where b: "parsebacks c1 s1 = (c2, s2)" by fastforce
    obtain s3 p where p: "peek s2 [59] = (s3, p)" by fastforce
    obtain tk q e s4 where g: "gettoken s3 = (tk, q, e, s4)" by (cases "gettoken s3") auto
    have d: "p" "parseline n s4 = PDepth" using \<open>parseline (Suc n) s = PDepth\<close> a1 b p g by (auto simp: pbind_PDepth split: if_splits)
    have "length s1 \<le> length s" "length s2 \<le> length s1" "length s3 \<le> length s2" "length s4 < length s3"
      using parse_length(2) [OF a1] parsebacks_length [OF b] peek_length [OF p] gettoken_peek [OF p [unfolded d(1) [THEN eqTrueI]] g] by simp_all
    then have "4 * length s4 + 4 \<le> n" using 2(3) by linarith
    then show False using 2(2) [OF b [symmetric] p [symmetric] d(1) g [symmetric] refl refl] d(2) by simp
  qed
next
  case (4 n s)
  have a: "parseexec n s \<noteq> PDepth" using 4 by simp
  show ?case
  proof
    assume "parsepipe (Suc n) s = PDepth"
    then obtain c1 s1 where a1: "parseexec n s = POk (c1, s1)" using a by (auto simp: pbind_PDepth)
    obtain s3 p where p: "peek s1 [124] = (s3, p)" by fastforce
    obtain tk q e s4 where g: "gettoken s3 = (tk, q, e, s4)" by (cases "gettoken s3") auto
    have d: "p" "parsepipe n s4 = PDepth" using \<open>parsepipe (Suc n) s = PDepth\<close> a1 p g by (auto simp: pbind_PDepth split: if_splits)
    have "length s1 \<le> length s" "length s3 \<le> length s1" "length s4 < length s3"
      using parse_length(3) [OF a1] peek_length [OF p] gettoken_peek [OF p [unfolded d(1) [THEN eqTrueI]] g] by simp_all
    then have "4 * length s4 + 3 \<le> n" using 4(3) by linarith
    then show False using 4(2) [OF p [symmetric] d(1) g [symmetric] refl refl] d(2) by simp
  qed
next
  case (6 n s)
  obtain s1 p where p: "peek s [40] = (s1, p)" by fastforce
  show ?case
  proof (cases p)
    case True
    then show ?thesis using 6 p peek_length [OF p] by fastforce
  next
    case False
    then show ?thesis using p parseredirs_no_depth parseargs_no_depth by (auto simp: pbind_PDepth)
  qed
next
  case (8 n s)
  obtain s1 p where p: "peek s [40] = (s1, p)" by fastforce
  obtain tk q e s2 where g: "gettoken s1 = (tk, q, e, s2)" by (cases "gettoken s1") auto
  show ?case
  proof (cases p)
    case True
    then have "length s2 < length s1" using gettoken_peek [of s "[40]" s1] p g by simp
    then have "4 * length s2 + 4 \<le> n" using 8(2) peek_length [OF p] by linarith
    then have "parseline n s2 \<noteq> PDepth" using 8(1) p g True by fastforce
    then show ?thesis using p g True parseredirs_no_depth by (auto simp: pbind_PDepth split: prod.splits)
  next
    case False
    then show ?thesis using p by simp
  qed
qed simp_all

section \<open>The strings of a parsed command\<close>

text \<open>A word of the line: word characters from \<open>q\<close> up to \<open>eq\<close>, where the word ends.\<close>

definition tok_ok :: "byte list \<Rightarrow> tok \<Rightarrow> bool" where
  "tok_ok s t \<longleftrightarrow> suffix (fst t) s \<and> snd t = dropWhile word_char (fst t) \<and> takeWhile word_char (fst t) \<noteq> []"

fun args_ok :: "'t cmd \<Rightarrow> bool" where
  "args_ok (EXEC as) = (length as < MAXARGS)"
| "args_ok (REDIR c t m fd) = args_ok c"
| "args_ok (PIPE c d) = (args_ok c \<and> args_ok d)"
| "args_ok (LIST c d) = (args_ok c \<and> args_ok d)"
| "args_ok (BACK c) = args_ok c"

lemma skip_ws_suffix: "suffix (skip_ws s) s"
  by (simp add: skip_ws_def suffix_dropWhile)

lemma gettoken_suffix:
  assumes "gettoken s = (ret, q, e, r)"
  shows "suffix q s" "suffix e q" "suffix r s" "ret = 97 \<Longrightarrow> tok_ok s (q, e)"
proof -
  have q: "q = skip_ws s" "r = skip_ws e" using assms by (auto simp: gettoken_def Let_def split: if_splits)
  show s: "suffix q s" using q skip_ws_suffix by simp
  have tl: "suffix (tl l) l" for l :: ptr by (cases l) (simp_all add: suffix_ConsI)
  show e: "suffix e q"
    using assms q(1) tl [of q] suffix_order.trans [OF tl [of "tl q"] tl [of q]]
    by (auto simp: gettoken_def Let_def suffix_dropWhile split: if_splits)
  show "suffix r s" using q(2) skip_ws_suffix s e suffix_order.trans by metis
  assume ret: "ret = 97"
  then have d: "deref q \<noteq> 0" "e = dropWhile word_char q" "\<not> is_sym (deref q)"
    using assms q(1) by (auto simp: gettoken_def Let_def is_sym_def symbols_def split: if_splits)
  then obtain c l where c: "q = c # l" by (cases q) (auto simp: deref_def)
  have "\<not> is_ws c" using c q(1) by (metis dropWhile_eq_Cons_conv skip_ws_def)
  then have "takeWhile word_char q \<noteq> []" using c d(3) by (simp add: word_char_def deref_def)
  then show "tok_ok s (q, e)" using s d(2) by (simp add: tok_ok_def)
qed

lemma peek_suffix: "peek s toks = (r, b) \<Longrightarrow> suffix r s"
  using skip_ws_suffix [of s] by (auto simp: peek_def Let_def)

lemma tok_ok_suffix: "tok_ok r t \<Longrightarrow> suffix r s \<Longrightarrow> tok_ok s t"
  using suffix_order.trans by (auto simp: tok_ok_def)

lemma parseredirs_ok: "parseredirs s = POk (rs, r) \<Longrightarrow> suffix r s \<and> (\<forall>x\<in>set rs. tok_ok s (fst x))"
proof (induction s arbitrary: rs r rule: parseredirs.induct)
  case (1 s)
  obtain s1 b where p: "peek s [60, 62] = (s1, b)" by fastforce
  obtain tk q1 e1 s2 where g: "gettoken s1 = (tk, q1, e1, s2)" by (cases "gettoken s1") auto
  obtain w q eq s3 where h: "gettoken s2 = (w, q, eq, s3)" by (cases "gettoken s2") auto
  have sf: "suffix s1 s" "suffix s2 s" "suffix s3 s"
    using peek_suffix [OF p] gettoken_suffix(3) [OF g] gettoken_suffix(3) [OF h] suffix_order.trans by blast+
  show ?case
  proof (cases b)
    case True
    then obtain rs' x where a: "w = 97" "parseredirs s3 = POk (rs', r)" "rs = x # rs'" "fst x = (q, eq)"
      using "1.prems" p g h by (auto simp: parseredirs.simps [of s] pbind_POk split: if_splits)
    have "suffix r s3 \<and> (\<forall>x\<in>set rs'. tok_ok s3 (fst x))" using "1.IH" p True g h a(1,2) by auto
    moreover have "tok_ok s (q, eq)" using gettoken_suffix(4) [OF h a(1)] tok_ok_suffix sf by blast
    ultimately show ?thesis using a(3,4) sf tok_ok_suffix suffix_order.trans by auto
  next
    case False
    then show ?thesis using "1.prems" p sf by (simp add: parseredirs.simps [of s])
  qed
qed

lemma parseargs_ok: "parseargs k s = POk (as, rs, r) \<Longrightarrow> k < MAXARGS \<Longrightarrow>
  suffix r s \<and> (\<forall>t\<in>set as. tok_ok s t) \<and> (\<forall>x\<in>set rs. tok_ok s (fst x)) \<and> k + length as < MAXARGS"
proof (induction k s arbitrary: as rs r rule: parseargs.induct)
  case (1 argc s)
  obtain s1 b where p: "peek s [124, 41, 38, 59] = (s1, b)" by fastforce
  obtain tk q eq s2 where g: "gettoken s1 = (tk, q, eq, s2)" by (cases "gettoken s1") auto
  have sf: "suffix s1 s" "suffix s2 s"
    using peek_suffix [OF p] gettoken_suffix(3) [OF g] suffix_order.trans by blast+
  show ?case
  proof (cases "b \<or> tk = 0")
    case True
    then show ?thesis using "1.prems" p g sf by (auto simp: parseargs.simps [of argc s] split: if_splits)
  next
    case False
    then obtain rs1 s3 as' rs' where h: "parseredirs s2 = POk (rs1, s3)" "parseargs (argc + 1) s3 = POk (as', rs', r)" "tk = 97"
        "argc + 1 < MAXARGS" "as = (q, eq) # as'" "rs = rs1 @ rs'"
      using "1.prems" p g by (auto simp: parseargs.simps [of argc s] pbind_POk not_le split: if_splits pres.splits)
    have a: "suffix r s3 \<and> (\<forall>t\<in>set as'. tok_ok s3 t) \<and> (\<forall>x\<in>set rs'. tok_ok s3 (fst x)) \<and> argc + 1 + length as' < MAXARGS"
      using "1.IH" p g False h by auto
    have s3: "suffix s3 s2" and r: "\<forall>x\<in>set rs1. tok_ok s2 (fst x)" using parseredirs_ok [OF h(1)] by auto
    have s3': "suffix s3 s" using s3 sf(2) suffix_order.trans by blast
    have t: "tok_ok s (q, eq)" using gettoken_suffix(4) [OF g h(3)] tok_ok_suffix sf(1) by blast
    show ?thesis using a t r s3' sf h(5,6) tok_ok_suffix suffix_order.trans [of r s3 s] by auto
  qed
qed

lemma parsebacks_ok: "parsebacks c s = (d, r) \<Longrightarrow> suffix r s \<and> set_cmd d = set_cmd c \<and> args_ok d = args_ok c"
proof (induction c s arbitrary: d r rule: parsebacks.induct)
  case (1 c s)
  obtain s1 b where p: "peek s [38] = (s1, b)" by fastforce
  obtain tk q eq s2 where g: "gettoken s1 = (tk, q, eq, s2)" by (cases "gettoken s1") auto
  have sf: "suffix s1 s" "suffix s2 s" using peek_suffix [OF p] gettoken_suffix(3) [OF g] suffix_order.trans by blast+
  show ?case
  proof (cases b)
    case True
    then have "parsebacks (BACK c) s2 = (d, r)" using "1.prems" p g by (simp add: parsebacks.simps [of c s])
    then have "suffix r s2 \<and> set_cmd d = set_cmd (BACK c) \<and> args_ok d = args_ok (BACK c)"
      using "1.IH" [OF p [symmetric] True g [symmetric] refl refl] by simp
    then show ?thesis using sf suffix_order.trans by auto
  next
    case False
    then show ?thesis using "1.prems" p sf by (simp add: parsebacks.simps [of c s])
  qed
qed

lemma set_add_redirs: "set_cmd (add_redirs c rs) = set_cmd c \<union> fst ` set rs" "args_ok (add_redirs c rs) = args_ok c"
  by (induction c rs rule: add_redirs.induct) auto

definition parse_post :: "ptr \<Rightarrow> tok cmd \<Rightarrow> ptr \<Rightarrow> bool" where
  "parse_post s c r \<longleftrightarrow> suffix r s \<and> (\<forall>t\<in>set_cmd c. tok_ok s t) \<and> args_ok c"

lemma parse_post_suffix: "parse_post s' c r \<Longrightarrow> suffix s' s \<Longrightarrow> parse_post s c r"
  using tok_ok_suffix suffix_order.trans by (auto simp: parse_post_def)

lemma parse_post_join: "parse_post s c r \<Longrightarrow> parse_post s d r' \<Longrightarrow> parse_post s (LIST c d) r' \<and> parse_post s (PIPE c d) r'"
  by (auto simp: parse_post_def)

lemma parse_ok:
  "parseline n s = POk (c, r) \<Longrightarrow> parse_post s c r"
  "parsepipe n s = POk (c, r) \<Longrightarrow> parse_post s c r"
  "parseexec n s = POk (c, r) \<Longrightarrow> parse_post s c r"
  "parseblock n s = POk (c, r) \<Longrightarrow> parse_post s c r"
proof (induction n s and n s and n s and n s arbitrary: c r and c r and c r and c r rule: parseline_parsepipe_parseexec_parseblock.induct)
  case (2 n s)
  then obtain c1 s1 where a: "parsepipe n s = POk (c1, s1)" by (auto simp: pbind_POk)
  obtain c2 s2 where b: "parsebacks c1 s1 = (c2, s2)" by fastforce
  obtain s3 p where p: "peek s2 [59] = (s3, p)" by fastforce
  obtain tk q e s4 where g: "gettoken s3 = (tk, q, e, s4)" by (cases "gettoken s3") auto
  have c1: "parse_post s c1 s1" using 2(1) [OF a] .
  have sf: "suffix s3 s" "suffix s4 s"
    using c1 parsebacks_ok [OF b] peek_suffix [OF p] gettoken_suffix(3) [OF g] suffix_order.trans unfolding parse_post_def by metis+
  have c2: "parse_post s c2 s3" using c1 parsebacks_ok [OF b] sf(1) by (simp add: parse_post_def)
  show ?case
  proof (cases p)
    case True
    then obtain d where d: "parseline n s4 = POk (d, r)" "c = LIST c2 d" using 2(3) a b p g by (auto simp: pbind_POk)
    then have "parse_post s d r"
      using 2(2) [OF b [symmetric] p [symmetric] True g [symmetric] refl refl d(1)] parse_post_suffix [OF _ sf(2)] by blast
    then show ?thesis using parse_post_join [OF c2] d(2) by blast
  next
    case False
    then show ?thesis using 2(3) a b p c2 by auto
  qed
next
  case (4 n s)
  then obtain c1 s1 where a: "parseexec n s = POk (c1, s1)" by (auto simp: pbind_POk)
  obtain s3 p where p: "peek s1 [124] = (s3, p)" by fastforce
  obtain tk q e s4 where g: "gettoken s3 = (tk, q, e, s4)" by (cases "gettoken s3") auto
  have c1: "parse_post s c1 s1" using 4(1) [OF a] .
  have sf: "suffix s3 s" "suffix s4 s"
    using c1 peek_suffix [OF p] gettoken_suffix(3) [OF g] suffix_order.trans unfolding parse_post_def by metis+
  have c2: "parse_post s c1 s3" using c1 sf(1) by (simp add: parse_post_def)
  show ?case
  proof (cases p)
    case True
    then obtain d where d: "parsepipe n s4 = POk (d, r)" "c = PIPE c1 d" using 4(3) a p g by (auto simp: pbind_POk)
    then have "parse_post s d r"
      using 4(2) [OF p [symmetric] True g [symmetric] refl refl d(1)] parse_post_suffix [OF _ sf(2)] by blast
    then show ?thesis using parse_post_join [OF c2] d(2) by blast
  next
    case False
    then show ?thesis using 4(3) a p c2 by auto
  qed
next
  case (6 n s)
  obtain s1 p where p: "peek s [40] = (s1, p)" by fastforce
  show ?case
  proof (cases p)
    case True
    then have "parseblock n s1 = POk (c, r)" using 6(2) p by simp
    then show ?thesis using 6(1) [OF p [symmetric] True] parse_post_suffix peek_suffix [OF p] by blast
  next
    case False
    then obtain rs s2 as rs' where h: "parseredirs s1 = POk (rs, s2)" "parseargs 0 s2 = POk (as, rs', r)" "c = add_redirs (EXEC as) (rs @ rs')"
      using 6(2) p by (auto simp: pbind_POk)
    have "0 < MAXARGS" by (simp add: MAXARGS_def)
    note A = parseargs_ok [OF h(2) this] parseredirs_ok [OF h(1)]
    have "suffix s2 s" using A peek_suffix [OF p] suffix_order.trans by blast
    then show ?thesis using A h(3) tok_ok_suffix peek_suffix [OF p] suffix_order.trans [of r s2 s]
      by (auto simp: parse_post_def set_add_redirs)
  qed
next
  case (8 n s)
  obtain s1 p where p: "peek s [40] = (s1, p)" by fastforce
  obtain tk q e s2 where g: "gettoken s1 = (tk, q, e, s2)" by (cases "gettoken s1") auto
  obtain c1 s3 where a: "parseline n s2 = POk (c1, s3)" and t: p using 8(2) p g by (auto simp: pbind_POk split: if_splits)
  obtain s4 p' where p': "peek s3 [41] = (s4, p')" by fastforce
  obtain tk' q' e' s5 where g': "gettoken s4 = (tk', q', e', s5)" by (cases "gettoken s4") auto
  obtain rs where d: "parseredirs s5 = POk (rs, r)" "c = add_redirs c1 rs" using 8(2) p g a p' g' by (auto simp: pbind_POk split: if_splits)
  have "parse_post s2 c1 s3" using 8(1) p g a t by (fastforce split: if_splits)
  moreover have "suffix s2 s" using peek_suffix [OF p] gettoken_suffix(3) [OF g] suffix_order.trans by blast
  ultimately have c1: "parse_post s c1 s3" by (rule parse_post_suffix)
  have s5: "suffix s5 s" using c1 peek_suffix [OF p'] gettoken_suffix(3) [OF g'] suffix_order.trans unfolding parse_post_def by metis
  then show ?case using c1 parseredirs_ok [OF d(1)] d(2) tok_ok_suffix suffix_order.trans [of r s5 s]
    by (auto simp: parse_post_def set_add_redirs)
qed simp_all

text \<open>The C string at a pointer.\<close>

definition str_at :: "byte list \<Rightarrow> tok \<Rightarrow> byte list" where
  "str_at buf t = takeWhile (\<lambda>b. b \<noteq> 0) (drop (ptr_index buf (fst t)) buf)"

definition tok_text :: "tok \<Rightarrow> byte list" where
  "tok_text t = takeWhile word_char (fst t)"

fun tok_ends :: "tok cmd \<Rightarrow> ptr list" where
  "tok_ends (EXEC as) = map snd as"
| "tok_ends (REDIR c t m fd) = tok_ends c @ [snd t]"
| "tok_ends (PIPE c d) = tok_ends c @ tok_ends d"
| "tok_ends (LIST c d) = tok_ends c @ tok_ends d"
| "tok_ends (BACK c) = tok_ends c"

lemma nulterminate_ends: "nulterminate c buf = fold put_nul (tok_ends c) buf"
proof (induction c arbitrary: buf)
  case (EXEC as)
  then show ?case by (induction as arbitrary: buf) (auto simp: case_prod_beta)
qed simp_all

lemma set_ends: "set (tok_ends c) = snd ` set_cmd c"
  by (induction c) auto

lemma fold_put_nul:
  "length (fold put_nul ps buf) = length buf"
  "k < length buf \<Longrightarrow> fold put_nul ps buf ! k = (if k \<in> ptr_index buf ` set ps then 0 else buf ! k)"
proof (induction ps arbitrary: buf)
  case (Cons p ps)
  {
    case 1
    show ?case using Cons.IH(1) by (simp add: put_nul_def)
  next
    case 2
    have i: "ptr_index (put_nul p buf) = ptr_index buf" by (simp add: ptr_index_def put_nul_def fun_eq_iff)
    show ?case using Cons.IH(2) [of "put_nul p buf"] 2 i by (auto simp: put_nul_def nth_list_update)
  }
qed simp_all

lemma nulterminate_str:
  assumes z: "0 \<notin> set s" and ok: "\<forall>t\<in>set_cmd c. tok_ok s t" and t: "t \<in> set_cmd c"
  shows "str_at (nulterminate c (s @ [0])) t = tok_text t"
proof -
  let ?b = "nulterminate c (s @ [0])" and ?w = "tok_text t" and ?e = "snd t"
  have q: "fst t = ?w @ ?e" using ok t by (auto simp: tok_ok_def tok_text_def)
  obtain pre where s: "s = pre @ ?w @ ?e" using ok t q by (auto simp: tok_ok_def suffix_def)
  have len: "length ?b = length s + 1" by (simp add: nulterminate_ends fold_put_nul)
  have at: "?b ! k = (if k \<in> (\<lambda>p. length s - length p) ` set (tok_ends c) then 0 else (s @ [0]) ! k)" if "k \<le> length s" for k
    using fold_put_nul(2) [of k "s @ [0]" "tok_ends c"] that by (simp add: nulterminate_ends ptr_index_def)
  have nw: "\<not> word_char (s ! (length s - length p)) \<or> p = []" if p: "p \<in> set (tok_ends c)" for p
  proof -
    obtain u where u: "u \<in> set_cmd c" "p = snd u" using p by (auto simp: set_ends)
    then have d: "suffix p s" "p = dropWhile word_char (fst u)"
      using ok suffix_order.trans [OF suffix_dropWhile [of word_char "fst u"]] by (auto simp: tok_ok_def)
    show ?thesis
    proof (cases p)
      case (Cons b l)
      then have "\<not> word_char b" using d(2) by (metis dropWhile_eq_Cons_conv)
      moreover obtain pre where "s = pre @ b # l" using d(1) Cons by (auto simp: suffix_def)
      ultimately show ?thesis using Cons by (auto simp: nth_append)
    qed simp
  qed
  have w: "?b ! (length pre + i) = ?w ! i \<and> ?w ! i \<noteq> 0" if i: "i < length ?w" for i
  proof -
    have c: "(s @ [0]) ! (length pre + i) = ?w ! i" using s i by (simp add: nth_append)
    have m: "?w ! i \<in> set ?w" using i by simp
    then have wc: "word_char (?w ! i)" unfolding tok_text_def using set_takeWhileD by fastforce
    have "?w ! i \<in> set s" using m s by (metis Un_iff set_append)
    then have nz: "?w ! i \<noteq> 0" using z by metis
    have k: "length pre + i < length s" using arg_cong [OF s, of length] i by simp
    have "length pre + i \<notin> (\<lambda>p. length s - length p) ` set (tok_ends c)"
    proof
      assume "length pre + i \<in> (\<lambda>p. length s - length p) ` set (tok_ends c)"
      then obtain p where p: "p \<in> set (tok_ends c)" "length pre + i = length s - length p" by blast
      have "s ! (length pre + i) = ?w ! i" using c k by (simp add: nth_append)
      then have "p = []" using nw [OF p(1)] wc p(2) by simp
      then show False using p(2) k by simp
    qed
    then show ?thesis using at [of "length pre + i"] k c nz by simp
  qed
  have e: "?b ! (length pre + length ?w) = 0"
  proof -
    have "?e \<in> set (tok_ends c)" using t by (simp add: set_ends)
    moreover have "length pre + length ?w = length s - length ?e" using arg_cong [OF s, of length] by simp
    ultimately show ?thesis using at [of "length pre + length ?w"] by auto
  qed
  have "length s = length pre + length ?w + length ?e" using arg_cong [OF s, of length] by simp
  then have lt: "length pre + length ?w < length ?b" using len by simp
  have "drop (length pre) ?b = ?w @ 0 # drop (length pre + length ?w + 1) ?b"
  proof -
    have "drop (length pre) ?b = take (length ?w) (drop (length pre) ?b) @ drop (length pre + length ?w) ?b"
      by (simp add: drop_drop [symmetric] add.commute [of "length pre"] del: drop_drop)
    moreover have "take (length ?w) (drop (length pre) ?b) = ?w"
      using w lt by (intro nth_equalityI) auto
    moreover have "drop (length pre + length ?w) ?b = 0 # drop (length pre + length ?w + 1) ?b"
      using Cons_nth_drop_Suc [OF lt] e by simp
    ultimately show ?thesis by simp
  qed
  moreover have "ptr_index ?b (fst t) = length pre"
    using len arg_cong [OF q, of length] arg_cong [OF s, of length] by (simp add: ptr_index_def)
  ultimately have "str_at ?b t = takeWhile (\<lambda>b. b \<noteq> 0) (?w @ 0 # drop (length pre + length ?w + 1) ?b)" by (simp add: str_at_def)
  also have "\<dots> = ?w"
  proof -
    have "\<forall>x\<in>set ?w. x \<noteq> 0" using w by (metis in_set_conv_nth)
    then show ?thesis by (simp add: takeWhile_append2)
  qed
  finally show ?thesis .
qed

section \<open>Printing\<close>

text \<open>
  A command line for each command.  The level says where it stands: 0 in a line, 1 before \<open>&\<close> and \<open>;\<close>, 2 after
  a bar, 3 before a bar or a redirection.
\<close>

definition paren :: "bool \<Rightarrow> byte list \<Rightarrow> byte list" where
  "paren b s = (if b then 40 # s @ [41] else s)"

fun join_words :: "byte list list \<Rightarrow> byte list" where
  "join_words [] = []"
| "join_words [w] = w"
| "join_words (w # v # ws) = w @ 32 # join_words (v # ws)"

definition show_redir :: "byte list redir \<Rightarrow> byte list" where
  "show_redir x = (case x of (f, mode, fd) \<Rightarrow> (if fd = 0 then 60 else 62) # f)"

fun show_cmd :: "nat \<Rightarrow> byte list cmd \<Rightarrow> byte list" where
  "show_cmd k (EXEC ws) = join_words ws"
| "show_cmd k (REDIR c f m fd) = show_cmd 3 c @ show_redir (f, m, fd)"
| "show_cmd k (PIPE c d) = paren (k > 2) (show_cmd 3 c @ 124 # show_cmd 2 d)"
| "show_cmd k (BACK c) = paren (k > 1) (show_cmd 1 c @ [38])"
| "show_cmd k (LIST c d) = paren (k > 0) (show_cmd 1 c @ 59 # show_cmd 0 d)"

definition is_word :: "byte list \<Rightarrow> bool" where
  "is_word w \<longleftrightarrow> w \<noteq> [] \<and> (\<forall>c\<in>set w. word_char c \<and> c \<noteq> 0)"

definition redir_ok :: "byte list redir \<Rightarrow> bool" where
  "redir_ok x \<longleftrightarrow> is_word (fst x) \<and> (snd x = (0, 0) \<or> snd x = (0x201, 1))"

fun cmd_ok :: "byte list cmd \<Rightarrow> bool" where
  "cmd_ok (EXEC ws) = ((\<forall>w\<in>set ws. is_word w) \<and> length ws < MAXARGS)"
| "cmd_ok (REDIR c f m fd) = (cmd_ok c \<and> redir_ok (f, m, fd))"
| "cmd_ok (PIPE c d) = (cmd_ok c \<and> cmd_ok d)"
| "cmd_ok (LIST c d) = (cmd_ok c \<and> cmd_ok d)"
| "cmd_ok (BACK c) = cmd_ok c"

text \<open>What may follow: the end of the line or one of the given symbols.\<close>

definition follow :: "byte list \<Rightarrow> ptr \<Rightarrow> bool" where
  "follow syms r \<longleftrightarrow> r = [] \<or> hd r \<in> set syms"

lemma sym_facts: "c \<in> set symbols \<Longrightarrow> \<not> is_ws c \<and> \<not> word_char c \<and> c \<noteq> 0"
  by (auto simp: symbols_def is_ws_def whitespace_def word_char_def is_sym_def)

lemma skip_ws_follow: "follow symbols r \<Longrightarrow> skip_ws r = r"
  using sym_facts by (cases r) (auto simp: follow_def skip_ws_def)

lemma skip_ws_word: "is_word w \<Longrightarrow> skip_ws (w @ r) = w @ r"
  by (cases w) (auto simp: is_word_def skip_ws_def word_char_def)

lemma gettoken_sym:
  assumes "c \<in> {124, 40, 41, 59, 38, 60}"
  shows "gettoken (c # r) = (c, c # r, r, skip_ws r)"
proof -
  have "skip_ws (c # r) = c # r" using assms sym_facts [of c] by (auto simp: skip_ws_def symbols_def)
  then show ?thesis using assms by (auto simp: gettoken_def Let_def deref_def)
qed

lemma gettoken_gt: "deref r \<noteq> 62 \<Longrightarrow> gettoken (62 # r) = (62, 62 # r, r, skip_ws r)"
  using sym_facts [of 62] by (auto simp: gettoken_def Let_def deref_def skip_ws_def symbols_def)

lemma gettoken_word:
  assumes "is_word w" "r = [] \<or> \<not> word_char (hd r)"
  shows "gettoken (w @ r) = (97, w @ r, r, skip_ws r)"
proof -
  obtain c l where w: "w = c # l" using assms(1) by (cases w) (auto simp: is_word_def)
  have c: "word_char c" "c \<noteq> 0" using assms(1) w by (auto simp: is_word_def)
  then have "c \<notin> set symbols" by (auto simp: word_char_def is_sym_def)
  moreover have "dropWhile word_char (w @ r) = r"
    using assms by (cases r) (auto simp: is_word_def dropWhile_append2 dropWhile_append)
  ultimately show ?thesis using skip_ws_word [OF assms(1), of r] w c by (auto simp: gettoken_def Let_def deref_def symbols_def)
qed

lemma tok_text_word: "is_word w \<Longrightarrow> r = [] \<or> \<not> word_char (hd r) \<Longrightarrow> tok_text (w @ r, r) = w"
  by (cases r) (auto simp: tok_text_def is_word_def takeWhile_append2)

lemma peek_sym: "follow symbols r \<Longrightarrow> peek r toks = (r, r \<noteq> [] \<and> hd r \<in> set toks)"
proof -
  assume f: "follow symbols r"
  have "deref r \<noteq> 0" if "r \<noteq> []" using f that sym_facts by (cases r) (auto simp: follow_def deref_def)
  then show ?thesis using skip_ws_follow [OF f] by (cases r) (auto simp: peek_def Let_def deref_def)
qed

lemma peek_word: "is_word w \<Longrightarrow> set toks \<subseteq> set symbols \<Longrightarrow> peek (w @ r) toks = (w @ r, False)"
proof -
  assume w: "is_word w" and t: "set toks \<subseteq> set symbols"
  obtain c l where "w = c # l" "word_char c" using w by (cases w) (auto simp: is_word_def)
  then show ?thesis using skip_ws_word [OF w, of r] t by (auto simp: peek_def Let_def deref_def word_char_def is_sym_def)
qed

definition map_redir :: "('a \<Rightarrow> 'b) \<Rightarrow> 'a redir \<Rightarrow> 'b redir" where
  "map_redir f x = (f (fst x), snd x)"

definition show_redirs :: "byte list redir list \<Rightarrow> byte list" where
  "show_redirs rs = concat (map show_redir rs)"

abbreviation after_exec :: "byte list" where "after_exec \<equiv> [124, 41, 38, 59]"

lemma follow_mono: "follow xs r \<Longrightarrow> set xs \<subseteq> set ys \<Longrightarrow> follow ys r"
  by (auto simp: follow_def)

lemma follow_redirs: "follow after_exec r \<Longrightarrow> follow symbols (show_redirs rs @ r)"
proof (cases rs)
  case Nil
  then show "follow after_exec r \<Longrightarrow> ?thesis" using follow_mono [of after_exec r symbols] by (simp add: show_redirs_def symbols_def)
next
  case (Cons x l)
  then show ?thesis by (auto simp: show_redirs_def show_redir_def follow_def symbols_def split: prod.split)
qed

lemma follow_nonword: "follow symbols r \<Longrightarrow> r = [] \<or> \<not> word_char (hd r)"
  using sym_facts by (auto simp: follow_def)

lemma word_deref: "is_word w \<Longrightarrow> deref (w @ r) \<notin> set symbols"
  by (cases w) (auto simp: is_word_def deref_def word_char_def is_sym_def)

lemma parseredirs_show:
  assumes "\<forall>x\<in>set rs. redir_ok x" "follow after_exec r"
  shows "\<exists>rs'. parseredirs (show_redirs rs @ r) = POk (rs', r) \<and> map (map_redir tok_text) rs' = rs"
  using assms(1)
proof (induction rs)
  case Nil
  have "peek r [60, 62] = (r, False)"
    using peek_sym [OF follow_redirs [OF assms(2), of "[]"], of "[60, 62]"] assms(2) by (auto simp: show_redirs_def follow_def)
  then show ?case by (subst parseredirs.simps) (simp add: show_redirs_def)
next
  case (Cons x rs)
  obtain f m fd where x: "x = (f, m, fd)" by (cases x) auto
  have f: "is_word f" and m: "(m, fd) = (0, 0) \<or> (m, fd) = (0x201, 1)" using Cons.prems x by (auto simp: redir_ok_def)
  let ?c = "if fd = 0 then 60 else 62 :: byte" and ?more = "show_redirs rs @ r"
  have s: "show_redirs (x # rs) @ r = ?c # f @ ?more" by (simp add: x show_redirs_def show_redir_def)
  have fl: "follow symbols (?c # f @ ?more)" using s follow_redirs [OF assms(2), of "x # rs"] by simp
  have p: "peek (?c # f @ ?more) [60, 62] = (?c # f @ ?more, True)" using peek_sym [OF fl, of "[60, 62]"] by simp
  have g: "gettoken (?c # f @ ?more) = (?c, ?c # f @ ?more, f @ ?more, f @ ?more)"
    using gettoken_sym [of 60 "f @ ?more"] gettoken_gt [of "f @ ?more"] word_deref [OF f, of ?more] skip_ws_word [OF f, of ?more]
    by (auto simp: symbols_def)
  have fm: "follow symbols ?more" by (rule follow_redirs [OF assms(2)])
  have h: "gettoken (f @ ?more) = (97, f @ ?more, ?more, ?more)"
    using gettoken_word [OF f follow_nonword [OF fm]] skip_ws_follow [OF fm] by simp
  obtain rs' where "parseredirs ?more = POk (rs', r)" "map (map_redir tok_text) rs' = rs" using Cons by auto
  then have "parseredirs (?c # f @ ?more) = POk ((if ?c = 60 then ((f @ ?more, ?more), 0, 0) else ((f @ ?more, ?more), 0x201, 1)) # rs', r)"
    using p g h by (subst parseredirs.simps) simp
  then show ?case unfolding s using m x tok_text_word [OF f follow_nonword [OF fm]] \<open>map (map_redir tok_text) rs' = rs\<close>
    by (auto simp: map_redir_def)
qed

lemma parseargs_end: "follow after_exec r \<Longrightarrow> parseargs k r = POk ([], [], r)"
proof -
  assume f: "follow after_exec r"
  have fs: "follow symbols r" using follow_redirs [OF f, of "[]"] by (simp add: show_redirs_def)
  show ?thesis
  proof (cases "r = []")
    case True
    then show ?thesis by (subst parseargs.simps) (simp add: peek_def Let_def skip_ws_def gettoken_def deref_def)
  next
    case False
    then have "peek r after_exec = (r, True)" using peek_sym [OF fs, of after_exec] f by (auto simp: follow_def)
    then show ?thesis by (subst parseargs.simps) simp
  qed
qed

lemma join_words_start: "ws \<noteq> [] \<Longrightarrow> \<exists>l. join_words ws = hd ws @ l"
  by (cases ws rule: join_words.cases) auto

lemma parseargs_show:
  assumes "\<forall>w\<in>set ws. is_word w" "\<forall>x\<in>set rs. redir_ok x" "follow after_exec r" "ws \<noteq> []" "k + length ws < MAXARGS"
  shows "\<exists>as rs'. parseargs k (join_words ws @ show_redirs rs @ r) = POk (as, rs', r) \<and>
    map tok_text as = ws \<and> map (map_redir tok_text) rs' = rs"
  using assms(1,4,5)
proof (induction ws arbitrary: k rule: join_words.induct)
  case (2 w)
  let ?more = "show_redirs rs @ r"
  have w: "is_word w" using 2 by simp
  have fm: "follow symbols ?more" by (rule follow_redirs [OF assms(3)])
  have p: "peek (w @ ?more) after_exec = (w @ ?more, False)" using w by (intro peek_word) (auto simp: symbols_def)
  have g: "gettoken (w @ ?more) = (97, w @ ?more, ?more, ?more)"
    using gettoken_word [OF w follow_nonword [OF fm]] skip_ws_follow [OF fm] by simp
  obtain rs' where r: "parseredirs ?more = POk (rs', r)" "map (map_redir tok_text) rs' = rs" using parseredirs_show [OF assms(2,3)] by auto
  have "parseargs k (w @ ?more) = POk ([(w @ ?more, ?more)], rs', r)"
    using p g r 2(3) parseargs_end [OF assms(3), of "k + 1"] by (subst parseargs.simps) simp
  then show ?case using r tok_text_word [OF w follow_nonword [OF fm]] by auto
next
  case (3 w v ws)
  let ?more = "join_words (v # ws) @ show_redirs rs @ r"
  have w: "is_word w" and v: "is_word v" using 3(2) by auto
  obtain l where l: "join_words (v # ws) = v @ l" using join_words_start [of "v # ws"] by auto
  have sp: "(32 # ?more) = [] \<or> \<not> word_char (hd (32 # ?more))" by (simp add: word_char_def is_ws_def whitespace_def)
  have sk: "skip_ws (32 # ?more) = ?more" using skip_ws_word [OF v, of "l @ show_redirs rs @ r"] l
    by (simp add: skip_ws_def is_ws_def whitespace_def)
  have p: "peek (w @ 32 # ?more) after_exec = (w @ 32 # ?more, False)" using w by (intro peek_word) (auto simp: symbols_def)
  have g: "gettoken (w @ 32 # ?more) = (97, w @ 32 # ?more, 32 # ?more, ?more)"
    using gettoken_word [OF w sp] sk by simp
  have "peek ?more [60, 62] = (?more, False)"
    using peek_word [OF v, of "[60, 62]" "l @ show_redirs rs @ r"] l by (simp add: symbols_def)
  then have r: "parseredirs ?more = POk ([], ?more)" by (subst parseredirs.simps) simp
  obtain as rs' where a: "parseargs (k + 1) ?more = POk (as, rs', r)" "map tok_text as = v # ws" "map (map_redir tok_text) rs' = rs"
    using 3(1) [of "k + 1"] 3(2,4) by auto
  have "parseargs k (w @ 32 # ?more) = POk ((w @ 32 # ?more, 32 # ?more) # as, rs', r)"
    using p g r a(1) 3(4) by (subst parseargs.simps) simp
  then show ?case using a tok_text_word [OF w sp] by auto
qed simp

text \<open>What parsing a printed command gives, at each level.\<close>

definition exec_parses :: "byte list cmd \<Rightarrow> bool" where
  "exec_parses c \<longleftrightarrow> (\<forall>rs r n. (\<forall>x\<in>set rs. redir_ok x) \<longrightarrow> follow after_exec r \<longrightarrow>
    4 * length (show_cmd 3 c @ show_redirs rs @ r) + 2 \<le> n \<longrightarrow>
    (\<exists>c'. parseexec n (show_cmd 3 c @ show_redirs rs @ r) = POk (c', r) \<and> map_cmd tok_text c' = add_redirs c rs))"

definition pipe_parses :: "byte list cmd \<Rightarrow> bool" where
  "pipe_parses c \<longleftrightarrow> (\<forall>r n. follow [41, 38, 59] r \<longrightarrow> 4 * length (show_cmd 2 c @ r) + 3 \<le> n \<longrightarrow>
    (\<exists>c'. parsepipe n (show_cmd 2 c @ r) = POk (c', r) \<and> map_cmd tok_text c' = c))"

definition backs_parse :: "byte list cmd \<Rightarrow> bool" where
  "backs_parse c \<longleftrightarrow> (\<forall>r n. follow [41, 38, 59] r \<longrightarrow> 4 * length (show_cmd 1 c @ r) + 3 \<le> n \<longrightarrow>
    (\<exists>c1 s1 c'. parsepipe n (show_cmd 1 c @ r) = POk (c1, s1) \<and> parsebacks c1 s1 = parsebacks c' r \<and> map_cmd tok_text c' = c))"

definition line_parses :: "byte list cmd \<Rightarrow> bool" where
  "line_parses c \<longleftrightarrow> (\<forall>r n. follow [41] r \<longrightarrow> 4 * length (show_cmd 0 c @ r) + 4 \<le> n \<longrightarrow>
    (\<exists>c'. parseline n (show_cmd 0 c @ r) = POk (c', r) \<and> map_cmd tok_text c' = c))"

lemma map_add_redirs: "map_cmd f (add_redirs c rs) = add_redirs (map_cmd f c) (map (map_redir f) rs)"
  by (induction c rs rule: add_redirs.induct) (auto simp: map_redir_def)

lemma follow_sym: "follow xs r \<Longrightarrow> set xs \<subseteq> set symbols \<Longrightarrow> follow symbols r"
  by (rule follow_mono)

lemma pipe_from_exec:
  assumes e: "exec_parses c" and s: "show_cmd 2 c = show_cmd 3 c"
  shows "pipe_parses c"
  unfolding pipe_parses_def
proof (intro allI impI)
  fix r n assume r: "follow [41, 38, 59] r" and n: "4 * length (show_cmd 2 c @ r) + 3 \<le> n"
  obtain m where m: "n = Suc m" using n by (cases n) auto
  have ra: "follow after_exec r" and rs: "follow symbols r" using r by (auto simp: follow_def symbols_def)
  obtain c' where c: "parseexec m (show_cmd 2 c @ r) = POk (c', r)" "map_cmd tok_text c' = c"
    using e [unfolded exec_parses_def, rule_format, of "[]" r m] ra n m s by (auto simp: show_redirs_def)
  moreover have "peek r [124] = (r, False)" using peek_sym [OF rs, of "[124]"] r by (auto simp: follow_def)
  ultimately show "\<exists>c'. parsepipe n (show_cmd 2 c @ r) = POk (c', r) \<and> map_cmd tok_text c' = c" by (simp add: m)
qed

lemma backs_from_pipe: "pipe_parses c \<Longrightarrow> show_cmd 1 c = show_cmd 2 c \<Longrightarrow> backs_parse c"
  unfolding pipe_parses_def backs_parse_def by fastforce

lemma parsebacks_end: "follow [41, 59] r \<Longrightarrow> parsebacks c r = (c, r)"
proof -
  assume r: "follow [41, 59] r"
  then have "peek r [38] = (r, False)" using peek_sym [of r "[38]"] by (auto simp: follow_def symbols_def)
  then show ?thesis by (subst parsebacks.simps) simp
qed

lemma line_from_backs:
  assumes b: "backs_parse c" and s: "show_cmd 0 c = show_cmd 1 c"
  shows "line_parses c"
  unfolding line_parses_def
proof (intro allI impI)
  fix r n assume r: "follow [41] r" and n: "4 * length (show_cmd 0 c @ r) + 4 \<le> n"
  obtain m where m: "n = Suc m" using n by (cases n) auto
  have rb: "follow [41, 38, 59] r" "follow [41, 59] r" "follow symbols r" using r by (auto simp: follow_def symbols_def)
  obtain c1 s1 c' where c: "parsepipe m (show_cmd 0 c @ r) = POk (c1, s1)" "parsebacks c1 s1 = (c', r)" "map_cmd tok_text c' = c"
    using b [unfolded backs_parse_def, rule_format, of r m] rb n m s parsebacks_end [OF rb(2)] by auto
  moreover have "peek r [59] = (r, False)" using peek_sym [OF rb(3), of "[59]"] r by (auto simp: follow_def)
  ultimately show "\<exists>c'. parseline n (show_cmd 0 c @ r) = POk (c', r) \<and> map_cmd tok_text c' = c" by (simp add: m)
qed

lemma cmd_start: "cmd_ok c \<Longrightarrow> skip_ws (show_cmd k c @ r) = show_cmd k c @ r" if "follow symbols r" for r
  using that
proof (induction c arbitrary: k r)
  case (EXEC ws)
  then show ?case
  proof (cases "ws = []")
    case False
    then obtain l where "join_words ws = hd ws @ l" using join_words_start by blast
    then show ?thesis using EXEC False skip_ws_word [of "hd ws" "l @ r"] by simp
  qed (simp add: skip_ws_follow)
next
  case (REDIR c f m fd)
  have "follow symbols (show_redir (f, m, fd) @ r)" by (simp add: show_redir_def follow_def symbols_def)
  then show ?case using REDIR by simp
next
  case (PIPE c d)
  have "follow symbols (124 # l)" "skip_ws (40 # l) = 40 # l" for l by (simp_all add: follow_def symbols_def skip_ws_def is_ws_def whitespace_def)
  then show ?case using PIPE by (simp add: paren_def)
next
  case (LIST c d)
  have "follow symbols (59 # l)" "skip_ws (40 # l) = 40 # l" for l by (simp_all add: follow_def symbols_def skip_ws_def is_ws_def whitespace_def)
  then show ?case using LIST by (simp add: paren_def)
next
  case (BACK c)
  have "follow symbols (38 # l)" "skip_ws (40 # l) = 40 # l" for l by (simp_all add: follow_def symbols_def skip_ws_def is_ws_def whitespace_def)
  then show ?case using BACK by (simp add: paren_def)
qed

lemma exec_from_line:
  assumes l: "line_parses c" and ok: "cmd_ok c" and s: "show_cmd 3 c = 40 # show_cmd 0 c @ [41]"
  shows "exec_parses c"
  unfolding exec_parses_def
proof (intro allI impI)
  fix rs r n
  assume rs: "\<forall>x\<in>set rs. redir_ok x" and r: "follow after_exec r" and n: "4 * length (show_cmd 3 c @ show_redirs rs @ r) + 2 \<le> n"
  let ?more = "show_redirs rs @ r"
  let ?in = "show_cmd 0 c @ 41 # ?more"
  obtain m where m: "n = Suc (Suc m)" using n by (cases n; cases "n - 1") auto
  have e: "show_cmd 3 c @ ?more = 40 # ?in" using s by simp
  have f: "follow symbols (40 # ?in)" "follow symbols (41 # ?more)" by (simp_all add: follow_def symbols_def)
  have p: "peek (40 # ?in) [40] = (40 # ?in, True)" using peek_sym [OF f(1), of "[40]"] by simp
  have g: "gettoken (40 # ?in) = (40, 40 # ?in, ?in, ?in)"
    using gettoken_sym [of 40 ?in] cmd_start [OF f(2) ok, of 0] by simp
  have "4 * length ?in + 4 \<le> m" using n m s by simp
  then obtain c' where c: "parseline m ?in = POk (c', 41 # ?more)" "map_cmd tok_text c' = c"
    using l [unfolded line_parses_def, rule_format, of "41 # ?more" m] by (auto simp: follow_def)
  have p': "peek (41 # ?more) [41] = (41 # ?more, True)" using peek_sym [OF f(2), of "[41]"] by simp
  have g': "gettoken (41 # ?more) = (41, 41 # ?more, ?more, ?more)"
    using gettoken_sym [of 41 ?more] skip_ws_follow [OF follow_redirs [OF r]] by simp
  obtain rs' where q: "parseredirs ?more = POk (rs', r)" "map (map_redir tok_text) rs' = rs" using parseredirs_show [OF rs r] by auto
  have "parseexec n (40 # ?in) = POk (add_redirs c' rs', r)" using m p g c p' g' q by simp
  then show "\<exists>c'. parseexec n (show_cmd 3 c @ ?more) = POk (c', r) \<and> map_cmd tok_text c' = add_redirs c rs"
    using c(2) q(2) map_add_redirs [of tok_text c' rs'] e by auto
qed

lemma exec_parses_EXEC: "cmd_ok (EXEC ws) \<Longrightarrow> exec_parses (EXEC ws)"
  unfolding exec_parses_def
proof (intro allI impI)
  fix rs r n
  assume ok: "cmd_ok (EXEC ws)" and rs: "\<forall>x\<in>set rs. redir_ok x" and r: "follow after_exec r"
    and n: "4 * length (show_cmd 3 (EXEC ws) @ show_redirs rs @ r) + 2 \<le> n"
  let ?more = "show_redirs rs @ r"
  obtain m where m: "n = Suc m" using n by (cases n) auto
  have fm: "follow symbols ?more" by (rule follow_redirs [OF r])
  show "\<exists>c'. parseexec n (show_cmd 3 (EXEC ws) @ ?more) = POk (c', r) \<and> map_cmd tok_text c' = add_redirs (EXEC ws) rs"
  proof (cases "ws = []")
    case True
    have h: "hd ?more \<noteq> 40" if "?more \<noteq> []"
      using that r by (cases rs) (auto simp: show_redirs_def show_redir_def follow_def split: prod.splits)
    have p: "peek ?more [40] = (?more, False)" using peek_sym [OF fm, of "[40]"] h by auto
    obtain rs' where q: "parseredirs ?more = POk (rs', r)" "map (map_redir tok_text) rs' = rs" using parseredirs_show [OF rs r] by auto
    have "parseexec n ?more = POk (add_redirs (EXEC []) rs', r)" using m p q parseargs_end [OF r, of 0] by simp
    then show ?thesis using True q(2) map_add_redirs [of tok_text "EXEC []" rs'] by simp
  next
    case False
    then obtain l where l: "join_words ws = hd ws @ l" using join_words_start by blast
    have w: "is_word (hd ws)" using ok False by simp
    have p: "peek (join_words ws @ ?more) toks = (join_words ws @ ?more, False)" if "set toks \<subseteq> set symbols" for toks
      using peek_word [OF w that, of "l @ ?more"] l by simp
    have q: "parseredirs (join_words ws @ ?more) = POk ([], join_words ws @ ?more)"
      using p [of "[60, 62]"] by (subst parseredirs.simps) (simp add: symbols_def)
    obtain as rs' where a: "parseargs 0 (join_words ws @ ?more) = POk (as, rs', r)" "map tok_text as = ws" "map (map_redir tok_text) rs' = rs"
      using parseargs_show [OF _ rs r False, of 0] ok by auto
    have "parseexec n (join_words ws @ ?more) = POk (add_redirs (EXEC as) rs', r)" using m p [of "[40]"] q a(1) by (simp add: symbols_def)
    then show ?thesis using a map_add_redirs [of tok_text "EXEC as" rs'] by simp
  qed
qed

lemma exec_parses_REDIR:
  assumes "exec_parses c" "redir_ok (f, m, fd)"
  shows "exec_parses (REDIR c f m fd)"
  unfolding exec_parses_def
proof (intro allI impI)
  fix rs r n
  assume rs: "\<forall>x\<in>set rs. redir_ok x" and r: "follow after_exec r" and n: "4 * length (show_cmd 3 (REDIR c f m fd) @ show_redirs rs @ r) + 2 \<le> n"
  have e: "show_cmd 3 (REDIR c f m fd) @ show_redirs rs @ r = show_cmd 3 c @ show_redirs ((f, m, fd) # rs) @ r"
    by (simp add: show_redirs_def)
  show "\<exists>c'. parseexec n (show_cmd 3 (REDIR c f m fd) @ show_redirs rs @ r) = POk (c', r) \<and> map_cmd tok_text c' = add_redirs (REDIR c f m fd) rs"
    using assms(1) [unfolded exec_parses_def, rule_format, of "(f, m, fd) # rs" r n] rs r n assms(2) unfolding e by auto
qed

lemma pipe_parses_PIPE:
  assumes c: "exec_parses c" and d: "pipe_parses d" "cmd_ok d"
  shows "pipe_parses (PIPE c d)"
  unfolding pipe_parses_def
proof (intro allI impI)
  fix r n assume r: "follow [41, 38, 59] r" and n: "4 * length (show_cmd 2 (PIPE c d) @ r) + 3 \<le> n"
  let ?in = "show_cmd 2 d @ r"
  obtain m where m: "n = Suc m" using n by (cases n) auto
  have rs: "follow symbols r" using r by (auto simp: follow_def symbols_def)
  have f: "follow symbols (124 # ?in)" "follow after_exec (124 # ?in)" by (simp_all add: follow_def symbols_def)
  have s: "show_cmd 2 (PIPE c d) @ r = show_cmd 3 c @ 124 # ?in" by (simp add: paren_def)
  obtain c' where c': "parseexec m (show_cmd 3 c @ 124 # ?in) = POk (c', 124 # ?in)" "map_cmd tok_text c' = c"
    using c [unfolded exec_parses_def, rule_format, of "[]" "124 # ?in" m] f n m s by (auto simp: show_redirs_def)
  have p: "peek (124 # ?in) [124] = (124 # ?in, True)" using peek_sym [OF f(1), of "[124]"] by simp
  have g: "gettoken (124 # ?in) = (124, 124 # ?in, ?in, ?in)" using gettoken_sym [of 124 ?in] cmd_start [OF rs d(2), of 2] by simp
  obtain d' where d': "parsepipe m ?in = POk (d', r)" "map_cmd tok_text d' = d"
    using d(1) [unfolded pipe_parses_def, rule_format, of r m] r n m s by auto
  show "\<exists>c'. parsepipe n (show_cmd 2 (PIPE c d) @ r) = POk (c', r) \<and> map_cmd tok_text c' = PIPE c d"
    unfolding s using m c' p g d' by simp
qed

lemma backs_parse_BACK:
  assumes c: "backs_parse c" "cmd_ok c"
  shows "backs_parse (BACK c)"
  unfolding backs_parse_def
proof (intro allI impI)
  fix r n assume r: "follow [41, 38, 59] r" and n: "4 * length (show_cmd 1 (BACK c) @ r) + 3 \<le> n"
  have s: "show_cmd 1 (BACK c) @ r = show_cmd 1 c @ 38 # r" by (simp add: paren_def)
  obtain c1 s1 c' where a: "parsepipe n (show_cmd 1 c @ 38 # r) = POk (c1, s1)" "parsebacks c1 s1 = parsebacks c' (38 # r)" "map_cmd tok_text c' = c"
    using c(1) [unfolded backs_parse_def, rule_format, of "38 # r" n] n s by (auto simp: follow_def)
  have f: "follow symbols (38 # r)" "follow symbols r" using r by (auto simp: follow_def symbols_def)
  have "peek (38 # r) [38] = (38 # r, True)" using peek_sym [OF f(1), of "[38]"] by simp
  moreover have "gettoken (38 # r) = (38, 38 # r, r, r)" using gettoken_sym [of 38 r] skip_ws_follow [OF f(2)] by simp
  ultimately have "parsebacks c' (38 # r) = parsebacks (BACK c') r" by (subst parsebacks.simps) simp
  then show "\<exists>c1 s1 c'. parsepipe n (show_cmd 1 (BACK c) @ r) = POk (c1, s1) \<and> parsebacks c1 s1 = parsebacks c' r \<and> map_cmd tok_text c' = BACK c"
    unfolding s using a by (intro exI [of _ c1] exI [of _ s1] exI [of _ "BACK c'"]) simp
qed

lemma line_parses_LIST:
  assumes c: "backs_parse c" and d: "line_parses d" "cmd_ok d"
  shows "line_parses (LIST c d)"
  unfolding line_parses_def
proof (intro allI impI)
  fix r n assume r: "follow [41] r" and n: "4 * length (show_cmd 0 (LIST c d) @ r) + 4 \<le> n"
  let ?in = "show_cmd 0 d @ r"
  obtain m where m: "n = Suc m" using n by (cases n) auto
  have rs: "follow symbols r" using r by (auto simp: follow_def symbols_def)
  have f: "follow symbols (59 # ?in)" "follow [41, 38, 59] (59 # ?in)" "follow [41, 59] (59 # ?in)" by (simp_all add: follow_def symbols_def)
  have s: "show_cmd 0 (LIST c d) @ r = show_cmd 1 c @ 59 # ?in" by (simp add: paren_def)
  obtain c1 s1 c' where c': "parsepipe m (show_cmd 1 c @ 59 # ?in) = POk (c1, s1)" "parsebacks c1 s1 = (c', 59 # ?in)" "map_cmd tok_text c' = c"
    using c [unfolded backs_parse_def, rule_format, of "59 # ?in" m] f(2) n m s parsebacks_end [OF f(3)] by auto
  have p: "peek (59 # ?in) [59] = (59 # ?in, True)" using peek_sym [OF f(1), of "[59]"] by simp
  have g: "gettoken (59 # ?in) = (59, 59 # ?in, ?in, ?in)" using gettoken_sym [of 59 ?in] cmd_start [OF rs d(2), of 0] by simp
  obtain d' where d': "parseline m ?in = POk (d', r)" "map_cmd tok_text d' = d"
    using d(1) [unfolded line_parses_def, rule_format, of r m] r n m s by auto
  show "\<exists>c'. parseline n (show_cmd 0 (LIST c d) @ r) = POk (c', r) \<and> map_cmd tok_text c' = LIST c d"
    unfolding s using m c' p g d' by simp
qed

lemma show_parses: "cmd_ok c \<Longrightarrow> exec_parses c \<and> pipe_parses c \<and> backs_parse c \<and> line_parses c"
proof (induction c)
  case (EXEC ws)
  then have e: "exec_parses (EXEC ws)" by (rule exec_parses_EXEC)
  then show ?case using pipe_from_exec [OF e] backs_from_pipe line_from_backs by simp
next
  case (REDIR c f m fd)
  then have e: "exec_parses (REDIR c f m fd)" using exec_parses_REDIR by simp
  then show ?case using pipe_from_exec [OF e] backs_from_pipe line_from_backs by simp
next
  case (PIPE c d)
  then have p: "pipe_parses (PIPE c d)" using pipe_parses_PIPE by simp
  have b: "backs_parse (PIPE c d)" using backs_from_pipe [OF p] by (simp add: paren_def)
  have l: "line_parses (PIPE c d)" using line_from_backs [OF b] by (simp add: paren_def)
  show ?case using p b l exec_from_line [OF l PIPE.prems] by (simp add: paren_def)
next
  case (LIST c d)
  then have l: "line_parses (LIST c d)" using line_parses_LIST by simp
  have e: "exec_parses (LIST c d)" using exec_from_line [OF l LIST.prems] by (simp add: paren_def)
  have p: "pipe_parses (LIST c d)" using pipe_from_exec [OF e] by (simp add: paren_def)
  show ?case using l e p backs_from_pipe [OF p] by (simp add: paren_def)
next
  case (BACK c)
  then have b: "backs_parse (BACK c)" using backs_parse_BACK by simp
  have l: "line_parses (BACK c)" using line_from_backs [OF b] by (simp add: paren_def)
  have e: "exec_parses (BACK c)" using exec_from_line [OF l BACK.prems] by (simp add: paren_def)
  show ?case using b l e pipe_from_exec [OF e] by (simp add: paren_def)
qed

lemma join_words_no_nul: "\<forall>w\<in>set ws. is_word w \<Longrightarrow> 0 \<notin> set (join_words ws)"
  by (induction ws rule: join_words.induct) (auto simp: is_word_def)

lemma show_no_nul: "cmd_ok c \<Longrightarrow> 0 \<notin> set (show_cmd k c)"
  by (induction c arbitrary: k) (auto simp: join_words_no_nul paren_def show_redir_def redir_ok_def is_word_def)

declare parseline.simps [simp del] parsepipe.simps [simp del] parseexec.simps [simp del] parseblock.simps [simp del]

section \<open>Properties\<close>

text \<open>C28. Parsing any line ends, and the command it gives is usable: each command has fewer than \<open>MAXARGS\<close>
  arguments, so that the null pointer after them is inside \<open>argv\<close>, and each argument and file name, read as a C
  string after \<open>nulterminate\<close>, is the word that was scanned there.\<close>

theorem parsecmd_strings:
  assumes "0 \<notin> set s"
  shows "parsecmd s \<noteq> PDepth \<and> (\<forall>c buf. parsecmd s = POk (c, buf) \<longrightarrow>
    args_ok c \<and> length buf = length s + 1 \<and> (\<forall>t\<in>set_cmd c. suffix (fst t) s \<and> is_word (tok_text t) \<and> str_at buf t = tok_text t))"
proof (intro conjI allI impI)
  show "parsecmd s \<noteq> PDepth"
  proof (cases "parseline (4 * length s + 4) s")
    case (POk x)
    then show ?thesis unfolding parsecmd_def POk by (simp split: prod.split)
  next
    case PErr
    then show ?thesis unfolding parsecmd_def PErr by simp
  next
    case PDepth
    then show ?thesis using parse_no_depth(1) [OF order_refl, of s] by blast
  qed
  fix c buf assume "parsecmd s = POk (c, buf)"
  then obtain x where x: "parseline (4 * length s + 4) s = POk x"
      "(case x of (c, r) \<Rightarrow> case peek r [] of (r', _) \<Rightarrow> if r' \<noteq> [] then PErr ''syntax'' else POk (c, nulterminate c (s @ [0]))) = POk (c, buf)"
    unfolding parsecmd_def pbind_POk by blast
  then obtain r where r: "parseline (4 * length s + 4) s = POk (c, r)" and b: "buf = nulterminate c (s @ [0])"
    by (cases x) (simp split: prod.splits if_splits)
  have ok: "\<forall>t\<in>set_cmd c. tok_ok s t" and a: "args_ok c" using parse_ok(1) [OF r] by (auto simp: parse_post_def)
  show "args_ok c" by (rule a)
  show "length buf = length s + 1" by (simp add: b nulterminate_ends fold_put_nul)
  show "\<forall>t\<in>set_cmd c. suffix (fst t) s \<and> is_word (tok_text t) \<and> str_at buf t = tok_text t"
  proof
    fix t assume t: "t \<in> set_cmd c"
    have sf: "suffix (fst t) s" and ne: "tok_text t \<noteq> []" using ok t by (auto simp: tok_ok_def tok_text_def)
    have "set (tok_text t) \<subseteq> set s"
      using sf set_takeWhileD [of _ word_char "fst t"] by (auto simp: tok_text_def suffix_def)
    then have "is_word (tok_text t)"
      using ne assms set_takeWhileD [of _ word_char "fst t"] by (auto simp: is_word_def tok_text_def)
    then show "suffix (fst t) s \<and> is_word (tok_text t) \<and> str_at buf t = tok_text t"
      using sf nulterminate_str [OF assms ok t] b by simp
  qed
qed

text \<open>C27. The parser reads every command: for each command with proper words, arguments and redirections, nested in
  any way, parsing a line that writes it down (with parentheses where the precedence asks for them) gives the
  command back.\<close>

theorem parse_print_roundtrip:
  assumes "cmd_ok c"
  shows "\<exists>c' buf. parsecmd (show_cmd 0 c) = POk (c', buf) \<and> map_cmd (str_at buf) c' = c"
proof -
  let ?s = "show_cmd 0 c"
  obtain c' where c: "parseline (4 * length ?s + 4) ?s = POk (c', [])" "map_cmd tok_text c' = c"
    using show_parses [OF assms, THEN conjunct2, THEN conjunct2, THEN conjunct2, unfolded line_parses_def, rule_format, of "[]" "4 * length ?s + 4"]
    by (auto simp: follow_def)
  have p: "peek [] [] = ([], False)" by (simp add: peek_def Let_def skip_ws_def deref_def)
  let ?b = "nulterminate c' (?s @ [0])"
  have "parsecmd ?s = POk (c', ?b)" using c(1) p by (simp add: parsecmd_def)
  moreover have "map_cmd (str_at ?b) c' = map_cmd tok_text c'"
    using nulterminate_str [OF show_no_nul [OF assms]] parse_ok(1) [OF c(1)] by (intro cmd.map_cong0) (auto simp: parse_post_def)
  ultimately show ?thesis using c(2) by auto
qed

text \<open>The command \<open>a b|(c;d&)>e\<close>.\<close>

definition wit_cmd :: "byte list cmd" where
  "wit_cmd = PIPE (EXEC [[97], [98]]) (REDIR (LIST (EXEC [[99]]) (BACK (EXEC [[100]]))) [101] 0x201 1)"

lemma wit_cmd_ok: "cmd_ok wit_cmd" "show_cmd 0 wit_cmd = [97, 32, 98, 124, 40, 99, 59, 100, 38, 41, 62, 101]"
  by code_simp+

theorem parse_print_roundtrip_witness:
  "\<exists>c' buf. parsecmd [97, 32, 98, 124, 40, 99, 59, 100, 38, 41, 62, 101] = POk (c', buf) \<and> map_cmd (str_at buf) c' = wit_cmd"
  using parse_print_roundtrip [OF wit_cmd_ok(1)] unfolding wit_cmd_ok(2) .

lemma wit_parse:
  "parsecmd [108, 115, 62, 102] =
    POk (REDIR (EXEC [([108, 115, 62, 102], [62, 102])]) ([102], []) 0x201 1, [108, 115, 0, 102, 0])"
  by code_simp

theorem parsecmd_strings_witness:
  "\<exists>c buf. parsecmd [108, 115, 62, 102] = POk (c, buf) \<and> args_ok c \<and> length buf = 5 \<and>
    str_at buf ([108, 115, 62, 102], [62, 102]) = [108, 115] \<and> str_at buf ([102], []) = [102]"
  using parsecmd_strings [of "[108, 115, 62, 102]"] by (auto simp: wit_parse tok_text_def word_char_def is_ws_def is_sym_def whitespace_def symbols_def)

end
