(* ===== verification/Shfix.thy ===== *)
theory Shfix
  imports Strings "HOL-Library.Multiset"
begin

text \<open>
  The suggestion of commands in the shell (\<open>sh.c\<close>: \<open>threeintmin\<close>, \<open>stringdistance\<close>, \<open>fixcmd\<close>) and its \<open>itoa\<close>.

  The distance table is a function of two indices that starts with the contents of the allocated memory;
  strings are lists of bytes.  The commands of the current directory (\<open>getcmdlist\<close>) are an argument.
\<close>

section \<open>Edit distance\<close>

definition threeintmin :: "int \<Rightarrow> int \<Rightarrow> int \<Rightarrow> int" where
  "threeintmin x1 x2 x3 =
    (if x1 \<le> x2 \<and> x1 \<le> x3 then x1
     else if x2 \<le> x1 \<and> x2 \<le> x3 then x2
     else x3)"

type_synonym table = "nat \<Rightarrow> nat \<Rightarrow> int"

definition put_cell :: "table \<Rightarrow> nat \<Rightarrow> nat \<Rightarrow> int \<Rightarrow> table" where
  "put_cell dp i j v = dp(i := (dp i)(j := v))"

fun first_column :: "nat list \<Rightarrow> table \<Rightarrow> table" where
  "first_column [] dp = dp"
| "first_column (i # is) dp = first_column is (put_cell dp i 0 (int i))"

fun first_row :: "nat list \<Rightarrow> table \<Rightarrow> table" where
  "first_row [] dp = dp"
| "first_row (i # is) dp = first_row is (put_cell dp 0 i (int i))"

fun dist_inner :: "byte list \<Rightarrow> byte list \<Rightarrow> nat \<Rightarrow> nat list \<Rightarrow> table \<Rightarrow> table" where
  "dist_inner s1 s2 i [] dp = dp"
| "dist_inner s1 s2 i (j # js) dp =
    dist_inner s1 s2 i js
      (put_cell dp i j
        (if s1 ! (i - 1) = s2 ! (j - 1) then dp (i - 1) (j - 1)
         else threeintmin (dp i (j - 1)) (dp (i - 1) j) (dp (i - 1) (j - 1)) + 1))"

fun dist_outer :: "byte list \<Rightarrow> byte list \<Rightarrow> nat list \<Rightarrow> table \<Rightarrow> table" where
  "dist_outer s1 s2 [] dp = dp"
| "dist_outer s1 s2 (i # is) dp = dist_outer s1 s2 is (dist_inner s1 s2 i [1..<length s2 + 1] dp)"

definition stringdistance :: "table \<Rightarrow> byte list \<Rightarrow> byte list \<Rightarrow> int" where
  "stringdistance junk s1 s2 =
    (let dp = first_column [0..<length s1 + 1] junk;
         dp = first_row [0..<length s2 + 1] dp;
         dp = put_cell dp 0 0 0;
         dp = dist_outer s1 s2 [1..<length s1 + 1] dp
     in dp (length s1) (length s2))"

section \<open>Suggestions\<close>

definition swap_at :: "nat \<Rightarrow> 'a list \<Rightarrow> 'a list" where
  "swap_at j l = l[j := l ! (j + 1), j + 1 := l ! j]"

fun rank_inner :: "nat list \<Rightarrow> int list \<Rightarrow> nat list \<Rightarrow> int list \<times> nat list" where
  "rank_inner [] dis flag = (dis, flag)"
| "rank_inner (j # js) dis flag =
    (if dis ! j > dis ! (j + 1) then rank_inner js (swap_at j dis) (swap_at j flag)
     else rank_inner js dis flag)"

fun rank_outer :: "nat list \<Rightarrow> int list \<Rightarrow> nat list \<Rightarrow> int list \<times> nat list" where
  "rank_outer [] dis flag = (dis, flag)"
| "rank_outer (i # is) dis flag =
    (case rank_inner [0..<length dis - 1 - i] dis flag of (dis, flag) \<Rightarrow> rank_outer is dis flag)"

text \<open>The printed names, up to the first one that is too far off.\<close>

fun suggest :: "byte list \<Rightarrow> byte list list \<Rightarrow> (int \<times> nat) list \<Rightarrow> byte list list" where
  "suggest errorcmd cmds [] = []"
| "suggest errorcmd cmds ((d, f) # r) =
    (if d \<ge> int (length errorcmd) \<or> d \<ge> int (length (cmds ! f)) + 1 then []
     else cmds ! f # suggest errorcmd cmds r)"

text \<open>
  The commands \<open>fixcmd\<close> prints, and whether the closing line is printed.  Argument \<open>junk\<close> is what the memory
  allocated by each call of \<open>stringdistance\<close> holds.
\<close>

definition fixcmd :: "(nat \<Rightarrow> table) \<Rightarrow> byte list list \<Rightarrow> byte list \<Rightarrow> byte list list \<times> bool" where
  "fixcmd junk cmds errorcmd =
    (let n = length cmds;
         flag = [0..<n];
         dis = map (\<lambda>i. stringdistance (junk i) errorcmd (cmds ! i)) flag;
         (dis, flag) = rank_outer [0..<n - 1] dis flag;
         out = suggest errorcmd cmds (zip dis flag)
     in (out, out \<noteq> []))"

text \<open>
  \<open>itoa\<close>: the digits are stored lowest first and then reversed in place.  Division and remainder of C
  round towards zero.
\<close>

definition trunc_div :: "int \<Rightarrow> int \<Rightarrow> int" where
  "trunc_div a b = (if a < 0 then - ((- a) div b) else a div b)"

definition trunc_rem :: "int \<Rightarrow> int \<Rightarrow> int" where
  "trunc_rem a b = (if a < 0 then - ((- a) mod b) else a mod b)"

function itoa_digits :: "int \<Rightarrow> byte list" where
  "itoa_digits n = (if n \<noteq> 0 then of_int (trunc_rem n 10 + 48) # itoa_digits (trunc_div n 10) else [])"
  by pat_completeness auto

termination
  by (relation "measure (\<lambda>n. nat \<bar>n\<bar>)") (auto simp: trunc_div_def)

declare itoa_digits.simps [simp del]

fun itoa_reverse :: "nat list \<Rightarrow> byte list \<Rightarrow> byte list" where
  "itoa_reverse [] s = s"
| "itoa_reverse (i # is) s = itoa_reverse is (s[i := s ! (length s - 1 - i), length s - 1 - i := s ! i])"

definition itoa :: "int \<Rightarrow> byte list" where
  "itoa n = (let s = itoa_digits n in itoa_reverse [0..<length s div 2] s)"

section \<open>The distance is the least number of edits\<close>

text \<open>Edit scripts: keep, replace, delete or insert a character, with the number of changes.\<close>

inductive edits :: "'a list \<Rightarrow> 'a list \<Rightarrow> nat \<Rightarrow> bool" where
  done_: "edits [] [] 0"
| keep: "edits xs ys n \<Longrightarrow> edits (x # xs) (x # ys) n"
| replace: "edits xs ys n \<Longrightarrow> edits (x # xs) (y # ys) (Suc n)"
| delete: "edits xs ys n \<Longrightarrow> edits (x # xs) ys (Suc n)"
| insert_: "edits xs ys n \<Longrightarrow> edits xs (y # ys) (Suc n)"

fun lev :: "'a list \<Rightarrow> 'a list \<Rightarrow> nat" where
  "lev [] ys = length ys"
| "lev (x # xs) [] = Suc (length xs)"
| "lev (x # xs) (y # ys) =
    (if x = y then lev xs ys else Suc (min (min (lev (x # xs) ys) (lev xs (y # ys))) (lev xs ys)))"

lemma edits_snoc:
  assumes "edits xs ys n"
  shows "edits (xs @ [x]) (ys @ [x]) n" "edits (xs @ [x]) (ys @ [y]) (Suc n)" "edits (xs @ [x]) ys (Suc n)" "edits xs (ys @ [y]) (Suc n)"
  using assms by (induction rule: edits.induct) (auto intro: edits.intros)

lemma edits_rev: "edits xs ys n \<Longrightarrow> edits (rev xs) (rev ys) n"
  by (induction rule: edits.induct) (auto intro: edits_snoc edits.intros)

lemma edits_rev_iff: "edits (rev xs) (rev ys) n \<longleftrightarrow> edits xs ys n"
  using edits_rev [of xs ys n] edits_rev [of "rev xs" "rev ys" n] by auto

lemma lev_Nil [simp]: "lev xs [] = length xs"
  by (cases xs) auto

lemma lev_step:
  "lev xs ys \<le> Suc (lev (x # xs) ys) \<and> lev (x # xs) ys \<le> Suc (lev xs ys) \<and>
   lev xs ys \<le> Suc (lev xs (y # ys)) \<and> lev xs (y # ys) \<le> Suc (lev xs ys)"
proof (induction "length xs + length ys" arbitrary: xs ys x y rule: less_induct)
  case less
  have A: "lev xs ys \<le> Suc (lev (x # xs) ys) \<and> lev (x # xs) ys \<le> Suc (lev xs ys)"
  proof (cases ys)
    case (Cons b l)
    have "lev xs l \<le> Suc (lev (x # xs) l)" "lev xs (b # l) \<le> Suc (lev xs l)" "lev xs l \<le> Suc (lev xs (b # l))"
      using less [of xs l x b] Cons by auto
    then show ?thesis using Cons by (auto simp: min_def)
  qed simp
  have B: "lev xs ys \<le> Suc (lev xs (y # ys)) \<and> lev xs (y # ys) \<le> Suc (lev xs ys)"
  proof (cases xs)
    case (Cons a l)
    have "lev l ys \<le> Suc (lev l (y # ys))" "lev (a # l) ys \<le> Suc (lev l ys)" "lev l ys \<le> Suc (lev (a # l) ys)"
      using less [of l ys a y] Cons by auto
    then show ?thesis using Cons by (auto simp: min_def)
  qed simp
  show ?case using A B by blast
qed

lemma lev_le: "edits xs ys n \<Longrightarrow> lev xs ys \<le> n"
proof (induction rule: edits.induct)
  case (delete xs ys n x)
  then show ?case using lev_step [of xs ys x undefined] by linarith
next
  case (insert_ xs ys n y)
  then show ?case using lev_step [of xs ys undefined y] by linarith
qed auto

lemma edits_deletes: "edits xs [] (length xs)" "edits [] ys (length ys)"
proof -
  show "edits xs [] (length xs)" by (induction xs) (auto intro: edits.intros)
  show "edits [] ys (length ys)" by (induction ys) (auto intro: edits.intros)
qed

lemma edits_lev: "edits xs ys (lev xs ys)"
proof (induction xs ys rule: lev.induct)
  case (1 ys)
  then show ?case using edits_deletes(2) by simp
next
  case (2 x xs)
  then show ?case using edits_deletes(1) [of "x # xs"] by simp
next
  case (3 x xs y ys)
  then show ?case by (auto simp: min_def intro: edits.intros)
qed


text \<open>The entry of the table for the first \<open>i\<close> and \<open>j\<close> characters.\<close>

definition entry :: "byte list \<Rightarrow> byte list \<Rightarrow> nat \<Rightarrow> nat \<Rightarrow> int" where
  "entry s1 s2 i j = int (lev (rev (take i s1)) (rev (take j s2)))"

lemma rev_take_Suc: "i < length s \<Longrightarrow> rev (take (Suc i) s) = s ! i # rev (take i s)"
  by (simp add: take_Suc_conv_app_nth)

lemma entry_0: "j \<le> length s2 \<Longrightarrow> entry s1 s2 0 j = int j" "i \<le> length s1 \<Longrightarrow> entry s1 s2 i 0 = int i"
  by (simp_all add: entry_def)

lemma threeintmin_min: "threeintmin a b c = min (min a b) c"
  by (auto simp: threeintmin_def)

lemma entry_Suc: "i < length s1 \<Longrightarrow> j < length s2 \<Longrightarrow> entry s1 s2 (Suc i) (Suc j) =
    (if s1 ! i = s2 ! j then entry s1 s2 i j
     else threeintmin (entry s1 s2 (Suc i) j) (entry s1 s2 i (Suc j)) (entry s1 s2 i j) + 1)"
  by (simp add: entry_def rev_take_Suc threeintmin_min of_nat_min)

lemma put_cell_at: "put_cell dp i j v a b = (if a = i \<and> b = j then v else dp a b)"
  by (simp add: put_cell_def)

lemma first_column_at: "first_column is dp a b = (if a \<in> set is \<and> b = 0 then int a else dp a b)"
  by (induction "is" arbitrary: dp) (auto simp: put_cell_at)

lemma first_row_at: "first_row is dp a b = (if a = 0 \<and> b \<in> set is then int b else dp a b)"
  by (induction "is" arbitrary: dp) (auto simp: put_cell_at)

lemma dist_inner_other: "a \<noteq> i \<Longrightarrow> dist_inner s1 s2 i js dp a b = dp a b"
  by (induction js arbitrary: dp) (auto simp: put_cell_at)

lemma dist_inner_keep: "b \<notin> set js \<Longrightarrow> dist_inner s1 s2 i js dp i b = dp i b"
  by (induction js arbitrary: dp) (auto simp: put_cell_at)

lemma dist_inner_row:
  assumes i: "i < length s1" and prev: "\<forall>b\<le>length s2. dp i b = entry s1 s2 i b"
    and first: "\<forall>b<k. dp (Suc i) b = entry s1 s2 (Suc i) b" and k: "0 < k" "k \<le> length s2 + 1"
  shows "\<forall>b\<le>length s2. dist_inner s1 s2 (Suc i) [k..<length s2 + 1] dp (Suc i) b = entry s1 s2 (Suc i) b"
  using prev first k
proof (induction "length s2 + 1 - k" arbitrary: k dp)
  case (Suc d)
  then have k: "k < length s2 + 1" by linarith
  then obtain j where j: "k = Suc j" "j < length s2" using Suc.prems(3) by (cases k) auto
  let ?dp = "put_cell dp (Suc i) k (entry s1 s2 (Suc i) k)"
  have e: "(if s1 ! (Suc i - 1) = s2 ! (k - 1) then dp (Suc i - 1) (k - 1)
      else threeintmin (dp (Suc i) (k - 1)) (dp (Suc i - 1) k) (dp (Suc i - 1) (k - 1)) + 1) = entry s1 s2 (Suc i) k"
    using entry_Suc [OF i j(2)] Suc.prems(1,2) j by auto
  have "[k..<length s2 + 1] = k # [Suc k..<length s2 + 1]" using k by (simp add: upt_conv_Cons)
  moreover have "\<forall>b\<le>length s2. dist_inner s1 s2 (Suc i) [Suc k..<length s2 + 1] ?dp (Suc i) b = entry s1 s2 (Suc i) b"
    using Suc.hyps(2) Suc.prems k by (intro Suc.hyps(1)) (auto simp: put_cell_at less_Suc_eq)
  ultimately show ?case using e by simp
qed auto

lemma dist_outer_table:
  assumes "\<forall>a<k. \<forall>b\<le>length s2. dp a b = entry s1 s2 a b" "\<forall>a\<le>length s1. dp a 0 = entry s1 s2 a 0" "0 < k" "k \<le> length s1 + 1"
  shows "\<forall>a\<le>length s1. \<forall>b\<le>length s2. dist_outer s1 s2 [k..<length s1 + 1] dp a b = entry s1 s2 a b"
  using assms
proof (induction "length s1 + 1 - k" arbitrary: k dp)
  case (Suc d)
  then have k: "k < length s1 + 1" by linarith
  then obtain i where i: "k = Suc i" "i < length s1" using Suc.prems(3) by (cases k) auto
  let ?dp = "dist_inner s1 s2 k [1..<length s2 + 1] dp"
  have row: "\<forall>b\<le>length s2. ?dp k b = entry s1 s2 k b"
    using dist_inner_row [OF i(2), of s2 dp 1] Suc.prems(1,2) i k by auto
  have old: "?dp a b = dp a b" if "a \<noteq> k" for a b using that by (rule dist_inner_other)
  have "[k..<length s1 + 1] = k # [Suc k..<length s1 + 1]" using k by (simp add: upt_conv_Cons)
  moreover have "\<forall>a\<le>length s1. \<forall>b\<le>length s2. dist_outer s1 s2 [Suc k..<length s1 + 1] ?dp a b = entry s1 s2 a b"
  proof (rule Suc.hyps(1))
    show "\<forall>a<Suc k. \<forall>b\<le>length s2. ?dp a b = entry s1 s2 a b" using row old Suc.prems(1) by (auto simp: less_Suc_eq)
    show "\<forall>a\<le>length s1. ?dp a 0 = entry s1 s2 a 0" using row old Suc.prems(2) by (metis le0)
  qed (use Suc.hyps(2) k in auto)
  ultimately show ?case by simp
qed auto

lemma stringdistance_lev: "stringdistance junk s1 s2 = int (lev (rev s1) (rev s2))"
proof -
  let ?dp = "put_cell (first_row [0..<length s2 + 1] (first_column [0..<length s1 + 1] junk)) 0 0 0"
  have r: "?dp 0 b = entry s1 s2 0 b" if "b \<le> length s2" for b
    using that by (auto simp: put_cell_at first_row_at first_column_at entry_0)
  have c: "?dp a 0 = entry s1 s2 a 0" if "a \<le> length s1" for a
    using that by (auto simp: put_cell_at first_row_at first_column_at entry_0)
  have "\<forall>a\<le>length s1. \<forall>b\<le>length s2. dist_outer s1 s2 [1..<length s1 + 1] ?dp a b = entry s1 s2 a b"
    using r c by (intro dist_outer_table) auto
  then show ?thesis by (simp add: stringdistance_def Let_def entry_def)
qed

section \<open>The ranking is a stable sort\<close>

definition swapped :: "nat \<Rightarrow> (int \<times> 'b) list \<Rightarrow> (int \<times> 'b) list" where
  "swapped j l = (if fst (l ! j) > fst (l ! (j + 1)) then swap_at j l else l)"

lemma swap_split: "j + 1 < length l \<Longrightarrow> \<exists>p q. l = p @ [l ! j, l ! (j + 1)] @ q \<and> swap_at j l = p @ [l ! (j + 1), l ! j] @ q \<and> length p = j"
proof -
  assume j: "j + 1 < length l"
  let ?p = "take j l" and ?q = "drop (j + 2) l"
  have l: "l = ?p @ [l ! j, l ! (j + 1)] @ ?q"
    using j by (metis Cons_nth_drop_Suc Suc_eq_plus1 add_2_eq_Suc' add_lessD1 append_Cons append_Nil append_take_drop_id)
  have "swap_at j l = ?p @ [l ! (j + 1), l ! j] @ ?q"
    using j by (intro nth_equalityI) (auto simp: swap_at_def nth_append nth_list_update less_Suc_eq nth_Cons split: nat.split,
      intro arg_cong [of _ _ "(!) l"], linarith)
  then show ?thesis using l j by (intro exI [of _ ?p] exI [of _ ?q]) simp
qed

lemma swapped_keeps:
  assumes "j + 1 < length l"
  shows "length (swapped j l) = length l" "mset (swapped j l) = mset l"
    "filter (\<lambda>x. fst x = k) (swapped j l) = filter (\<lambda>x. fst x = k) l" "\<And>i. i \<noteq> j \<Longrightarrow> i \<noteq> j + 1 \<Longrightarrow> swapped j l ! i = l ! i"
    "fst (swapped j l ! j) \<le> fst (swapped j l ! (j + 1))"
    "\<forall>i<j. swapped j l ! i = l ! i" "fst (l ! j) \<le> fst (swapped j l ! (j + 1))"
proof -
  obtain p q where s: "l = p @ [l ! j, l ! (j + 1)] @ q" "swap_at j l = p @ [l ! (j + 1), l ! j] @ q" "length p = j"
    using swap_split [OF assms] by blast
  show "length (swapped j l) = length l" by (simp add: swapped_def swap_at_def)
  show "mset (swapped j l) = mset l" using arg_cong [OF s(1), of mset] by (simp add: swapped_def s(2))
  show "filter (\<lambda>x. fst x = k) (swapped j l) = filter (\<lambda>x. fst x = k) l"
    using arg_cong [OF s(1), of "filter (\<lambda>x. fst x = k)"] by (auto simp: swapped_def s(2))
  show "\<And>i. i \<noteq> j \<Longrightarrow> i \<noteq> j + 1 \<Longrightarrow> swapped j l ! i = l ! i" by (simp add: swapped_def swap_at_def)
  show "fst (swapped j l ! j) \<le> fst (swapped j l ! (j + 1))" "\<forall>i<j. swapped j l ! i = l ! i" "fst (l ! j) \<le> fst (swapped j l ! (j + 1))"
    using assms by (auto simp: swapped_def swap_at_def)
qed

definition pass :: "nat \<Rightarrow> (int \<times> 'b) list \<Rightarrow> (int \<times> 'b) list" where
  "pass k l = fold swapped [0..<k] l"

lemma pass_keeps:
  assumes "k < length l"
  shows "length (pass k l) = length l \<and> mset (pass k l) = mset l \<and> filter (\<lambda>x. fst x = v) (pass k l) = filter (\<lambda>x. fst x = v) l \<and>
    (\<forall>i\<le>k. fst (pass k l ! i) \<le> fst (pass k l ! k)) \<and> (\<forall>i>k. pass k l ! i = l ! i)"
  using assms
proof (induction k)
  case (Suc k)
  let ?m = "pass k l"
  have e: "pass (Suc k) l = swapped k ?m" by (simp add: pass_def)
  have IH: "length ?m = length l" "mset ?m = mset l" "filter (\<lambda>x. fst x = v) ?m = filter (\<lambda>x. fst x = v) l"
    "\<forall>i\<le>k. fst (?m ! i) \<le> fst (?m ! k)" "\<forall>i>k. ?m ! i = l ! i"
    using Suc by auto
  have j: "k + 1 < length ?m" using Suc.prems IH(1) by simp
  note S = swapped_keeps [OF j]
  have "fst (swapped k ?m ! i) \<le> fst (swapped k ?m ! (k + 1))" if ik: "i \<le> Suc k" for i
  proof -
    consider "i = Suc k" | "i = k" | "i < k" using ik by linarith
    then show ?thesis
    proof cases
      case 3
      then have "fst (swapped k ?m ! i) \<le> fst (?m ! k)" using IH(4) S(6) by simp
      then show ?thesis using S(7) by linarith
    qed (use S(5) in simp_all)
  qed
  then show ?case unfolding e using IH S(1-4) by simp
qed (simp add: pass_def)

lemma zip_swap_at: "length d = length f \<Longrightarrow> j + 1 < length d \<Longrightarrow> zip (swap_at j d) (swap_at j f) = swap_at j (zip d f)"
  by (intro nth_equalityI) (auto simp: swap_at_def nth_list_update)

lemma rank_inner_zip:
  "length dis = length flag \<Longrightarrow> \<forall>j\<in>set js. j + 1 < length dis \<Longrightarrow> rank_inner js dis flag = (d, f) \<Longrightarrow>
    zip d f = fold swapped js (zip dis flag) \<and> length d = length dis \<and> length f = length dis"
proof (induction js dis flag rule: rank_inner.induct)
  case (2 j js dis flag)
  have l: "length (swap_at j dis) = length dis" "length (swap_at j flag) = length flag" by (simp_all add: swap_at_def)
  have z: "swapped j (zip dis flag) = (if dis ! j > dis ! (j + 1) then zip (swap_at j dis) (swap_at j flag) else zip dis flag)"
    using 2(3,4) zip_swap_at [of dis flag j] by (simp add: swapped_def)
  show ?case using 2 l z by (auto split: if_splits)
qed simp

text \<open>After some passes the last elements are in place.\<close>

definition in_place :: "nat \<Rightarrow> (int \<times> 'b) list \<Rightarrow> bool" where
  "in_place m l \<longleftrightarrow> (\<forall>p q. p \<le> q \<longrightarrow> m \<le> q \<longrightarrow> q < length l \<longrightarrow> fst (l ! p) \<le> fst (l ! q))"

lemma pass_in_place:
  assumes "in_place (Suc k) l" "k < length l"
  shows "in_place k (pass k l)"
  unfolding in_place_def
proof (intro allI impI)
  fix p q assume pq: "p \<le> q" "k \<le> q" "q < length (pass k l)"
  note P = pass_keeps [OF assms(2)]
  show "fst (pass k l ! p) \<le> fst (pass k l ! q)"
  proof (cases "q = k")
    case True
    then show ?thesis using P pq by auto
  next
    case False
    then have q: "pass k l ! q = l ! q" "q < length l" "Suc k \<le> q" using P pq by auto
    show ?thesis
    proof (cases "p \<le> k")
      case False
      then have "pass k l ! p = l ! p" using P by auto
      then show ?thesis using assms(1) q pq(1) by (auto simp: in_place_def)
    next
      case True
      have "drop (Suc k) (pass k l) = drop (Suc k) l"
        using P by (intro nth_equalityI) auto
      moreover have "mset (take (Suc k) (pass k l)) + mset (drop (Suc k) (pass k l)) = mset (take (Suc k) l) + mset (drop (Suc k) l)"
        using P by (metis append_take_drop_id mset_append)
      ultimately have "mset (take (Suc k) (pass k l)) = mset (take (Suc k) l)" by simp
      then have s: "set (take (Suc k) (pass k l)) = set (take (Suc k) l)" by (metis set_mset_mset)
      have "pass k l ! p \<in> set (take (Suc k) (pass k l))" using True P assms(2) by (auto simp: in_set_conv_nth intro!: exI [of _ p])
      then obtain i where "i < Suc k" "pass k l ! p = l ! i" using s assms(2) by (auto simp: in_set_conv_nth)
      then show ?thesis using assms(1) q by (auto simp: in_place_def)
    qed
  qed
qed

lemma rank_outer_sorts:
  assumes "length dis = n" "length flag = n" "in_place (n - i) (zip dis flag)" "i \<le> n - 1" "rank_outer [i..<n - 1] dis flag = (d, f)"
  shows "length d = n \<and> length f = n \<and> mset (zip d f) = mset (zip dis flag) \<and>
    filter (\<lambda>x. fst x = v) (zip d f) = filter (\<lambda>x. fst x = v) (zip dis flag) \<and> in_place 1 (zip d f)"
  using assms
proof (induction "n - 1 - i" arbitrary: i dis flag)
  case 0
  then have "[i..<n - 1] = []" "n - i \<le> 1" by auto
  then show ?case using 0 by (auto simp: in_place_def)
next
  case (Suc m)
  then have i: "i < n - 1" by linarith
  obtain d1 f1 where r: "rank_inner [0..<length dis - 1 - i] dis flag = (d1, f1)" by fastforce
  have k: "n - 1 - i < length (zip dis flag)" using Suc.prems i by simp
  have js: "\<forall>j\<in>set [0..<length dis - 1 - i]. j + 1 < length dis" using Suc.prems(1) i by auto
  have z: "zip d1 f1 = pass (n - 1 - i) (zip dis flag)" "length d1 = n" "length f1 = n"
    using rank_inner_zip [OF _ js r] Suc.prems i by (auto simp: pass_def)
  note P = pass_keeps [OF k, of v]
  have "Suc (n - 1 - i) = n - i" using i by linarith
  then have ip: "in_place (n - Suc i) (zip d1 f1)" using pass_in_place [OF _ k] Suc.prems(3) z(1) i by simp
  have "[i..<n - 1] = i # [Suc i..<n - 1]" using i by (simp add: upt_conv_Cons)
  then have e: "rank_outer [Suc i..<n - 1] d1 f1 = (d, f)" using Suc.prems(5) r by simp
  have "length d = n \<and> length f = n \<and> mset (zip d f) = mset (zip d1 f1) \<and>
    filter (\<lambda>x. fst x = v) (zip d f) = filter (\<lambda>x. fst x = v) (zip d1 f1) \<and> in_place 1 (zip d f)"
    using Suc.hyps(2) i z ip e by (intro Suc.hyps(1)) auto
  then show ?case using P z by auto
qed

lemma in_place_sorted: "in_place 1 l \<Longrightarrow> sorted (map fst l)"
  unfolding sorted_iff_nth_mono
proof (intro allI impI)
  fix i j assume h: "in_place 1 l" and ij: "i \<le> j" "j < length (map fst l)"
  have "i = j \<or> 1 \<le> j" using ij(1) by linarith
  then have "fst (l ! i) \<le> fst (l ! j)" using h [unfolded in_place_def, rule_format, of i j] ij by auto
  then show "map fst l ! i \<le> map fst l ! j" using ij by simp
qed

lemma rank_outer_sort_key:
  assumes "length dis = length flag" "rank_outer [0..<length dis - 1] dis flag = (d, f)"
  shows "zip d f = sort_key fst (zip dis flag)"
proof -
  have ip: "in_place (length dis - 0) (zip dis flag)" using assms(1) by (simp add: in_place_def)
  note R = rank_outer_sorts [OF refl assms(1) [symmetric] ip le0 assms(2)]
  have "sort_key fst (zip dis flag) = zip d f"
  proof (rule properties_for_sort_key)
    show "mset (zip d f) = mset (zip dis flag)" using R by blast
    show "sorted (map fst (zip d f))" using R by (intro in_place_sorted) blast
    fix k assume "k \<in> set (zip d f)"
    have e: "(\<lambda>x. fst k = fst x) = (\<lambda>x. fst x = fst k)" by auto
    show "filter (\<lambda>x. fst k = fst x) (zip d f) = filter (\<lambda>x. fst k = fst x) (zip dis flag)"
      unfolding e using R [of "fst k"] by blast
  qed
  then show ?thesis by (rule sym)
qed

lemma suggest_takeWhile:
  "suggest e cmds l = map (\<lambda>x. cmds ! snd x) (takeWhile (\<lambda>x. fst x < int (length e) \<and> fst x \<le> int (length (cmds ! snd x))) l)"
  by (induction e cmds l rule: suggest.induct) auto

section \<open>Numbers\<close>

lemma itoa_reverse_nth:
  assumes "k \<le> length s div 2"
  shows "length (itoa_reverse [k..<length s div 2] s) = length s \<and> (\<forall>i<length s. itoa_reverse [k..<length s div 2] s ! i =
    (if k \<le> i \<and> i < length s - k then s ! (length s - 1 - i) else s ! i))"
  using assms
proof (induction "length s div 2 - k" arbitrary: k s)
  case 0
  then have k: "k = length s div 2" by linarith
  have "length s - 1 - i = i" if "k \<le> i" "i < length s - k" for i using that k by linarith
  then show ?case using k by auto
next
  case (Suc d)
  then have k: "k < length s div 2" by linarith
  let ?t = "s[k := s ! (length s - 1 - k), length s - 1 - k := s ! k]"
  have e: "[k..<length s div 2] = k # [Suc k..<length s div 2]" using k by (simp add: upt_conv_Cons)
  have IH: "length (itoa_reverse [Suc k..<length s div 2] ?t) = length s \<and> (\<forall>i<length s. itoa_reverse [Suc k..<length s div 2] ?t ! i =
    (if Suc k \<le> i \<and> i < length s - Suc k then ?t ! (length s - 1 - i) else ?t ! i))"
    using Suc.hyps(1) [of ?t "Suc k"] Suc.hyps(2) k by simp
  have "itoa_reverse [k..<length s div 2] s ! i = (if k \<le> i \<and> i < length s - k then s ! (length s - 1 - i) else s ! i)" if i: "i < length s" for i
  proof -
    have n: "length s - 1 - k < length s" "k < length s" "length s - 1 - k \<noteq> k" using k by linarith+
    consider "i = k" | "i = length s - 1 - k" | "Suc k \<le> i \<and> i < length s - Suc k" | "i < k \<or> length s - k \<le> i" using i by linarith
    then show ?thesis
    proof cases
      case 3
      then have "k \<noteq> length s - 1 - i" "length s - 1 - k \<noteq> length s - 1 - i" and c: "k \<le> i \<and> i < length s - k" by linarith+
      then have "?t ! (length s - 1 - i) = s ! (length s - 1 - i)" by (metis nth_list_update_neq)
      moreover have "itoa_reverse [k..<length s div 2] s ! i = ?t ! (length s - 1 - i)" using IH i 3 e by simp
      ultimately show ?thesis using c by simp
    qed (use IH i e n k in \<open>auto simp: nth_list_update\<close>)
  qed
  then show ?case using IH e by simp
qed

lemma itoa_rev: "itoa n = rev (itoa_digits n)"
  using itoa_reverse_nth [of 0 "itoa_digits n"] by (intro nth_equalityI) (auto simp: itoa_def Let_def rev_nth)

lemma itoa_digits_dec:
  assumes "0 < n"
  shows "rev (itoa_digits (int n)) = dec n"
  using assms
proof (induction n rule: dec.induct)
  case (1 n)
  have d: "of_int (trunc_rem (int n) 10 + 48) = digit (n mod 10)"
    unfolding trunc_rem_def digit_def using of_int_of_nat_eq [of "n mod 10", where 'a = byte] by (simp add: zmod_int)
  have q: "trunc_div (int n) 10 = int (n div 10)" by (simp add: trunc_div_def zdiv_int)
  have "itoa_digits (int n) = digit (n mod 10) # itoa_digits (int (n div 10))"
    using 1(2) by (subst itoa_digits.simps) (simp add: d [simplified] q)
  moreover have "itoa_digits 0 = []" by (subst itoa_digits.simps) simp
  ultimately show ?case using 1 by (subst dec.simps) auto
qed

lemma map_insort_pair: "map (\<lambda>i. (d i, i)) (insort_key d x l) = insort_key fst (d x, x) (map (\<lambda>i. (d i, i)) l)"
  by (induction l) auto

lemma sort_key_pair: "sort_key fst (map (\<lambda>i. (d i, i)) l) = map (\<lambda>i. (d i, i)) (sort_key d l)"
  by (induction l) (auto simp: map_insort_pair)

section \<open>Properties\<close>

text \<open>C39. \<open>stringdistance\<close> computes the edit distance: there is an edit script with that many changes from one
  string to the other and none with fewer, whatever the allocated table held before.\<close>

theorem stringdistance_minimal:
  "edits s1 s2 (nat (stringdistance junk s1 s2)) \<and> 0 \<le> stringdistance junk s1 s2 \<and>
   (\<forall>n. edits s1 s2 n \<longrightarrow> stringdistance junk s1 s2 \<le> int n)"
  using edits_lev [of "rev s1" "rev s2"] lev_le [of "rev s1" "rev s2"] by (simp add: stringdistance_lev edits_rev_iff)

theorem stringdistance_minimal_witness:
  "edits [108, 115 :: byte] [108, 97, 115] 1 \<and> stringdistance (\<lambda>i j. 0) [108, 115] [108, 97, 115] \<le> 1"
proof -
  have e: "edits [108, 115 :: byte] [108, 97, 115] 1" 
    using keep [OF insert_ [OF keep [OF done_]]] by simp
  then show ?thesis using stringdistance_minimal [of "[108, 115]" "[108, 97, 115]" "\<lambda>i j. 0"] by fastforce
qed

text \<open>C40. \<open>fixcmd\<close> suggests the commands in the order of their distance from the mistyped name, commands with
  the same distance in the order of the directory, and stops at the first whose distance is too large; the closing
  line is printed just when there is a suggestion.\<close>

theorem fixcmd_suggests:
  fixes junk cmds e
  defines "d \<equiv> \<lambda>i. stringdistance (junk i) e (cmds ! i)"
  shows "fixcmd junk cmds e =
    (let out = map ((!) cmds)
        (takeWhile (\<lambda>i. d i < int (length e) \<and> d i \<le> int (length (cmds ! i))) (sort_key d [0..<length cmds]))
     in (out, out \<noteq> []))"
proof -
  let ?n = "length cmds"
  let ?dis = "map d [0..<?n]"
  obtain dis flag where r: "rank_outer [0..<?n - 1] ?dis [0..<?n] = (dis, flag)" by fastforce
  have z: "zip ?dis [0..<?n] = map (\<lambda>i. (d i, i)) [0..<?n]" by (simp add: zip_map1 zip_same_conv_map)
  have "zip dis flag = sort_key fst (zip ?dis [0..<?n])"
    using rank_outer_sort_key [of ?dis "[0..<?n]" dis flag] r by simp
  then have "zip dis flag = map (\<lambda>i. (d i, i)) (sort_key d [0..<?n])" by (simp add: z sort_key_pair)
  then have "suggest e cmds (zip dis flag) = map ((!) cmds)
      (takeWhile (\<lambda>i. d i < int (length e) \<and> d i \<le> int (length (cmds ! i))) (sort_key d [0..<?n]))"
    by (simp add: suggest_takeWhile takeWhile_map comp_def)
  then show ?thesis using r by (simp add: fixcmd_def d_def Let_def)
qed

text \<open>\<open>itoa\<close> of the shell writes positive numbers in decimal, and zero as the empty string.\<close>

theorem itoa_decimal: "itoa 0 = [] \<and> (0 < n \<longrightarrow> itoa (int n) = dec n)"
  using itoa_digits_dec [of n] by (simp add: itoa_rev itoa_digits.simps [of 0])

theorem itoa_decimal_witness: "itoa 0 = [] \<and> itoa 24 = [50, 52]"
  using itoa_decimal [of 24] by (simp add: dec.simps digit_def)

end
