(* ===== verification/Sh.thy ===== *)
theory Sh
  imports Uprogs Shparse Shfix
begin

text \<open>
  The shell process (\<open>sh.c\<close>): \<open>runcmd\<close>, \<open>getcmd\<close>, \<open>main\<close>, \<open>panic\<close>, \<open>fork1\<close>, the history file (\<open>recordHistory\<close>,
  \<open>getHistory\<close>) and the commands of the current directory (\<open>getcmdlist\<close>, \<open>getExecutedCmd\<close>).

  \<open>runcmd\<close> works on the tree of strings that parsing gives (theory \<open>Shparse\<close>); its suggestions for a mistyped
  command are those of theory \<open>Shfix\<close>.  Memory contents the code does not set are arguments (\<open>junk\<close>).
\<close>

section \<open>The commands of a directory\<close>

definition sh_getcmdlist_entry :: "byte list \<Rightarrow> stat \<Rightarrow> byte list list \<Rightarrow> (ust, byte list list) kern" where
  "sh_getcmdlist_entry path st cmds =
    (if st_type st = 2 then
       if length cmds \<ge> MAX_EXECMD then undef else kret (cmds @ [trim_blanks (fmtname path)])
     else kret cmds)"

definition sh_getcmdlist :: "byte list \<Rightarrow> (ust, byte list list) kern" where
  "sh_getcmdlist path =
    kbind (ucall_ret (U_open path 0)) (\<lambda>fd.
    kthen (kwhen (fd < 0) (uprintf 2 ''getcmdlist: cannot open %s\<newline>'' [UStr (Some path)])) (
    kbind (usys (U_fstat fd)) (\<lambda>a.
    if ret a < 0 then
      kthen (uprintf 2 ''getcmdlist: cannot stat %s\<newline>'' [UStr (Some path)]) (
      kthen (ucall_do (U_close fd))
      undef)
    else
      kbind
        (if st_type (status a) = T_FILE then
           kthen (ls_entry path (status a) ()) (kret [])
         else if st_type (status a) = T_DIR then
           if length path + 1 + DIRSIZ + 1 > 512 then
             kthen (uprintf 1 ''getcmdlist: path too long\<newline>'' []) (kret [])
           else uloop (dir_step ''getcmdlist: cannot stat %s\<newline>'' sh_getcmdlist_entry fd path) []
         else kret []) (\<lambda>cmds.
      kthen (ucall_do (U_close fd)) (
      kret cmds)))))"

definition staticCommands :: "byte list list" where
  "staticCommands =
    [str ''/ls'', str ''/mkdir'', str ''/cp'', str ''/mv'', str ''/rename'', str ''/rm'', str ''/cat'', str ''/history'',
     str ''/editor'', str ''/uptime'', str ''/help'', str ''/script'', str ''/touch'', str ''/make'']"

text \<open>The commands now in \<open>ec\<close>; the array has \<open>MAX_EXECMD\<close> rows.\<close>

definition getExecutedCmd :: "(ust, int \<times> byte list list) kern" where
  "getExecutedCmd =
    kbind (sh_getcmdlist (str ''.'')) (\<lambda>cmd.
    if str ''ls'' \<in> set cmd then kret (int (length cmd), cmd)
    else if length cmd + length staticCommands > MAX_EXECMD then undef
    else kret (int (length (cmd @ staticCommands)), cmd @ staticCommands))"

section \<open>History\<close>

definition bash_history :: "byte list" where
  "bash_history = str ''/.bash_history''"

definition record_step :: "int \<Rightarrow> unit \<Rightarrow> (ust, unit + unit) kern" where
  "record_step fd _ = kbind (ucall_ret (U_read fd 256)) (\<lambda>n. kret (if n \<noteq> 0 then Inl () else Inr ()))"

definition recordHistory :: "byte list \<Rightarrow> (ust, unit) kern" where
  "recordHistory commd =
    kbind (ucall_ret (U_open bash_history (O_RDWR + O_CREATE))) (\<lambda>fd.
    kthen (uloop (record_step fd) ()) (
    kthen (ucall_do (U_write fd commd)) (
    ucall_do (U_close fd))))"

text \<open>The places of the newlines in the string.\<close>

definition newlines :: "byte list \<Rightarrow> nat list" where
  "newlines s = filter (\<lambda>j. s ! j = 10) [0..<length s]"

text \<open>A string stored in a row, with its NUL; the array ends after \<open>H_ITEMS\<close> rows.\<close>

definition put_row :: "int \<Rightarrow> byte list \<Rightarrow> byte list \<Rightarrow> (ust, byte list) kern" where
  "put_row nums s rows =
    (let i = nat (nums mod int H_ITEMS) * H_LEN in
     if i + length s + 1 > H_ITEMS * H_LEN then undef
     else kret (blit (blit rows i (replicate H_ITEMS 0)) i (s @ [0])))"

fun put_rows :: "byte list list \<Rightarrow> int \<times> byte list \<Rightarrow> (ust, int \<times> byte list) kern" where
  "put_rows [] (nums, rows) = kret (nums, rows)"
| "put_rows (s # ss) (nums, rows) =
    kbind (put_row nums s rows) (\<lambda>rows.
    put_rows ss (nums + 1, rows))"

definition sub_string :: "byte list \<Rightarrow> nat \<Rightarrow> nat \<Rightarrow> byte list" where
  "sub_string s i j = take (j - i) (drop i s)"

text \<open>The lines stored from a buffer: the first continues \<open>pre\<close>.\<close>

definition history_lines :: "byte list \<Rightarrow> byte list \<Rightarrow> byte list list" where
  "history_lines pre s =
    (let locs = newlines s in
     if locs = [] then []
     else (pre @ sub_string s 0 (locs ! 0)) # map (\<lambda>j. sub_string s (locs ! (j - 1) + 1) (locs ! j)) [1..<length locs])"

text \<open>
  One turn of the loop of \<open>getHistory\<close>: the buffer of 256 bytes, \<open>pre\<close>, the number of lines and the rows.  A
  buffer without NUL makes \<open>strlen\<close> run past it; without a newline \<open>locs[-1]\<close> is read.
\<close>

definition getHistory_step ::
    "int \<Rightarrow> byte list \<times> byte list \<times> int \<times> byte list \<Rightarrow> (ust, byte list \<times> byte list \<times> int \<times> byte list + int \<times> byte list) kern" where
  "getHistory_step fd = (\<lambda>(buf, pre, nums, rows).
    kbind (usys (U_read fd 256)) (\<lambda>a.
    if ret a > 0 then
      let buf = blit buf 0 (data a); s = cstring buf; locs = newlines s in
      if 0 \<notin> set buf then undef
      else
        kbind (put_rows (history_lines pre s) (nums, rows)) (\<lambda>(nums, rows).
        if ret a = 256 then
          if locs = [] then undef
          else if last locs < 255 then
            kret (Inl (replicate 256 0, cstring (sub_string buf (last locs + 1) 256), nums, rows))
          else kret (Inl (buf, pre, nums, rows))
        else kret (Inl (buf, pre, nums, rows)))
    else kret (Inr (nums, rows))))"

definition getHistory :: "byte list \<Rightarrow> history \<Rightarrow> (ust, history) kern" where
  "getHistory junk hs =
    kbind (ucall_ret (U_open bash_history (O_RDONLY + O_CREATE))) (\<lambda>fd.
    kbind (uloop (getHistory_step fd) (junk, [], 0, h_rows hs)) (\<lambda>(nums, rows).
    kthen (ucall_do (U_close fd)) (
    let start = (if nums = 0 then -1 else (nums - 1) mod int H_ITEMS)
    in kret \<lparr>h_len = nums, h_start = start, h_current = start, h_rows = rows\<rparr>)))"

section \<open>Running commands\<close>

definition sh_panic :: "string \<Rightarrow> (ust, 'a) kern" where
  "sh_panic s = kthen (uprintf 2 ''%s\<newline>'' [UStr (Some (str s))]) uexit"

definition fork1 :: "(ust, int) kern" where
  "fork1 =
    kbind (ucall_ret U_fork) (\<lambda>pid.
    if pid = -1 then sh_panic ''fork'' else kret pid)"

fun print_names :: "byte list list \<Rightarrow> (ust, unit) kern" where
  "print_names [] = kret ()"
| "print_names (n # ns) = kthen (uprintf 1 ''%s\<newline>'' [UStr (Some n)]) (print_names ns)"

definition sh_fixcmd :: "(nat \<Rightarrow> table) \<Rightarrow> byte list \<Rightarrow> (ust, unit) kern" where
  "sh_fixcmd junk errorcmd =
    kbind (sh_getcmdlist (str ''.'')) (\<lambda>cmdlist.
    case fixcmd junk cmdlist errorcmd of (names, flag) \<Rightarrow>
    kthen (print_names names) (
    kwhen flag (uprintf 1 ''%s\<newline>'' [UStr (Some (str ''Maybe you want to input these commands.''))])))"

fun runcmd :: "(nat \<Rightarrow> table) \<Rightarrow> byte list cmd \<Rightarrow> (ust, unit) kern" where
  "runcmd junk (EXEC argv) =
    (if argv = [] then uexit
     else
       kthen (ucall_do (U_exec (hd argv) argv)) (
       kthen (uprintf 2 ''exec %s failed\<newline>'' [UStr (Some (hd argv))]) (
       kthen (sh_fixcmd junk (hd argv))
       uexit)))"
| "runcmd junk (REDIR c f mode fd) =
    kthen (ucall_do (U_close (int fd))) (
    kbind (ucall_ret (U_open f mode)) (\<lambda>r.
    if r < 0 then kthen (uprintf 2 ''open %s failed\<newline>'' [UStr (Some f)]) uexit
    else
      kthen (runcmd junk c)
      uexit))"
| "runcmd junk (LIST l r) =
    kbind fork1 (\<lambda>pid.
    kthen (kwhen (pid = 0) (runcmd junk l)) (
    kthen (ucall_do U_wait) (
    kthen (runcmd junk r)
    uexit)))"
| "runcmd junk (PIPE l r) =
    kbind (usys U_pipe) (\<lambda>a.
    if ret a < 0 then sh_panic ''pipe''
    else case fds a of (p0, p1) \<Rightarrow>
      kbind fork1 (\<lambda>pid.
      kthen (kwhen (pid = 0) (
        kthen (ucall_do (U_close 1)) (
        kthen (ucall_do (U_dup p1)) (
        kthen (ucall_do (U_close p0)) (
        kthen (ucall_do (U_close p1)) (
        runcmd junk l)))))) (
      kbind fork1 (\<lambda>pid.
      kthen (kwhen (pid = 0) (
        kthen (ucall_do (U_close 0)) (
        kthen (ucall_do (U_dup p0)) (
        kthen (ucall_do (U_close p0)) (
        kthen (ucall_do (U_close p1)) (
        runcmd junk r)))))) (
      kthen (ucall_do (U_close p0)) (
      kthen (ucall_do (U_close p1)) (
      kthen (ucall_do U_wait) (
      kthen (ucall_do U_wait)
      uexit))))))))"
| "runcmd junk (BACK c) =
    kbind fork1 (\<lambda>pid.
    kthen (kwhen (pid = 0) (runcmd junk c))
    uexit)"

text \<open>\<open>parsecmd\<close> in the process: the tree of strings, or the message and \<open>exit\<close>.\<close>

definition sh_parsecmd :: "byte list \<Rightarrow> (ust, byte list cmd) kern" where
  "sh_parsecmd s =
    (case parsecmd s of
       POk (c, buf) \<Rightarrow> kret (map_cmd (str_at buf) c)
     | PErr e \<Rightarrow>
       kthen
         (case parseline (4 * length s + 4) s of
            POk (c, r) \<Rightarrow> uprintf 2 ''leftovers: %s\<newline>'' [UStr (Some (fst (peek r [])))]
          | _ \<Rightarrow> kret ())
         (sh_panic e)
     | PDepth \<Rightarrow> kpanic ''depth'')"

section \<open>The main loop\<close>

text \<open>\<open>getcmd\<close>: the line, or \<open>None\<close> at the end of the input.\<close>

definition getcmd :: "(ust, byte list option) kern" where
  "getcmd =
    kthen (uprintf 2 ''$ '' []) (
    kbind (ugets 100) (\<lambda>buf.
    kret (if cstring buf = [] then None else Some (cstring buf))))"

definition open_console_step :: "unit \<Rightarrow> (ust, unit + unit) kern" where
  "open_console_step _ =
    kbind (ucall_ret (U_open (str ''console'') O_RDWR)) (\<lambda>fd.
    if fd < 0 then kret (Inr ())
    else if fd \<ge> 3 then kthen (ucall_do (U_close fd)) (kret (Inr ()))
    else kret (Inl ()))"

definition sh_step :: "(nat \<Rightarrow> table) \<Rightarrow> byte list \<Rightarrow> unit \<Rightarrow> (ust, unit + unit) kern" where
  "sh_step junk hjunk _ =
    kbind getcmd (\<lambda>line.
    case line of
      None \<Rightarrow> kret (Inr ())
    | Some buf \<Rightarrow>
      if buf = str ''ESC\<newline>'' then uexit
      else if take 3 buf = str ''cd '' then
        kthen (recordHistory buf) (
        kbind (ucall_ret (U_chdir (drop 3 (butlast buf)))) (\<lambda>r.
        kthen (kwhen (r < 0) (uprintf 2 ''cannot cd %s\<newline>'' [UStr (Some (drop 3 (butlast buf)))])) (
        kbind getExecutedCmd (\<lambda>ec.
        kthen (ucall_do (U_setExeCmd ec)) (
        kret (Inl ()))))))
      else
        kbind fork1 (\<lambda>pid.
        kthen (kwhen (pid = 0) (kbind (sh_parsecmd buf) (runcmd junk))) (
        kthen (recordHistory buf) (
        kbind (getHistory hjunk \<lparr>h_len = 0, h_start = 0, h_current = 0, h_rows = replicate (H_ITEMS * H_LEN) 0\<rparr>) (\<lambda>hs.
        kthen (ucall_do (U_setHistory hs)) (
        kthen (ucall_do U_wait) (
        kret (Inl ()))))))))"

definition sh_main :: "(nat \<Rightarrow> table) \<Rightarrow> byte list \<Rightarrow> (ust, unit) kern" where
  "sh_main junk hjunk =
    kbind (getHistory hjunk \<lparr>h_len = 0, h_start = 0, h_current = 0, h_rows = replicate (H_ITEMS * H_LEN) 0\<rparr>) (\<lambda>hs.
    kthen (ucall_do (U_setHistory hs)) (
    kbind getExecutedCmd (\<lambda>ec.
    kthen (ucall_do (U_setExeCmd ec)) (
    kthen (ucall_do (U_setProgramStatus SHELL)) (
    kthen (uloop open_console_step ()) (
    kthen (uloop (sh_step junk hjunk) ())
    uexit))))))"

section \<open>The shell does not return\<close>

lemma parsecmd_no_depth: "parsecmd s \<noteq> PDepth"
proof (cases "parseline (4 * length s + 4) s")
  case (POk x)
  then show ?thesis unfolding parsecmd_def POk by (simp split: prod.split)
next
  case (PErr e)
  then show ?thesis unfolding parsecmd_def PErr by simp
next
  case PDepth
  then show ?thesis using parse_no_depth(1) [of s "4 * length s + 4"] by simp
qed

lemma leaves_when: "leaves k \<Longrightarrow> leaves (kthen (kwhen b m) k)"
  by (rule leaves_then)

lemma ok_sh_getcmdlist: "ok n (sh_getcmdlist path)"
proof -
  have e: "ok n (sh_getcmdlist_entry p st cs)" for n p st cs unfolding sh_getcmdlist_entry_def by (intro ok_rules)
  show ?thesis unfolding sh_getcmdlist_def by (intro ok_rules ok_uloop ok_dir_step strict_dir_step ok_ls_entry e)
qed

lemma ok_getExecutedCmd: "ok n getExecutedCmd"
  unfolding getExecutedCmd_def by (intro ok_rules ok_sh_getcmdlist)

lemma ok_recordHistory: "ok n (recordHistory c)"
  unfolding recordHistory_def record_step_def by (intro ok_rules ok_uloop strict_usys)

lemma ok_put_row: "ok n (put_row k s rows)"
  unfolding put_row_def Let_def by (intro ok_rules)

lemma ok_put_rows: "ok n (put_rows ss x)"
proof (induction ss arbitrary: x)
  case (Cons s ss)
  show ?case by (cases x) (simp, intro ok_rules ok_put_row Cons)
next
  case Nil
  show ?case by (cases x) (simp add: ok_basic)
qed

lemma getHistory_step_ok: "ok n (getHistory_step fd x)" "strict (getHistory_step fd x)"
  unfolding getHistory_step_def Let_def
  by (cases x, simp only: prod.case, intro ok_rules ok_put_rows,
    cases x, simp only: prod.case, intro strict_usys ok_rules ok_put_rows)

lemma ok_getHistory: "ok n (getHistory junk hs)"
  unfolding getHistory_def Let_def by (intro ok_rules ok_uloop getHistory_step_ok)

lemma ok_sh_panic: "ok n (sh_panic e)" "leaves (sh_panic e)"
  unfolding sh_panic_def by (intro ok_rules, intro leave_rules)

lemma ok_fork1: "ok n fork1" "strict fork1"
  unfolding fork1_def by (intro ok_rules ok_sh_panic, intro strict_usys ok_rules ok_sh_panic)

lemma ok_print_names: "ok n (print_names ns)"
  by (induction ns) (auto intro!: ok_rules)

lemma ok_fixcmd: "ok n (sh_fixcmd junk e)"
  unfolding sh_fixcmd_def by (intro ok_rules ok_sh_getcmdlist ok_print_names)

lemma ok_runcmd: "ok n (runcmd junk c)"
proof (induction c)
  case (EXEC argv)
  show ?case unfolding runcmd.simps by (intro ok_rules ok_fixcmd)
next
  case (REDIR c f mode fd)
  show ?case unfolding runcmd.simps by (intro ok_rules REDIR)
next
  case (PIPE l r)
  show ?case unfolding runcmd.simps by (intro ok_rules ok_fork1 ok_sh_panic PIPE)
next
  case (LIST l r)
  show ?case unfolding runcmd.simps by (intro ok_rules ok_fork1 LIST)
next
  case (BACK c)
  show ?case unfolding runcmd.simps by (intro ok_rules ok_fork1 BACK)
qed

lemma leaves_prod: "(\<And>x y. leaves (f x y)) \<Longrightarrow> leaves (case p of (x, y) \<Rightarrow> f x y)"
  by (cases p) auto

lemma leaves_runcmd: "leaves (runcmd junk c)"
proof (cases c)
  case (PIPE l r)
  then show ?thesis by (simp only: runcmd.simps) (intro leave_rules leaves_prod ok_sh_panic)
qed (simp_all only: runcmd.simps, (intro leave_rules)+)

lemma ok_sh_parsecmd: "ok n (sh_parsecmd s)"
proof (cases "parsecmd s")
  case (PErr e)
  have "ok n (case parseline (4 * length s + 4) s of
      POk (c, r) \<Rightarrow> uprintf 2 ''leftovers: %s\<newline>'' [UStr (Some (fst (peek r [])))] | _ \<Rightarrow> kret ())"
    by (auto split: pres.split prod.split intro: ok_rules)
  then show ?thesis unfolding sh_parsecmd_def PErr by (simp only: pres.case) (intro ok_rules ok_sh_panic)
next
  case PDepth
  then show ?thesis using parsecmd_no_depth by blast
next
  case (POk x)
  then show ?thesis by (simp add: sh_parsecmd_def ok_basic split: prod.split)
qed

lemma ok_getcmd: "ok n getcmd" "strict getcmd"
proof -
  show "ok n getcmd" unfolding getcmd_def ugets_def by (intro ok_rules ok_ugets)
  have "strict (ugets 100)" unfolding ugets_def by (simp add: numeral_eq_Suc, intro strict_usys ok_rules ok_ugets)
  then show "strict getcmd" unfolding getcmd_def kthen_def by (intro strict_later strict_bind ok_rules)
qed

lemma sh_step_ok: "ok n (sh_step junk h x)" "strict (sh_step junk h x)"
proof -
  have o: "ok n (case line of None \<Rightarrow> kret (Inr ()) | Some buf \<Rightarrow>
      if buf = str ''ESC\<newline>'' then uexit
      else if take 3 buf = str ''cd '' then
        kthen (recordHistory buf) (
        kbind (ucall_ret (U_chdir (drop 3 (butlast buf)))) (\<lambda>r.
        kthen (kwhen (r < 0) (uprintf 2 ''cannot cd %s\<newline>'' [UStr (Some (drop 3 (butlast buf)))])) (
        kbind getExecutedCmd (\<lambda>ec.
        kthen (ucall_do (U_setExeCmd ec)) (
        kret (Inl ()))))))
      else
        kbind fork1 (\<lambda>pid.
        kthen (kwhen (pid = 0) (kbind (sh_parsecmd buf) (runcmd junk))) (
        kthen (recordHistory buf) (
        kbind (getHistory h \<lparr>h_len = 0, h_start = 0, h_current = 0, h_rows = replicate (H_ITEMS * H_LEN) 0\<rparr>) (\<lambda>hs.
        kthen (ucall_do (U_setHistory hs)) (
        kthen (ucall_do U_wait) (
        kret (Inl ()))))))))" for n line
    by (intro ok_rules ok_recordHistory ok_getExecutedCmd ok_fork1 ok_sh_parsecmd ok_runcmd ok_getHistory)
  show "ok n (sh_step junk h x)" unfolding sh_step_def by (intro ok_bind ok_getcmd o)
  show "strict (sh_step junk h x)" unfolding sh_step_def by (intro strict_bind ok_getcmd o)
qed

lemma open_console_ok: "ok n (open_console_step x)" "strict (open_console_step x)"
  unfolding open_console_step_def by (intro ok_rules, intro strict_usys ok_rules)

section \<open>Properties\<close>


text \<open>A history file of more than 255 bytes without NUL makes the shell run past its buffer: the first \<open>read\<close> of
  \<open>getHistory\<close> fills all 256 bytes, and \<open>strlen\<close> finds no end in them.\<close>

theorem getHistory_overrun:
  assumes "length junk = 256" "length bs = 256" "0 \<notin> set bs" "read_answer r bs"
  shows "getHistory junk hs \<lparr>answers = f # r # as, calls = cs\<rparr> = Panic ''undefined''"
  using assms
  by (simp add: getHistory_def kbind_def [of "uloop g x" k for g x k] uloop.simps getHistory_step_def read_answer_def blit_def Let_def
      undef_def kpanic_def)

theorem getHistory_overrun_witness:
  "getHistory (replicate 256 0) \<lparr>h_len = 0, h_start = 0, h_current = 0, h_rows = []\<rparr>
     \<lparr>answers = [wit_answer 3 [], wit_answer 256 (replicate 256 97)], calls = []\<rparr> = Panic ''undefined''"
  using getHistory_overrun [of "replicate 256 0" "replicate 256 97" "wit_answer 256 (replicate 256 97)"]
  by (simp add: wit_answer_def read_answer_def)

text \<open>
  What calls do to the open files of the process: \<open>close\<close> frees a descriptor and \<open>dup\<close> gives the lowest free one
  (\<open>fdalloc\<close> in the kernel).
\<close>

definition lowest_free :: "(nat \<Rightarrow> 'f option) \<Rightarrow> nat" where
  "lowest_free T = (LEAST n. T n = None)"

fun fd_effect :: "ucall \<Rightarrow> (nat \<Rightarrow> 'f option) \<Rightarrow> (nat \<Rightarrow> 'f option)" where
  "fd_effect (U_close fd) T = T(nat fd := None)"
| "fd_effect (U_dup fd) T = T(lowest_free T := T (nat fd))"
| "fd_effect _ T = T"

lemma lowest_free_at: "(\<And>k. k < n \<Longrightarrow> T k \<noteq> None) \<Longrightarrow> T n = None \<Longrightarrow> lowest_free T = n"
  unfolding lowest_free_def by (rule Least_equality) (use not_less in blast)+

lemma kthen_runcmd: "kthen (runcmd junk c) k = runcmd junk c"
proof
  fix s
  have "runcmd junk c s \<noteq> Ok x t" for x t using leaves_runcmd by (auto simp: leaves_def)
  then show "kthen (runcmd junk c) k s = runcmd junk c s" by (auto simp: kern_defs split: kres.split)
qed

lemma kthen_assoc: "kthen (kthen m k) l = kthen m (kthen k l)"
  by (simp add: kthen_def kbind_assoc)

lemma fork1_child: "ret k \<noteq> -1 \<Longrightarrow> kbind fork1 f \<lparr>answers = k # as, calls = cs\<rparr> = f (ret k) \<lparr>answers = as, calls = cs @ [U_fork]\<rparr>"
  by (simp add: fork1_def kbind_assoc)

text \<open>C36. The two children of a pipeline: each goes on to run its side with the writing end of the pipe as its output,
  or the reading end as its input, and with both ends otherwise closed, when 0 and 1 were open before.\<close>

theorem pipe_wiring:
  assumes "ret a \<ge> 0" "fds a = (int p0, int p1)" "ret k = 0" "ret k' > 0"
    and "T 0 \<noteq> None" "T 1 \<noteq> None" "p0 \<notin> {0, 1}" "p1 \<notin> {0, 1}" "p0 \<noteq> p1"
  defines "L \<equiv> [U_close 1, U_dup (int p1), U_close (int p0), U_close (int p1)]"
    and "R \<equiv> [U_close 0, U_dup (int p0), U_close (int p0), U_close (int p1)]"
  shows "runcmd junk (PIPE l r) \<lparr>answers = a # k # c1 # c2 # c3 # c4 # as, calls = cs\<rparr> =
      runcmd junk l \<lparr>answers = as, calls = cs @ [U_pipe, U_fork] @ L\<rparr> \<and>
    runcmd junk (PIPE l r) \<lparr>answers = a # k' # k # c1 # c2 # c3 # c4 # as, calls = cs\<rparr> =
      runcmd junk r \<lparr>answers = as, calls = cs @ [U_pipe, U_fork, U_fork] @ R\<rparr> \<and>
    fold fd_effect L T = T(1 := T p1, p0 := None, p1 := None) \<and>
    fold fd_effect R T = T(0 := T p0, p0 := None, p1 := None)"
proof (intro conjI)
  show "runcmd junk (PIPE l r) \<lparr>answers = a # k # c1 # c2 # c3 # c4 # as, calls = cs\<rparr> =
      runcmd junk l \<lparr>answers = as, calls = cs @ [U_pipe, U_fork] @ L\<rparr>"
    using assms(1-3) by (simp add: L_def fork1_child kwhen_def kthen_assoc kthen_runcmd)
  have "kthen (kret ()) m = m" for m :: "(ust, unit) kern" by (rule ext) (simp add: kern_defs)
  then show "runcmd junk (PIPE l r) \<lparr>answers = a # k' # k # c1 # c2 # c3 # c4 # as, calls = cs\<rparr> =
      runcmd junk r \<lparr>answers = as, calls = cs @ [U_pipe, U_fork, U_fork] @ R\<rparr>"
    using assms(1-4) by (simp add: R_def fork1_child kwhen_def kthen_assoc kthen_runcmd)
  have "lowest_free (T(1 := None)) = 1" "lowest_free (T(0 := None)) = 0"
    using assms(5) by (auto intro!: lowest_free_at)
  then show "fold fd_effect L T = T(1 := T p1, p0 := None, p1 := None)" "fold fd_effect R T = T(0 := T p0, p0 := None, p1 := None)"
    using assms(7-9) by (auto simp: L_def R_def fun_eq_iff)
qed

theorem pipe_wiring_witness:
  "runcmd (\<lambda>_ _ _. 0) (PIPE (EXEC []) (EXEC []))
     \<lparr>answers = [(wit_answer 0 [])\<lparr>fds := (3, 4)\<rparr>, wit_answer 0 [], wit_answer 0 [], wit_answer 1 [], wit_answer 0 [], wit_answer 0 []], calls = []\<rparr> =
   Sleeping \<lparr>answers = [], calls = [U_pipe, U_fork, U_close 1, U_dup 4, U_close 3, U_close 4, U_exit]\<rparr>"
  using pipe_wiring [of "(wit_answer 0 [])\<lparr>fds := (3, 4)\<rparr>" 3 4 "wit_answer 0 []" "wit_answer 5 []" "\<lambda>n. if n < 5 then Some n else None"
      "\<lambda>_ _ _. 0" "EXEC []" "EXEC []" "wit_answer 0 []" "wit_answer 1 []" "wit_answer 0 []" "wit_answer 0 []" "[]" "[]"]
  by (simp add: wit_answer_def)

end
