(* ===== verification/Editor.thy ===== *)
theory Editor
  imports Uprogs
begin

text \<open>
  The line editor (\<open>editor.c\<close>): reading a file into lines, the commands \<open>ins\<close>, \<open>mod\<close>, \<open>del\<close>, \<open>save\<close>, \<open>exit\<close>, and the
  command loop of \<open>main\<close>.

  The array \<open>text\<close> of \<open>MAX_LINE_NUMBER\<close> pointers is a list of that length, with \<open>None\<close> for the null pointer; a line is
  the string in its block of \<open>MAX_LINE_LENGTH\<close> bytes.  The part of each command that changes the array is a
  function of its own (\<open>None\<close> when it leaves the array), so that it can be compared with editing a list of lines.
\<close>

definition MAX_LINE_NUMBER :: nat where "MAX_LINE_NUMBER = 256"
definition MAX_LINE_LENGTH :: nat where "MAX_LINE_LENGTH = 256"
definition EDITOR :: int where "EDITOR = 1"

type_synonym ltext = "byte list option list"

section \<open>Reading the file\<close>

definition strcat_n :: "byte list \<Rightarrow> byte list \<Rightarrow> byte list" where
  "strcat_n dest src =
    (if src = [] then dest
     else
       let pos = length (cstring dest) in
       if length src + pos \<ge> MAX_LINE_LENGTH then dest
       else cstring dest @ src)"

text \<open>
  The loop over a buffer from \<open>next\<close> on: the array, the number of the current line, and whether the array is full.
\<close>

function load_buf :: "byte list \<Rightarrow> ltext \<Rightarrow> nat \<Rightarrow> ltext \<times> nat \<times> bool" where
  "load_buf rest lines n =
    (let seg = takeWhile (\<lambda>c. c \<noteq> 10) rest;
         r = dropWhile (\<lambda>c. c \<noteq> 10) rest;
         lines = lines[n := map_option (\<lambda>d. strcat_n d seg) (lines ! n)]
     in if r = [] then (lines, n, False)
        else if n \<ge> MAX_LINE_NUMBER - 1 then (lines, n, True)
        else
          let lines = lines[n + 1 := Some []] in
          if tl r = [] then (lines, n + 1, False)
          else load_buf (tl r) lines (n + 1))"
  by pat_completeness auto

termination
proof (relation "measure (\<lambda>(rest, _). length rest)", goal_cases)
  case (2 rest lines n x xa xb xc)
  then have "dropWhile (\<lambda>c. c \<noteq> 10) rest \<noteq> []" by simp
  then have "length (tl (dropWhile (\<lambda>c. c \<noteq> 10) rest)) < length (dropWhile (\<lambda>c. c \<noteq> 10) rest)"
    by (cases "dropWhile (\<lambda>c. c \<noteq> 10) rest") auto
  then have "length (tl (dropWhile (\<lambda>c. c \<noteq> 10) rest)) < length rest"
    using length_dropWhile_le [of "\<lambda>c. c \<noteq> 10" rest] by linarith
  then show ?case using 2(2) by simp
qed simp

declare load_buf.simps [simp del]

definition load_step :: "int \<Rightarrow> ltext \<times> nat \<Rightarrow> (ust, ltext \<times> nat + ltext \<times> nat) kern" where
  "load_step fd = (\<lambda>(lines, n).
    kbind (usys (U_read fd 256)) (\<lambda>a.
    if ret a > 0 then
      (case load_buf (data a) lines n of (lines, n, full) \<Rightarrow>
       kret (if full then Inr (lines, n) else Inl (lines, n)))
    else kret (Inr (lines, n))))"

definition empty_text :: ltext where
  "empty_text = Some [] # replicate (MAX_LINE_NUMBER - 1) None"

definition load_file :: "byte list \<Rightarrow> (ust, ltext \<times> nat) kern" where
  "load_file path =
    kbind (ucall_ret (U_open path O_RDONLY)) (\<lambda>fd.
    if fd \<noteq> -1 then
      kbind (uloop (load_step fd) (empty_text, 0)) (\<lambda>x.
      kthen (ucall_do (U_close fd)) (
      kret x))
    else kret (empty_text, 0))"

section \<open>The commands\<close>

text \<open>The array is read up to the null pointer; without one the loop leaves it.\<close>

fun show_lines :: "int \<Rightarrow> ltext \<Rightarrow> (ust, unit) kern" where
  "show_lines j [] = undef"
| "show_lines j (None # _) = kret ()"
| "show_lines j (Some s # r) =
    kthen (uprintf 1 ''%d%d%d:%s\<newline>''
      [UInt ((j + 1) div 100), UInt (((j + 1) mod 100) div 10), UInt ((j + 1) mod 10), UStr (Some (cstring s))]) (
    show_lines (j + 1) r)"

definition show_text :: "ltext \<Rightarrow> (ust, unit) kern" where
  "show_text lines =
    kthen (uprintf 1 ''****************************************\<newline>'' []) (
    kthen (uprintf 1 ''the contents of the file are:\<newline>'' []) (
    show_lines 0 lines))"

fun get_line_number_from :: "int \<Rightarrow> ltext \<Rightarrow> int" where
  "get_line_number_from i [] = i - 1"
| "get_line_number_from i (x # r) = (if x = None then i - 1 else get_line_number_from (i + 1) r)"

definition get_line_number :: "ltext \<Rightarrow> int" where
  "get_line_number lines = get_line_number_from 0 lines"

text \<open>The loop of \<open>com_ins\<close> that makes room, over the indices downwards.\<close>

fun shift_lines :: "nat list \<Rightarrow> ltext \<Rightarrow> ltext" where
  "shift_lines [] lines = lines"
| "shift_lines (i # is) lines =
    (if lines ! (i - 1) = None then shift_lines is lines
     else shift_lines is (lines[i := map_option cstring (lines ! (i - 1))]))"

definition ins_text :: "ltext \<Rightarrow> nat \<Rightarrow> byte list \<Rightarrow> ltext option" where
  "ins_text lines n input =
    (let lines = shift_lines (rev [n + 1..<MAX_LINE_NUMBER]) lines in
     if n \<ge> MAX_LINE_NUMBER then None
     else if lines ! n = None then
       if n = 0 then None
       else (case lines ! (n - 1) of
          None \<Rightarrow> None
        | Some s \<Rightarrow>
          if cstring s = [] then Some (lines[n := Some [], n - 1 := Some input])
          else Some (lines[n := Some input]))
     else Some (lines[n := Some input]))"

text \<open>The text given with the command, or a line read for it; \<open>gets\<close> at the end of the input makes \<open>input[-1]\<close> written.\<close>

definition com_input :: "byte list \<Rightarrow> (ust, byte list) kern" where
  "com_input extra =
    (if extra = [] then
       kthen (uprintf 1 ''please input content:\<newline>'' []) (
       kbind (ugets MAX_LINE_LENGTH) (\<lambda>input.
       if cstring input = [] then undef else kret (butlast (cstring input))))
     else kret extra)"

record ed =
  ed_text :: ltext
  ed_changed :: bool
  ed_show :: bool

definition ed_update :: "ltext option \<Rightarrow> ed \<Rightarrow> (ust, ed) kern" where
  "ed_update t e =
    (case t of
       None \<Rightarrow> undef
     | Some lines \<Rightarrow>
       kthen (kwhen (ed_show e) (show_text lines)) (
       kret (e\<lparr>ed_text := lines, ed_changed := True\<rparr>)))"

definition com_ins :: "int \<Rightarrow> byte list \<Rightarrow> ed \<Rightarrow> (ust, ed) kern" where
  "com_ins n extra e =
    (if n < 0 \<or> n > get_line_number (ed_text e) + 1 then
       kthen (uprintf 1 ''invalid line number\<newline>'' []) (kret e)
     else
       kbind (com_input extra) (\<lambda>input.
       ed_update (ins_text (ed_text e) (nat n) input) e))"

definition mod_text :: "ltext \<Rightarrow> nat \<Rightarrow> byte list \<Rightarrow> ltext option" where
  "mod_text lines n input = (case lines ! (n - 1) of None \<Rightarrow> None | Some s \<Rightarrow> Some (lines[n - 1 := Some input]))"

definition com_mod :: "int \<Rightarrow> byte list \<Rightarrow> ed \<Rightarrow> (ust, ed) kern" where
  "com_mod n extra e =
    (if n \<le> 0 \<or> n > get_line_number (ed_text e) + 1 then
       kthen (uprintf 1 ''invalid line number\<newline>'' []) (kret e)
     else
       kbind (com_input extra) (\<lambda>input.
       ed_update (mod_text (ed_text e) (nat n) input) e))"

text \<open>The loop of \<open>com_del\<close> that closes the gap; the result has the index where it stops.\<close>

function close_gap :: "ltext \<Rightarrow> nat \<Rightarrow> (ltext \<times> nat) option" where
  "close_gap lines i =
    (if i + 1 \<ge> MAX_LINE_NUMBER then None
     else case lines ! (i + 1) of
       None \<Rightarrow> Some (lines, i)
     | Some s \<Rightarrow> close_gap (lines[i := Some (cstring s), i + 1 := Some []]) (i + 1))"
  by pat_completeness auto

termination
  by (relation "measure (\<lambda>(lines, i). MAX_LINE_NUMBER - i)") auto

declare close_gap.simps [simp del]

definition del_text :: "ltext \<Rightarrow> nat \<Rightarrow> ltext option" where
  "del_text lines n =
    (case lines ! (n - 1) of None \<Rightarrow> None
     | Some s \<Rightarrow>
       (case close_gap (lines[n - 1 := Some []]) (n - 1) of
          None \<Rightarrow> None
        | Some (lines, i) \<Rightarrow> Some (if i \<noteq> 0 then lines[i := None] else lines)))"

definition com_del :: "int \<Rightarrow> ed \<Rightarrow> (ust, ed) kern" where
  "com_del n e =
    (if n \<le> 0 \<or> n > get_line_number (ed_text e) + 1 then
       kthen (uprintf 1 ''invalid line number\<newline>'' []) (kret e)
     else ed_update (del_text (ed_text e) (nat n)) e)"

definition com_help :: "(ust, unit) kern" where
  "com_help =
    kthen (uprintf 1 ''****************************************\<newline>'' []) (
    kthen (uprintf 1 ''instructions for use:\<newline>'' []) (
    kthen (uprintf 1 ''ins-n, insert a line after line n\<newline>'' []) (
    kthen (uprintf 1 ''mod-n, modify line n\<newline>'' []) (
    kthen (uprintf 1 ''del-n, delete line n\<newline>'' []) (
    kthen (uprintf 1 ''ins, insert a line after the last line\<newline>'' []) (
    kthen (uprintf 1 ''mod, modify the last line\<newline>'' []) (
    kthen (uprintf 1 ''del, delete the last line\<newline>'' []) (
    kthen (uprintf 1 ''show, enable show current contents after executing a command.\<newline>'' []) (
    kthen (uprintf 1 ''hide, disable show current contents after executing a command.\<newline>'' []) (
    kthen (uprintf 1 ''save, save the file\<newline>'' []) (
    uprintf 1 ''exit, exit editor\<newline>'' [])))))))))))"

fun save_lines :: "int \<Rightarrow> ltext \<Rightarrow> (ust, unit) kern" where
  "save_lines fd [] = undef"
| "save_lines fd (None # _) = kret ()"
| "save_lines fd (Some s # r) =
    kthen (uprintf fd ''\<newline>'' []) (
    kthen (ucall_do (U_write fd (cstring s))) (
    save_lines fd r))"

definition com_save :: "byte list \<Rightarrow> ed \<Rightarrow> (ust, ed) kern" where
  "com_save path e =
    kthen (ucall_do (U_unlink path)) (
    kbind (ucall_ret (U_open path (O_WRONLY + O_CREATE))) (\<lambda>fd.
    if fd = -1 then
      kthen (uprintf 1 ''save failed, file can't open:\<newline>'' []) (
      kthen (ucall_do (U_setProgramStatus SHELL))
      uexit)
    else
      (case ed_text e of
         Some s # r \<Rightarrow>
           kthen (ucall_do (U_write fd (cstring s))) (
           kthen (save_lines fd r) (
           kthen (ucall_do (U_close fd)) (
           kthen (uprintf 1 ''saved successfully\<newline>'' []) (
           kret (e\<lparr>ed_changed := False\<rparr>)))))
       | _ \<Rightarrow> kthen (ucall_do (U_close fd)) (kret e))))"

text \<open>At the end \<open>com_exit\<close> frees the lines up to the null pointer.\<close>

definition com_exit :: "byte list \<Rightarrow> ed \<Rightarrow> (ust, 'a) kern" where
  "com_exit path e =
    kthen
      (if ed_changed e then
         kthen (uprintf 1 ''save the file? y/n\<newline>'' []) (
         kbind (ugets MAX_LINE_LENGTH) (\<lambda>input.
         if cstring input = [] then undef
         else if butlast (cstring input) = str ''y'' then kbind (com_save path e) (\<lambda>_. kret ())
         else kret ()))
       else kret ()) (
    if None \<notin> set (ed_text e) then undef
    else
      kthen (ucall_do (U_setProgramStatus SHELL))
      uexit)"

section \<open>The command loop\<close>

text \<open>The character of a string at an index, or its NUL.\<close>

definition char_at :: "byte list \<Rightarrow> nat \<Rightarrow> byte" where
  "char_at s i = (if i < length s then s ! i else 0)"

text \<open>What follows the first blank among the first 8 characters of the command.\<close>

definition command_extra :: "byte list \<Rightarrow> byte list" where
  "command_extra input =
    (case find (\<lambda>j. char_at input j = 32) [0..<8] of Some j \<Rightarrow> drop (j + 1) input | None \<Rightarrow> [])"

text \<open>The line number of a command with \<open>-n\<close>, or the last line.\<close>

definition command_line :: "byte list \<Rightarrow> nat \<Rightarrow> (ust, int) kern" where
  "command_line input line_number =
    (if char_at input 3 = 45 then
       (case atoi (cstr (drop 4 input)) of Some n \<Rightarrow> kret n | None \<Rightarrow> undef)
     else kret (int line_number + 1))"

definition ed_command :: "byte list \<Rightarrow> byte list \<Rightarrow> ed \<times> nat \<Rightarrow> (ust, ed \<times> nat) kern" where
  "ed_command path input = (\<lambda>(e, line_number).
    if take 3 input = str ''ins'' then
      kbind (command_line input line_number) (\<lambda>n.
      kbind (com_ins n (command_extra input) e) (\<lambda>e.
      kret (e, nat (get_line_number (ed_text e)))))
    else if take 3 input = str ''mod'' then
      kbind (command_line input line_number) (\<lambda>n.
      kbind (com_mod n (command_extra input) e) (\<lambda>e.
      kret (e, line_number)))
    else if take 3 input = str ''del'' then
      kbind (command_line input line_number) (\<lambda>n.
      kbind (com_del n e) (\<lambda>e.
      kret (e, nat (get_line_number (ed_text e)))))
    else if input = str ''show'' then
      kthen (uprintf 1 ''enable show current contents after text changed.\<newline>'' []) (
      kret (e\<lparr>ed_show := True\<rparr>, line_number))
    else if input = str ''hide'' then
      kthen (uprintf 1 ''disable show current contents after text changed.\<newline>'' []) (
      kret (e\<lparr>ed_show := False\<rparr>, line_number))
    else if input = str ''help'' then kthen com_help (kret (e, line_number))
    else if input = str ''save'' \<or> input = str ''CTRL+S\<newline>'' then
      kbind (com_save path e) (\<lambda>e. kret (e, line_number))
    else if input = str ''exit'' then com_exit path e
    else
      kthen (uprintf 1 ''invalid command.\<newline>'' []) (
      kthen com_help (
      kret (e, line_number))))"

definition editor_step :: "byte list \<Rightarrow> ed \<times> nat \<Rightarrow> (ust, ed \<times> nat + unit) kern" where
  "editor_step path x =
    kthen (uprintf 1 ''\<newline>please input command:\<newline>'' []) (
    kbind (ugets MAX_LINE_LENGTH) (\<lambda>input.
    if cstring input = [] then undef
    else
      kbind (ed_command path (butlast (cstring input)) x) (\<lambda>x.
      kret (Inl x))))"

definition editor_main :: "byte list list \<Rightarrow> (ust, unit) kern" where
  "editor_main argv =
    kthen (ucall_do (U_setProgramStatus EDITOR)) (
    if length argv = 1 then
      kthen (uprintf 1 ''please input the command as [editor file_name]\<newline>'' []) (
      kthen (ucall_do (U_setProgramStatus SHELL))
      uexit)
    else
      kbind (load_file (argv ! 1)) (\<lambda>(lines, line_number).
      kthen (show_text lines) (
      kthen com_help (
      kthen (uloop (editor_step (argv ! 1)) (\<lparr>ed_text = lines, ed_changed = False, ed_show = True\<rparr>, line_number)) (
      kthen (ucall_do (U_setProgramStatus SHELL))
      uexit)))))"

section \<open>The array as a list of lines\<close>

text \<open>The array that holds some lines.\<close>

definition text_of :: "byte list list \<Rightarrow> ltext" where
  "text_of lns = map Some lns @ replicate (MAX_LINE_NUMBER - length lns) None"

definition lines_ok :: "byte list list \<Rightarrow> bool" where
  "lines_ok lns \<longleftrightarrow> lns \<noteq> [] \<and> length lns \<le> MAX_LINE_NUMBER \<and> (\<forall>l \<in> set lns. 0 \<notin> set l)"

lemma cstring_id: "0 \<notin> set s \<Longrightarrow> cstring s = s"
  by (metis (mono_tags, lifting) cstring_def takeWhile_eq_all_conv)

lemma text_of_length: "length lns \<le> MAX_LINE_NUMBER \<Longrightarrow> length (text_of lns) = MAX_LINE_NUMBER"
  by (simp add: text_of_def)

lemma text_of_nth: "length lns \<le> MAX_LINE_NUMBER \<Longrightarrow> i < MAX_LINE_NUMBER \<Longrightarrow> text_of lns ! i = (if i < length lns then Some (lns ! i) else None)"
  by (simp add: text_of_def nth_append)

lemma text_of_line: "i < length lns \<Longrightarrow> text_of lns ! i = Some (lns ! i)"
  by (simp add: text_of_def nth_append)

lemma text_eqI:
  assumes "length t = MAX_LINE_NUMBER" "length lns \<le> MAX_LINE_NUMBER"
    "\<And>i. i < MAX_LINE_NUMBER \<Longrightarrow> t ! i = (if i < length lns then Some (lns ! i) else None)"
  shows "t = text_of lns"
  using assms by (intro nth_equalityI) (simp_all add: text_of_length text_of_nth)

lemma text_of_update: "length lns \<le> MAX_LINE_NUMBER \<Longrightarrow> i < length lns \<Longrightarrow> (text_of lns)[i := Some x] = text_of (lns[i := x])"
  by (simp add: text_of_def list_update_append map_update)

lemma text_of_snoc: "length lns < MAX_LINE_NUMBER \<Longrightarrow> (text_of lns)[length lns := Some x] = text_of (lns @ [x])"
  by (rule text_eqI) (auto simp: text_of_length text_of_nth nth_list_update nth_append less_Suc_eq)

lemma get_line_number_from_text: "get_line_number_from i (map Some lns @ replicate k None) = i + int (length lns) - 1"
  by (induction lns arbitrary: i) (cases k, auto)

lemma get_line_number_text: "get_line_number (text_of lns) = int (length lns) - 1"
  by (simp add: get_line_number_def text_of_def get_line_number_from_text)

lemma shift_lines_length: "length (shift_lines is l) = length l"
  by (induction "is" l rule: shift_lines.induct) auto

lemma shift_lines_nth:
  assumes "n + 1 \<le> m" "m \<le> length l" "i < length l"
  shows "shift_lines (rev [n + 1..<m]) l ! i =
    (if n < i \<and> i < m \<and> l ! (i - 1) \<noteq> None then map_option cstring (l ! (i - 1)) else l ! i)"
  using assms
proof (induction m arbitrary: l)
  case (Suc m)
  show ?case
  proof (cases "n + 1 \<le> m")
    case True
    then have r: "rev [n + 1..<Suc m] = m # rev [n + 1..<m]" by simp
    show ?thesis
    proof (cases "l ! (m - 1) = None")
      case True
      then show ?thesis using Suc.IH [of l] Suc.prems \<open>n + 1 \<le> m\<close> r by (auto simp: less_Suc_eq)
    next
      case False
      let ?l = "l[m := map_option cstring (l ! (m - 1))]"
      have "shift_lines (rev [n + 1..<m]) ?l ! i = (if n < i \<and> i < m \<and> ?l ! (i - 1) \<noteq> None then map_option cstring (?l ! (i - 1)) else ?l ! i)"
        using Suc.IH [of ?l] Suc.prems True by simp
      moreover have "?l ! (i - 1) = l ! (i - 1)" if "i < m" using that by simp
      ultimately show ?thesis using False r Suc.prems by (auto simp: less_Suc_eq nth_list_update)
    qed
  next
    case False
    then have "m = n" using Suc.prems by simp
    then have "\<not> (n < i \<and> i < Suc m)" by simp
    then show ?thesis using \<open>m = n\<close> by auto
  qed
qed simp

text \<open>Inserting after line \<open>n\<close>: an empty last line is filled instead of adding one after it.\<close>

definition spec_ins :: "nat \<Rightarrow> byte list \<Rightarrow> byte list list \<Rightarrow> byte list list" where
  "spec_ins n x lns =
    (if n = length lns \<and> last lns = [] then butlast lns @ [x, []]
     else take MAX_LINE_NUMBER (take n lns @ x # drop n lns))"

definition spec_del :: "nat \<Rightarrow> byte list list \<Rightarrow> byte list list" where
  "spec_del n lns = (if length lns = 1 then [[]] else take (n - 1) lns @ drop n lns)"

lemma ins_text_spec:
  assumes "lines_ok lns" "n \<le> length lns" "n < MAX_LINE_NUMBER"
  shows "ins_text (text_of lns) n x = Some (text_of (spec_ins n x lns))"
proof -
  let ?t = "shift_lines (rev [n + 1..<MAX_LINE_NUMBER]) (text_of lns)"
  have l: "length lns \<le> MAX_LINE_NUMBER" "lns \<noteq> []" and z: "\<forall>l \<in> set lns. 0 \<notin> set l" using assms(1) by (auto simp: lines_ok_def)
  have len: "length ?t = MAX_LINE_NUMBER" using l by (simp add: shift_lines_length text_of_length)
  have nth: "?t ! i = (if i \<le> n then if i < length lns then Some (lns ! i) else None else if i - 1 < length lns then Some (lns ! (i - 1)) else None)"
    if "i < MAX_LINE_NUMBER" for i
    using shift_lines_nth [of n MAX_LINE_NUMBER "text_of lns" i] that assms(3) l z
    by (auto simp: text_of_length text_of_nth cstring_id)
  show ?thesis
  proof (cases "n = length lns")
    case True
    have t: "?t = text_of lns" using len l nth True by (intro text_eqI) auto
    have n: "?t ! n = None" "?t ! (n - 1) = Some (last lns)" "n \<noteq> 0"
      using t True l assms(3) by (auto simp: text_of_nth last_conv_nth)
    have c: "cstring (last lns) = last lns" using z l by (simp add: cstring_id)
    have "(text_of lns)[n := Some [], n - 1 := Some x] = text_of ((lns @ [[]])[n - 1 := x])"
      using True assms(3) l text_of_snoc [of lns "[]"] text_of_update [of "lns @ [[]]" "n - 1" x] by simp
    moreover have "(lns @ [[]])[n - 1 := x] = butlast lns @ [x, []]"
      using True l by (cases lns rule: rev_cases) auto
    moreover have "(text_of lns)[n := Some x] = text_of (take MAX_LINE_NUMBER (take n lns @ x # drop n lns))"
      using True assms(3) text_of_snoc [of lns x] by simp
    ultimately show ?thesis using n t c True assms(3) by (auto simp: ins_text_def spec_ins_def Let_def)
  next
    case False
    then have n: "?t ! n \<noteq> None" using nth [of n] assms by simp
    have "?t[n := Some x] = text_of (take MAX_LINE_NUMBER (take n lns @ x # drop n lns))"
    proof (rule text_eqI)
      show "length (?t[n := Some x]) = MAX_LINE_NUMBER" using len by simp
      show "length (take MAX_LINE_NUMBER (take n lns @ x # drop n lns)) \<le> MAX_LINE_NUMBER" by simp
      fix i assume i: "i < MAX_LINE_NUMBER"
      show "?t[n := Some x] ! i = (if i < length (take MAX_LINE_NUMBER (take n lns @ x # drop n lns))
          then Some (take MAX_LINE_NUMBER (take n lns @ x # drop n lns) ! i) else None)"
        using i nth [OF i] len False assms(2) by (auto simp: nth_list_update nth_append nth_Cons' min_def)
    qed
    moreover obtain y where "?t ! n = Some y" using n by auto
    ultimately show ?thesis using assms(3) False by (auto simp: ins_text_def spec_ins_def Let_def)
  qed
qed

lemma mod_text_spec:
  assumes "lines_ok lns" "1 \<le> n" "n \<le> length lns"
  shows "mod_text (text_of lns) n x = Some (text_of (lns[n - 1 := x]))"
proof -
  have "length lns \<le> MAX_LINE_NUMBER" "n - 1 < length lns" using assms by (auto simp: lines_ok_def)
  then have "text_of lns ! (n - 1) = Some (lns ! (n - 1))" "(text_of lns)[n - 1 := Some x] = text_of (lns[n - 1 := x])"
    by (simp_all add: text_of_nth text_of_update)
  then show ?thesis by (simp add: mod_text_def)
qed

lemma close_gap_spec:
  assumes "length (A @ [] # B) < MAX_LINE_NUMBER" "\<forall>l \<in> set B. 0 \<notin> set l"
  shows "close_gap (text_of (A @ [] # B)) (length A) = Some (text_of (A @ B @ [[]]), length A + length B)"
  using assms
proof (induction B arbitrary: A)
  case Nil
  then show ?case by (subst close_gap.simps) (simp add: text_of_nth)
next
  case (Cons b B)
  have "(text_of (A @ [] # b # B))[length A := Some b, length A + 1 := Some []] = text_of ((A @ [b]) @ [] # B)"
    using Cons.prems(1) text_of_update [of "A @ [] # b # B" "length A" b] text_of_update [of "A @ b # b # B" "length A + 1" "[]"]
    by (simp add: list_update_append)
  moreover have "text_of (A @ [] # b # B) ! (length A + 1) = Some b" using Cons.prems(1) by (simp add: text_of_nth nth_append)
  ultimately show ?case using Cons.IH [of "A @ [b]"] Cons.prems by (subst close_gap.simps) (simp add: cstring_id)
qed

lemma del_text_spec:
  assumes "lines_ok lns" "length lns < MAX_LINE_NUMBER" "1 \<le> n" "n \<le> length lns"
  shows "del_text (text_of lns) n = Some (text_of (spec_del n lns))"
proof -
  let ?A = "take (n - 1) lns" and ?B = "drop n lns"
  have lns: "lns = ?A @ lns ! (n - 1) # ?B" using assms(3,4) id_take_nth_drop [of "n - 1" lns] by simp
  have lA: "length ?A = n - 1" using assms(3,4) by simp
  have u: "(text_of lns)[n - 1 := Some []] = text_of (?A @ [] # ?B)"
    using text_of_update [of lns "n - 1" "[]"] assms by (simp add: upd_conv_take_nth_drop)
  have z: "\<forall>l \<in> set ?B. 0 \<notin> set l" using assms(1) by (auto simp: lines_ok_def dest: in_set_dropD)
  have lAB: "length (?A @ [] # ?B) < MAX_LINE_NUMBER" using assms by simp
  have c: "close_gap (text_of (?A @ [] # ?B)) (n - 1) = Some (text_of (?A @ ?B @ [[]]), n - 1 + length ?B)"
    using close_gap_spec [OF lAB z] lA by simp
  have k: "n - 1 + length ?B = length lns - 1" using assms(3,4) by simp
  have "(text_of (?A @ ?B @ [[]]))[length lns - 1 := None] = text_of (?A @ ?B)"
    using assms lA by (intro text_eqI) (auto simp: text_of_length text_of_nth nth_list_update nth_append)
  moreover have "text_of (?A @ ?B @ [[]]) = text_of [[]]" if "length lns = 1" using that assms by (cases lns) auto
  moreover have "text_of lns ! (n - 1) = Some (lns ! (n - 1))" using assms by (simp add: text_of_nth)
  ultimately show ?thesis using u c k assms by (auto simp: del_text_def spec_del_def)
qed

section \<open>Files and lines\<close>

text \<open>The lines of a file: the pieces between its newlines.\<close>

fun split_lines :: "byte list \<Rightarrow> byte list list" where
  "split_lines [] = [[]]"
| "split_lines (c # cs) = (if c = 10 then [] # split_lines cs else (c # hd (split_lines cs)) # tl (split_lines cs))"

fun join_lines :: "byte list list \<Rightarrow> byte list" where
  "join_lines [] = []"
| "join_lines [l] = l"
| "join_lines (l # lns) = l @ 10 # join_lines lns"

lemma split_lines_nonempty [simp]: "split_lines l \<noteq> []"
  by (cases l) auto

lemma split_no_nl: "10 \<notin> set l \<Longrightarrow> split_lines l = [l]"
  by (induction l) auto

lemma split_append_nl: "10 \<notin> set l \<Longrightarrow> split_lines (l @ 10 # r) = l # split_lines r"
  by (induction l) auto

lemma split_join: "lns \<noteq> [] \<Longrightarrow> \<forall>l \<in> set lns. 10 \<notin> set l \<Longrightarrow> split_lines (join_lines lns) = lns"
  by (induction lns rule: join_lines.induct) (auto simp: split_no_nl split_append_nl)

text \<open>More text after some lines continues the last one.\<close>

definition glue :: "byte list list \<Rightarrow> byte list list \<Rightarrow> byte list list" where
  "glue xs ys = butlast xs @ (last xs @ hd ys) # tl ys"

lemma split_append: "split_lines (a @ b) = glue (split_lines a) (split_lines b)"
proof (induction a)
  case Nil
  show ?case by (simp add: glue_def)
next
  case (Cons c a)
  then show ?case by (cases "split_lines a") (auto simp: glue_def)
qed

lemma glue_length: "xs \<noteq> [] \<Longrightarrow> ys \<noteq> [] \<Longrightarrow> length (glue xs ys) = length xs + length ys - 1"
  by (cases xs; cases ys) (auto simp: glue_def)

definition fits_text :: "byte list list \<Rightarrow> bool" where
  "fits_text lns \<longleftrightarrow> lines_ok lns \<and> (\<forall>l \<in> set lns. length l < MAX_LINE_LENGTH)"

lemma fits_glue:
  assumes "fits_text (glue xs ys)" "xs \<noteq> []" "ys \<noteq> []"
  shows "fits_text xs"
proof -
  have g: "0 \<notin> set l \<and> length l < MAX_LINE_LENGTH" if "l \<in> set (glue xs ys)" for l
    using that assms(1) by (simp add: fits_text_def lines_ok_def)
  have s: "set (butlast xs) \<subseteq> set (glue xs ys)" "last xs @ hd ys \<in> set (glue xs ys)" by (auto simp: glue_def)
  have x: "set xs = insert (last xs) (set (butlast xs))" using assms(2) by (cases xs rule: rev_cases) auto
  have "0 \<notin> set l \<and> length l < MAX_LINE_LENGTH" if "l \<in> set xs" for l
    using that x g [OF s(2)] g [of l] s(1) by auto
  moreover have "length xs \<le> MAX_LINE_NUMBER"
    using assms glue_length [OF assms(2,3)] by (cases ys) (simp_all add: fits_text_def lines_ok_def)
  ultimately show ?thesis using assms(2) by (simp add: fits_text_def lines_ok_def)
qed

lemma strcat_n_append: "0 \<notin> set d \<Longrightarrow> length (d @ s) < MAX_LINE_LENGTH \<Longrightarrow> strcat_n d s = d @ s"
  by (simp add: strcat_n_def cstring_id Let_def)

lemma load_buf_text:
  assumes "fits_text (glue lns (split_lines rest))" "lns \<noteq> []"
  shows "load_buf rest (text_of lns) (length lns - 1) =
    (text_of (glue lns (split_lines rest)), length (glue lns (split_lines rest)) - 1, False)"
  using assms
proof (induction "length rest" arbitrary: rest lns rule: less_induct)
  case less
  let ?n = "length lns - 1"
  have f: "fits_text lns" using fits_glue [OF less.prems(1,2)] by simp
  then have l: "length lns \<le> MAX_LINE_NUMBER" by (simp add: fits_text_def lines_ok_def)
  have z: "0 \<notin> set (last lns)" using f less.prems(2) by (simp add: fits_text_def lines_ok_def)
  have upd: "(text_of lns)[?n := map_option (\<lambda>d. strcat_n d s) (text_of lns ! ?n)] = text_of (butlast lns @ [last lns @ s])"
    if "length (last lns @ s) < MAX_LINE_LENGTH" for s
  proof -
    have "text_of lns ! ?n = Some (last lns)" using less.prems(2) by (simp add: text_of_line last_conv_nth)
    moreover have "lns[?n := last lns @ s] = butlast lns @ [last lns @ s]" using less.prems(2) by (cases lns rule: rev_cases) auto
    ultimately show ?thesis using strcat_n_append [OF z that] text_of_update [OF l, of ?n "last lns @ s"] less.prems(2) by simp
  qed
  show ?case
  proof (cases "10 \<in> set rest")
    case False
    then have s: "split_lines rest = [rest]" "takeWhile (\<lambda>c. c \<noteq> 10) rest = rest" "dropWhile (\<lambda>c. c \<noteq> 10) rest = []"
      by (auto simp: split_no_nl takeWhile_eq_all_conv dropWhile_eq_Nil_conv)
    have "length (last lns @ rest) < MAX_LINE_LENGTH" using less.prems(1) s(1) by (simp add: glue_def fits_text_def)
    then have "load_buf rest (text_of lns) ?n = (text_of (butlast lns @ [last lns @ rest]), ?n, False)"
      using upd [of rest] by (subst load_buf.simps) (simp add: Let_def s(2,3) del: dropWhile_eq_Nil_conv)
    then show ?thesis using less.prems(2) s(1) by (simp add: glue_def)
  next
    case True
    then obtain u v where r: "rest = u @ 10 # v" "10 \<notin> set u" by (meson split_list_first)
    then have s: "split_lines rest = u # split_lines v" "takeWhile (\<lambda>c. c \<noteq> 10) rest = u" "dropWhile (\<lambda>c. c \<noteq> 10) rest = 10 # v"
      by (auto simp: split_append_nl takeWhile_append dropWhile_append)
    let ?m = "butlast lns @ [last lns @ u, []]"
    have g: "glue lns (split_lines rest) = glue ?m (split_lines v)" by (simp add: glue_def s butlast_append)
    have fm: "fits_text (glue ?m (split_lines v))" using less.prems(1) g by simp
    then have fm': "fits_text ?m" using fits_glue [of ?m "split_lines v"] by simp
    then have lm: "length lns + 1 \<le> MAX_LINE_NUMBER" and lu: "length (last lns @ u) < MAX_LINE_LENGTH"
      using less.prems(2) by (auto simp: fits_text_def lines_ok_def)
    have t: "(text_of (butlast lns @ [last lns @ u]))[?n + 1 := Some []] = text_of ?m"
      using text_of_snoc [of "butlast lns @ [last lns @ u]" "[]"] lm less.prems(2) by simp
    have n: "\<not> MAX_LINE_NUMBER - 1 \<le> ?n" "length ?m - 1 = ?n + 1" using lm less.prems(2) by (cases lns, auto)+
    have rec: "load_buf rest (text_of lns) ?n =
        (if v = [] then (text_of ?m, ?n + 1, False) else load_buf v (text_of ?m) (?n + 1))"
      using s upd [OF lu] t n(1) by (subst load_buf.simps) (simp add: Let_def)
    show ?thesis
    proof (cases "v = []")
      case True
      then show ?thesis using rec g n(2) by (simp add: glue_def butlast_append)
    next
      case False
      have "load_buf v (text_of ?m) (length ?m - 1) = (text_of (glue ?m (split_lines v)), length (glue ?m (split_lines v)) - 1, False)"
        by (rule less.hyps) (use r fm in auto)
      then show ?thesis using rec False g n(2) by simp
    qed
  qed
qed

lemma glue_assoc: "ys \<noteq> [] \<Longrightarrow> glue xs (glue ys zs) = glue (glue xs ys) zs"
  by (cases ys rule: rev_cases) (auto simp: glue_def butlast_append hd_append)

lemma load_loop:
  assumes "list_all2 read_answer rs cs" "\<forall>c \<in> set cs. c \<noteq> []" "lns \<noteq> []"
    "fits_text (glue lns (split_lines (concat cs)))" "ret eof \<le> 0"
  shows "uloop (load_step fd) (text_of lns, length lns - 1) \<lparr>answers = rs @ eof # as, calls = k\<rparr> =
    Ok (text_of (glue lns (split_lines (concat cs))), length (glue lns (split_lines (concat cs))) - 1)
      \<lparr>answers = as, calls = k @ replicate (length cs + 1) (U_read fd 256)\<rparr>"
  using assms(1-4)
proof (induction rs cs arbitrary: lns k rule: list_all2_induct)
  case Nil
  then have "glue lns [[]] = lns" by (simp add: glue_def)
  then show ?case using assms(5) by (subst uloop.simps) (simp add: load_step_def kret_def)
next
  case (Cons r rs c cs)
  let ?m = "glue lns (split_lines c)"
  have g: "glue lns (split_lines (concat (c # cs))) = glue ?m (split_lines (concat cs))" by (simp add: split_append glue_assoc)
  have m: "?m \<noteq> []" by (simp add: glue_def)
  have fm: "fits_text ?m" using fits_glue [of ?m "split_lines (concat cs)"] Cons.prems(3) g m by simp
  have "load_step fd (text_of lns, length lns - 1) \<lparr>answers = r # rs @ eof # as, calls = k\<rparr> =
      Ok (Inl (text_of ?m, length ?m - 1)) \<lparr>answers = rs @ eof # as, calls = k @ [U_read fd 256]\<rparr>"
    using Cons.hyps(1) Cons.prems(1) load_buf_text [OF fm Cons.prems(2)] by (simp add: load_step_def read_answer_def kret_def)
  then show ?case using Cons.IH [of ?m "k @ [U_read fd 256]"] Cons.prems m g by (subst uloop.simps) simp
qed

lemma uputs_run:
  "length cs \<le> length as \<Longrightarrow> uputs fd cs \<lparr>answers = as, calls = k\<rparr> =
    Ok () \<lparr>answers = drop (length cs) as, calls = k @ map (\<lambda>c. U_write fd [c]) cs\<rparr>"
proof (induction cs arbitrary: as k)
  case (Cons c cs)
  then obtain a as' where "as = a # as'" by (cases as) auto
  then show ?case using Cons by (simp add: uputc_def)
qed (simp add: kret_def)

lemma uprintf_loop_plain: "37 \<notin> set fmt \<Longrightarrow> uprintf_loop fd fmt ap = uputs fd fmt"
  by (induction fd fmt ap rule: uprintf_loop.induct) (auto simp: kthen_def fun_eq_iff kbind_def kret_def uputc_def split: kres.split)

lemma then_run: "m s = Ok x t \<Longrightarrow> kthen m n s = n t" "m s = Ok x t \<Longrightarrow> kbind m f s = f x t"
  by (simp_all add: kern_defs)

text \<open>The bytes written to a descriptor.\<close>

fun written :: "int \<Rightarrow> ucall list \<Rightarrow> byte list" where
  "written fd [] = []"
| "written fd (c # cs) = (case c of U_write f b \<Rightarrow> if f = fd then b else [] | _ \<Rightarrow> []) @ written fd cs"

lemma written_append: "written fd (a @ b) = written fd a @ written fd b"
  by (induction a) auto

lemma written_other: "f \<noteq> fd \<Longrightarrow> written fd (map (\<lambda>c. U_write f [c]) cs) = []"
  by (induction cs) auto

lemma save_lines_run:
  assumes "\<forall>l \<in> set lns. 0 \<notin> set l" "2 * length lns \<le> length as"
  shows "save_lines fd (map Some lns @ None # r) \<lparr>answers = as, calls = k\<rparr> =
    Ok () \<lparr>answers = drop (2 * length lns) as, calls = k @ concat (map (\<lambda>l. [U_write fd [10], U_write fd l]) lns)\<rparr>"
  using assms
proof (induction lns arbitrary: as k)
  case (Cons l lns)
  then obtain a b as' where as: "as = a # b # as'" by (cases as; cases "tl as") auto
  have "uprintf fd ''\<newline>'' [] = uputs fd [10]" unfolding uprintf_def by (subst uprintf_loop_plain) (simp_all add: str_def)
  then have "kthen (uprintf fd ''\<newline>'' []) m \<lparr>answers = a # b # as', calls = k\<rparr> = m \<lparr>answers = b # as', calls = k @ [U_write fd [10]]\<rparr>" for m :: "(ust, unit) kern"
    using uputs_run [of "[10]" "a # b # as'" fd k] by (simp add: then_run)
  then show ?case using Cons as by (simp add: cstring_id)
qed (simp add: kret_def)

lemma written_lines: "written fd (concat (map (\<lambda>l. [U_write fd [10], U_write fd l]) lns)) = concat (map (\<lambda>l. 10 # l) lns)"
  by (induction lns) auto

lemma join_concat: "l @ concat (map (\<lambda>l. 10 # l) lns) = join_lines (l # lns)"
  by (induction lns arbitrary: l) (auto, metis append_Cons concat.simps(2) list.simps(9))

section \<open>Properties\<close>




text \<open>With \<open>MAX_LINE_NUMBER\<close> lines the editor leaves its array: \<open>ins-256\<close> is accepted and uses \<open>text[256]\<close>, and every
  \<open>del\<close> reads on to it.\<close>

theorem editor_full_overrun:
  assumes "lines_ok lns" "length lns = MAX_LINE_NUMBER" "ed_text e = text_of lns" "x \<noteq> []" "1 \<le> n" "n \<le> MAX_LINE_NUMBER"
  shows "com_ins (int MAX_LINE_NUMBER) x e s = Panic ''undefined'' \<and> com_del (int n) e s = Panic ''undefined''"
proof
  have g: "get_line_number (ed_text e) + 1 = int MAX_LINE_NUMBER" using assms by (simp add: get_line_number_text)
  show "com_ins (int MAX_LINE_NUMBER) x e s = Panic ''undefined''"
    using assms(4) g by (simp add: com_ins_def com_input_def ins_text_def ed_update_def undef_def kpanic_def)
  have c: "close_gap t i = None" if "\<forall>j < MAX_LINE_NUMBER. t ! j \<noteq> None" "length t = MAX_LINE_NUMBER" for t i
    using that
  proof (induction t i rule: close_gap.induct)
    case (1 t i)
    show ?case
    proof (cases "i + 1 < MAX_LINE_NUMBER")
      case True
      with 1(2) obtain y where y: "t ! (i + 1) = Some y" by blast
      with True 1 show ?thesis by (subst close_gap.simps) (auto simp: nth_list_update)
    qed (simp add: close_gap.simps)
  qed
  have t: "length (text_of lns) = MAX_LINE_NUMBER" "\<forall>j < MAX_LINE_NUMBER. text_of lns ! j \<noteq> None"
    using assms(2) by (simp_all add: text_of_length text_of_line)
  then have "(text_of lns)[n - 1 := Some []] ! j \<noteq> None" if "j < MAX_LINE_NUMBER" for j
    using that by (cases "j = n - 1") auto
  with t(1) have "close_gap ((text_of lns)[n - 1 := Some []]) (n - 1) = None" by (intro c) simp_all
  then have "del_text (ed_text e) n = None" using assms(3) by (simp add: del_text_def split: option.split)
  then show "com_del (int n) e s = Panic ''undefined''"
    using g assms(5,6) by (simp add: com_del_def ed_update_def undef_def kpanic_def)
qed

definition wit_ed :: "byte list list \<Rightarrow> ed" where
  "wit_ed lns = \<lparr>ed_text = text_of lns, ed_changed = True, ed_show = False\<rparr>"

theorem editor_full_overrun_witness:
  "com_del 7 (wit_ed (replicate 256 [97])) \<lparr>answers = [], calls = []\<rparr> = Panic ''undefined''"
  using editor_full_overrun [of "replicate 256 [97]" "wit_ed (replicate 256 [97])" "[98]" 7]
  by (simp add: lines_ok_def MAX_LINE_NUMBER_def wit_ed_def)


end
