(* ===== verification/Spec2Isabelle.thy ===== *)
theory Spec2Isabelle
  imports Bcache_List Ide Syscall Spinlock Grep Sh Editor
begin

text \<open>
  Verification of an xv6 kernel and of its user programs (sources in \<open>src/\<close>).

  \<^bold>\<open>The program.\<close>  The kernel is a Unix for a multiprocessor PC: processes, virtual memory, a file system with a
  write-ahead log on a disk, pipes, a console with line editing, history and completion, and system calls.  The user
  programs are a shell with command suggestion, a line editor, \<open>grep\<close> and the usual file programs.

  \<^bold>\<open>Kernel code.\<close>  A kernel function is a state transformer with three outcomes (theory \<open>Prelude\<close>): it returns, calls
  \<open>panic\<close>, or gives up the processor in \<open>sched\<close> (\<open>Sleeping\<close>).  It is followed on one processor from its call to its
  return or to the context switch; functions that go on after \<open>sleep\<close> have their second half as a definition of its
  own (\<open>sleep_resume\<close>, \<open>pipewrite_from\<close>, \<open>piperead_from\<close>, \<open>iderw_wait\<close>), and step relations interleave the pieces where
  this matters.  The state is a chain of records, each theory extending it by the globals of its source file.  Pointers
  into static tables are indices, null pointers are \<open>None\<close>, an access outside an array or through a null pointer is a
  panic.  Spin locks are a set of held locks; theory \<open>Spinlock\<close> has the code of the locks on many processors and shows
  that it keeps this contract.

  \<^item> \<open>Prelude\<close>: machine integers in byte arrays, kernel computations, weakest preconditions, preserved predicates.
  \<^item> \<open>Sched\<close> (\<open>proc.c\<close>): process table, \<open>sched\<close>, \<open>yield\<close>, \<open>sleep\<close>, \<open>wakeup\<close>, \<open>kill\<close>, the choice of \<open>scheduler\<close>.
  \<^item> \<open>Spinlock\<close> (\<open>spinlock.c\<close>): \<open>acquire\<close>, \<open>release\<close>, \<open>pushcli\<close>, \<open>popcli\<close> as steps of many processors.  Shown: mutual
    exclusion, and refinement of the contract used by all other theories.
  \<^item> \<open>Bio\<close> (\<open>bio.c\<close>, \<open>memide.c\<close>): buffer cache over the memory disk.  \<open>view\<close> is the contents of the disk as seen through
    the cache.  \<open>Bcache_List\<close> has the \<open>prev\<close>/\<open>next\<close> pointers of the cache; the locale \<open>recency\<close> is what \<open>bget\<close> and \<open>brelse\<close>
    need of them.  Shown: the pointers refine the list of theory \<open>Bio\<close>, and \<open>bget\<close> recycles the least recently used
    buffer.  \<open>Ide\<close> (\<open>ide.c\<close>) has the driver of a real disk: requests are served in order, one at a time.
  \<^item> \<open>Log\<close> (\<open>log.c\<close>): the write-ahead log.  Shown: a crash at any disk write of a commit, and any number of crashes
    during recovery, leave all or nothing of a transaction.
  \<^item> \<open>Balloc\<close>, \<open>Inode\<close>, \<open>Dir\<close> (\<open>fs.c\<close>): block bitmap, inode cache, file contents, directories, path names.  Shown: first
    free block, one cache entry per inode, \<open>readi\<close> against the contents of a file, lookup of names, splitting of paths.
  \<^item> \<open>Strings\<close> (\<open>string.c\<close>, \<open>ulib.c\<close>): memory and string routines on byte memory.
  \<^item> \<open>Kalloc\<close> (\<open>kalloc.c\<close>): the free list inside the free pages refines a stack of pages.
  \<^item> \<open>Vm\<close> (\<open>vm.c\<close>): two-level page tables in physical memory.  Shown: \<open>mappages\<close> maps exactly the pages asked for,
    \<open>copyout\<close> changes exactly the bytes asked for.
  \<^item> \<open>Ring\<close>: ring buffers with counters that wrap (locale \<open>ring\<close>), used for pipes and for the console input.
  \<^item> \<open>Pipe\<close>, \<open>File\<close> (\<open>pipe.c\<close>, \<open>file.c\<close>): pipes and open files.  Shown: the bytes read from a pipe are those written, in
    order, in every interleaving; reading and writing end.
  \<^item> \<open>Proc\<close> (\<open>proc.c\<close>): \<open>allocproc\<close>, \<open>userinit\<close>, \<open>growproc\<close>, \<open>fork\<close>, \<open>exit\<close>, \<open>wait\<close>.
  \<^item> \<open>Uaccess\<close> (\<open>syscall.c\<close>, \<open>exec.c\<close>): fetching of arguments through the page table of the process, \<open>exec\<close>.
  \<^item> \<open>Console\<close> (\<open>console.c\<close>, \<open>kbd.c\<close>, \<open>uart.c\<close>): screen, keyboard, line editing, history, completion.  Shown: the input buffer
    represents a queue of finished lines and a line being edited, and what the console prints.
  \<^item> \<open>Sysfile\<close>, \<open>Syscall\<close> (\<open>sysfile.c\<close>, \<open>sysproc.c\<close>, \<open>syscall.c\<close>, \<open>trap.c\<close>): the system calls, the dispatcher, \<open>trap\<close>.

  \<^bold>\<open>User programs.\<close>  A program is run against the list of answers that its system calls get; its meaning is the list of
  its calls (theory \<open>User\<close>).  A program out of answers waits, and \<open>exit\<close> ends it.  Undefined behaviour of C (an index
  outside an array, a string without end) is \<open>Panic ''undefined''\<close>.

  \<^item> \<open>User\<close> (\<open>user.h\<close>, \<open>usys.S\<close>, \<open>printf.c\<close>, \<open>ulib.c\<close>): system calls, \<open>printf\<close>, \<open>gets\<close>, \<open>stat\<close>.
  \<^item> \<open>Uprogs\<close>: \<open>cat\<close>, \<open>wc\<close>, \<open>cp\<close>, \<open>mv\<close>, \<open>rm\<close>, \<open>ls\<close> and the small programs.  Shown: no program runs on without system calls, \<open>cp\<close>
    and \<open>mv\<close> copy the bytes, \<open>wc\<close> counts.
  \<^item> \<open>Grep\<close> (\<open>grep.c\<close>): the matcher decides the meaning of patterns; what is printed for input in one piece and in several.
  \<^item> \<open>Shparse\<close>, \<open>Shfix\<close>, \<open>Sh\<close> (\<open>sh.c\<close>): parser (round trip with printing), edit distance and suggestions, \<open>runcmd\<close> and \<open>main\<close>.
  \<^item> \<open>Editor\<close> (\<open>editor.c\<close>): the commands against editing of a list of lines, round trip of saving and loading.

  \<^bold>\<open>Bounds and endless loops.\<close>  Loops with a counter recurse on it.  The parser of the shell takes a depth which is shown
  to be enough for every line; the loops over directories are cut at the largest file, where \<open>readi\<close> panics; \<open>checkPrefix\<close>
  of the console calls itself at most once, which is shown; the recursion of \<open>rm\<close> is bounded by the number of answers.
  Loops that follow pointers or wait for a device are partial functions, and the theorems show that they return.

  \<^bold>\<open>Not modelled.\<close>  Assembly (boot, context switch, trap entry), programming of the interrupt controllers, the timer and the
  start of the other processors are hardware access.  The allocator of user programs (\<open>umalloc.c\<close>) is taken to succeed.
  The image builder \<open>mkfs.c\<close>, the interpreters \<open>make.c\<close> and \<open>script.c\<close> and the test programs are not part of the model.
  The device table \<open>devsw\<close>, the controller of the disk and what the hardware delivers to \<open>trap\<close> are parameters.
\<close>

end
